(* ===== verification/Prelude.thy ===== *)
theory Prelude
  imports Main "HOL-Library.Word"
begin

text \<open>
  Shared vocabulary of the development: the machine types of the code base, the result type
  behind \<^verbatim>\<open>outcome::result\<close> with the bind that \<^verbatim>\<open>OUTCOME_TRY\<close> performs, the little-endian
  reading of byte strings, and generic list facts the component theories rely on.
\<close>

unbundle bit_operations_syntax

section \<open>Machine types\<close>

type_synonym byte = "8 word"
type_synonym u16 = "16 word"
type_synonym u32 = "32 word"
type_synonym u64 = "64 word"
type_synonym bytes = "byte list"

named_theorems scale_simps \<open>rewriting of SCALE streams\<close>
named_theorems trie_simps \<open>rewriting of trie nodes\<close>
named_theorems utxo_simps \<open>rewriting of the UTXO pool\<close>
named_theorems queue_simps \<open>rewriting of the subtask queue\<close>

section \<open>Results\<close>

text \<open>
  \<^verbatim>\<open>outcome::result<T>\<close> and a computation that may throw are sums: \<open>Inl\<close> carries the error,
  \<open>Inr\<close> the value. \<open>rbind\<close> is what \<^verbatim>\<open>OUTCOME_TRY\<close> (and a propagating exception) does.
\<close>

definition rbind :: "'e + 'a \<Rightarrow> ('a \<Rightarrow> 'e + 'b) \<Rightarrow> 'e + 'b" where
  "rbind r f = (case r of Inl e \<Rightarrow> Inl e | Inr x \<Rightarrow> f x)"

definition rmap :: "('a \<Rightarrow> 'b) \<Rightarrow> 'e + 'a \<Rightarrow> 'e + 'b" where
  "rmap f r = rbind r (\<lambda>x. Inr (f x))"

lemma rbind_simps [simp]:
  "rbind (Inl e) f = Inl e"
  "rbind (Inr x) f = f x"
  by (simp_all add: rbind_def)

lemma rmap_simps [simp]:
  "rmap g (Inl e) = Inl e"
  "rmap g (Inr x) = Inr (g x)"
  by (simp_all add: rmap_def)

lemma rbind_Inr [simp]: "rbind r Inr = r"
  by (cases r) auto

lemma rbind_eq_Inr: "rbind r f = Inr y \<longleftrightarrow> (\<exists>x. r = Inr x \<and> f x = Inr y)"
  by (cases r) auto

lemma rbind_eq_Inl: "rbind r f = Inl e \<longleftrightarrow> r = Inl e \<or> (\<exists>x. r = Inr x \<and> f x = Inl e)"
  by (cases r) auto

lemma rbind_InrE [elim!]:
  assumes "rbind r f = Inr y"
  obtains x where "r = Inr x" and "f x = Inr y"
  using assms by (auto simp: rbind_eq_Inr)

lemma rbind_cong [fundef_cong]:
  "r = r' \<Longrightarrow> (\<And>x. r' = Inr x \<Longrightarrow> f x = f' x) \<Longrightarrow> rbind r f = rbind r' f'"
  by (cases r') auto

section \<open>Little-endian byte strings\<close>

text \<open>
  \<open>le_bytes n v\<close> is the \<open>n\<close>-byte little-endian storage of \<open>v\<close>; \<open>le_nat\<close> reads a byte string
  back. They state what the storage order of a little-endian buffer is.
\<close>

fun le_bytes :: "nat \<Rightarrow> nat \<Rightarrow> bytes" where
  "le_bytes 0 v = []"
| "le_bytes (Suc n) v = of_nat v # le_bytes n (v div 256)"

fun le_nat :: "bytes \<Rightarrow> nat" where
  "le_nat [] = 0"
| "le_nat (b # bs) = unat b + 256 * le_nat bs"

lemma length_le_bytes [simp]: "length (le_bytes n v) = n"
  by (induction n arbitrary: v) auto

lemma unat_of_nat_byte: "unat (of_nat v :: byte) = v mod 256"
  by (simp add: unat_of_nat)

lemma unat_byte_less: "unat (b :: byte) < 256"
  using unsigned_less [of b, where ?'a = nat] by simp

lemma le_nat_le_bytes: "le_nat (le_bytes n v) = v mod 256 ^ n"
proof (induction n arbitrary: v)
  case 0
  then show ?case by simp
next
  case (Suc n)
  have "v mod (256 * 256 ^ n) = 256 * (v div 256 mod 256 ^ n) + v mod 256"
    by (rule mod_mult2_eq)
  with Suc.IH [of "v div 256"] show ?case
    by (simp add: unat_of_nat_byte)
qed

lemma le_nat_less: "le_nat bs < 256 ^ length bs"
proof (induction bs)
  case Nil
  then show ?case by simp
next
  case (Cons b bs)
  have "unat b < 256" by (rule unat_byte_less)
  with Cons.IH show ?case by simp
qed

lemma le_bytes_le_nat [simp]: "le_bytes (length bs) (le_nat bs) = bs"
proof (induction bs)
  case Nil
  then show ?case by simp
next
  case (Cons b bs)
  have b: "unat b < 256" by (rule unat_byte_less)
  then have "(unat b + 256 * le_nat bs) div 256 = le_nat bs" by simp
  moreover have "(of_nat (256 * le_nat bs) :: byte) = 0"
    by (simp only: word_of_nat_eq_0_iff) simp
  then have "(of_nat (unat b + 256 * le_nat bs) :: byte) = b"
    by (simp only: of_nat_add) simp
  ultimately show ?case using Cons.IH by simp
qed

lemma le_nat_small: "v < 256 ^ n \<Longrightarrow> le_nat (le_bytes n v) = v"
  by (simp add: le_nat_le_bytes)

section \<open>Words and bytes\<close>

lemma unat_of_nat_eq: "k < 2 ^ LENGTH('a) \<Longrightarrow> unat (of_nat k :: 'a::len word) = k"
  by (simp add: unat_of_nat)

lemma ucast_uminus_down:
  "LENGTH('a::len) \<le> LENGTH('b::len) \<Longrightarrow> (ucast (- v :: 'b word) :: 'a word) = - ucast v"
  by transfer (metis min.absorb1 take_bit_minus take_bit_take_bit)

lemma unat_and_3: "unat (b AND 3 :: byte) = unat b mod 4"
proof -
  have "b AND 3 = take_bit 2 b" by (simp add: take_bit_eq_mask mask_eq_exp_minus_1)
  then have "unat (b AND 3) = take_bit 2 (unat b)" by (simp only: unsigned_take_bit_eq)
  then show ?thesis by (simp add: take_bit_eq_mod)
qed

lemma unat_and_252: "unat (b AND 252 :: byte) = 4 * (unat b div 4)"
proof -
  have "(252 :: byte) = NOT (mask 2)" by (simp add: mask_eq_exp_minus_1)
  moreover have "2 \<le> n \<Longrightarrow> Suc (Suc (n - 2)) = n" for n by simp
  then have "b AND NOT (mask 2) = push_bit 2 (drop_bit 2 b)"
    by (intro bit_word_eqI) (auto simp: bit_simps)
  ultimately have "b AND 252 = push_bit 2 (drop_bit 2 b)" by simp
  then have "unat (b AND 252) = take_bit LENGTH(8) (push_bit 2 (drop_bit 2 (unat b)))"
    by (simp only: unsigned_push_bit_eq unat_drop_bit_eq)
  then show ?thesis using unat_byte_less [of b]
    by (simp add: take_bit_eq_mod push_bit_eq_mult drop_bit_eq_div)
qed

lemma le_bytes_numeral: "le_bytes (numeral w) v = of_nat v # le_bytes (pred_numeral w) (v div 256)"
  unfolding numeral_eq_Suc [of w] by (rule le_bytes.simps(2))


lemma mod_256_4: "(k * 4 + c) mod 256 mod 4 = c mod (4::nat)"
  by (simp add: mod_mod_cancel)

lemma split_div_4: "(4 * (m mod 256 div 4) + m div 256 * 256) div 4 = m div (4::nat)"
proof -
  have "m div 4 = (m mod 256 + (m div 256 * 64) * 4) div 4" by simp
  also have "\<dots> = m div 256 * 64 + m mod 256 div 4" by (rule div_mult_self1) simp
  finally have "m div 4 = m mod 256 div 4 + m div 256 * 64" by simp
  moreover have "(4 * (m mod 256 div 4) + m div 256 * 256) = (m mod 256 div 4 + m div 256 * 64) * 4" by simp
  ultimately show ?thesis by simp
qed

lemma byte_flag: "(b AND 3 :: byte) = of_nat (unat b mod 4)"
  by (metis unat_and_3 of_nat_unat ucast_id)

lemma unat_byte_u64: "unat (ucast (b :: byte) :: u64) = unat b"
  using unat_byte_less [of b] by (simp add: unsigned_ucast_eq take_bit_nat_eq_self)

end
