(* ===== verification/Scale_Codec.thy ===== *)
theory Scale_Codec
  imports Prelude
begin

text \<open>
  The SCALE codec of \<^verbatim>\<open>src/scale\<close>: \<^verbatim>\<open>ScaleEncoderStream\<close> is the byte list written so far and
  every \<^verbatim>\<open>operator<<\<close> maps a value and a stream to the new stream or to the error raised;
  \<^verbatim>\<open>ScaleDecoderStream\<close> is the record \<open>decoder_stream\<close> and every \<^verbatim>\<open>operator>>\<close> maps a stream to
  the value read and the advanced stream, or to the error raised. The templates over an
  element type take the element's operator as an argument. \<^verbatim>\<open>CompactInteger\<close> is an unbounded
  integer, fixed-width integers are words. Running out of memory is not modelled.
\<close>

section \<open>Errors and streams\<close>

datatype EncodeError =
    COMPACT_INTEGER_TOO_BIG
  | NEGATIVE_COMPACT_INTEGER
  | WRONG_CATEGORY
  | WRONG_ALTERNATIVE
  | DEREF_NULLPOINTER

datatype DecodeError =
    NOT_ENOUGH_DATA
  | UNEXPECTED_VALUE
  | TOO_MANY_ITEMS
  | WRONG_TYPE_INDEX
  | INVALID_DATA
  | OUT_OF_BOUNDARIES

type_synonym 'a encoder = "'a \<Rightarrow> bytes \<Rightarrow> EncodeError + bytes"

record decoder_stream =
  span :: bytes
  current_index :: nat

type_synonym 'a decoder = "decoder_stream \<Rightarrow> DecodeError + ('a \<times> decoder_stream)"

definition ScaleDecoderStream :: "bytes \<Rightarrow> decoder_stream" where
  "ScaleDecoderStream bs = \<lparr>span = bs, current_index = 0\<rparr>"

section \<open>Encoding\<close>

definition putByte :: "byte \<Rightarrow> bytes \<Rightarrow> bytes" where
  "putByte v stream = stream @ [v]"

text \<open>Integral types: \<^verbatim>\<open>bool\<close> and one-byte types are put as they are, the rest little-endian.\<close>

definition encodeBool :: "bool encoder" where
  "encodeBool v out = Inr (putByte (if v then 1 else 0) out)"

definition encodeByte :: "byte encoder" where
  "encodeByte v out = Inr (putByte v out)"

definition encodeInteger :: "'a::len word encoder" where
  "encodeInteger value out =
     (let size = LENGTH('a) div 8; buf = le_bytes size (unat value)
      in Inr (fold (\<lambda>i out. putByte (buf ! i) out) [0..<size] out))"

definition encodeFirstCategory :: "byte \<Rightarrow> bytes \<Rightarrow> EncodeError + bytes" where
  "encodeFirstCategory value out = encodeByte (push_bit 2 value) out"

definition encodeSecondCategory :: "u16 \<Rightarrow> bytes \<Rightarrow> EncodeError + bytes" where
  "encodeSecondCategory value out =
     (let v = push_bit 2 value;
          v = v + 1;
          minor_byte = ucast (v AND 0xFF);
          v = drop_bit 8 v;
          major_byte = ucast (v AND 0xFF)
      in rbind (encodeByte minor_byte out) (encodeByte major_byte))"

definition encodeThirdCategory :: "u32 \<Rightarrow> bytes \<Rightarrow> EncodeError + bytes" where
  "encodeThirdCategory value out = encodeInteger (push_bit 2 value + 2) out"

text \<open>\<^verbatim>\<open>countBytes\<close>: the loop shifts a positive value right by eight until it is zero.\<close>

function countBytes_loop :: "int \<Rightarrow> nat \<Rightarrow> nat" where
  "countBytes_loop v counter =
     (if v > 0 then countBytes_loop (v div 256) (counter + 1) else counter)"
  by pat_completeness auto
termination
  by (relation "measure (\<lambda>(v, counter). nat v)") auto

declare countBytes_loop.simps [simp del]

definition countBytes :: "int \<Rightarrow> nat" where
  "countBytes v = (if v = 0 then 1 else countBytes_loop v 0)"

fun bigint_bytes :: "nat \<Rightarrow> int \<Rightarrow> bytes" where
  "bigint_bytes 0 v = []"
| "bigint_bytes (Suc n) v = of_int (v mod 256) # bigint_bytes n (v div 256)"

definition kMinUint16 :: int where "kMinUint16 = 2 ^ 6"
definition kMinUint32 :: int where "kMinUint32 = 2 ^ 14"
definition kMinBigInteger :: int where "kMinBigInteger = 2 ^ 30"

definition encodeCompactInteger :: "int encoder" where
  "encodeCompactInteger v out =
     (if v < 0 then Inl NEGATIVE_COMPACT_INTEGER
      else if v < kMinUint16 then encodeFirstCategory (of_int v) out
      else if v < kMinUint32 then encodeSecondCategory (of_int v) out
      else if v < kMinBigInteger then encodeThirdCategory (of_int v) out
      else
        let bigIntLength = countBytes v in
        if bigIntLength > 67 then Inl COMPACT_INTEGER_TOO_BIG
        else
          let header = of_nat ((bigIntLength - 4) * 4 + 3);
              result = header # bigint_bytes bigIntLength v
          in Inr (fold putByte result out))"

definition encodeOptionalBool :: "bool option encoder" where
  "encodeOptionalBool v out =
     (let result = (case v of None \<Rightarrow> 0 | Some b \<Rightarrow> if \<not> b then 1 else 2)
      in Inr (putByte result out))"

definition encodePair :: "'a encoder \<Rightarrow> 'b encoder \<Rightarrow> ('a \<times> 'b) encoder" where
  "encodePair ea eb p out = rbind (ea (fst p) out) (eb (snd p))"

definition encodeOptional :: "'a encoder \<Rightarrow> 'a option encoder" where
  "encodeOptional ea v out =
     (case v of None \<Rightarrow> Inr (putByte 0 out) | Some x \<Rightarrow> ea x (putByte 1 out))"

text \<open>A null \<^verbatim>\<open>shared_ptr\<close> or \<^verbatim>\<open>unique_ptr\<close> is \<open>None\<close>.\<close>

definition encodePointer :: "'a encoder \<Rightarrow> 'a option encoder" where
  "encodePointer ea v out =
     (case v of None \<Rightarrow> Inl DEREF_NULLPOINTER | Some x \<Rightarrow> ea x out)"

fun encodeItems :: "'a encoder \<Rightarrow> 'a list encoder" where
  "encodeItems ea [] out = Inr out"
| "encodeItems ea (x # xs) out = rbind (ea x out) (encodeItems ea xs)"

definition encodeCollection :: "'a encoder \<Rightarrow> 'a list encoder" where
  "encodeCollection ea c out =
     rbind (encodeCompactInteger (int (length c)) out) (encodeItems ea c)"

text \<open>
  Arrays are written as collections, with their size in front. A \<^verbatim>\<open>Blob\<close> has its own
  operator, which writes the bytes only.
\<close>

definition encodeArray :: "'a encoder \<Rightarrow> 'a list encoder" where
  "encodeArray ea a out = encodeCollection ea a out"

definition encodeBlob :: "bytes encoder" where
  "encodeBlob blob out = encodeItems encodeByte blob out"

definition encodeBuffer :: "bytes encoder" where
  "encodeBuffer buffer out = encodeCollection encodeByte buffer out"

text \<open>
  A variant over the alternatives \<^verbatim>\<open>Ts...\<close> is the index of the alternative it holds with the
  value held; \<^verbatim>\<open>tryEncodeAsOneOfVariant<I>\<close> walks the alternatives and writes nothing when
  none matches.
\<close>

fun tryEncodeAsOneOfVariant :: "nat \<Rightarrow> 'u encoder list \<Rightarrow> (nat \<times> 'u) encoder" where
  "tryEncodeAsOneOfVariant I [] v out = Inr out"
| "tryEncodeAsOneOfVariant I (e # es) v out =
     (if fst v = I then rbind (encodeByte (of_nat I) out) (e (snd v))
      else tryEncodeAsOneOfVariant (I + 1) es v out)"

definition encodeVariant :: "'u encoder list \<Rightarrow> (nat \<times> 'u) encoder" where
  "encodeVariant es v out = tryEncodeAsOneOfVariant 0 es v out"

fun encodeElementOfTuple :: "'u encoder list \<Rightarrow> 'u list encoder" where
  "encodeElementOfTuple (e # es) (x # xs) out = rbind (e x out) (encodeElementOfTuple es xs)"
| "encodeElementOfTuple _ _ out = Inr out"

definition encode :: "'a encoder \<Rightarrow> 'a \<Rightarrow> EncodeError + bytes" where
  "encode ea x = ea x []"

section \<open>Decoding\<close>

definition hasMore :: "decoder_stream \<Rightarrow> nat \<Rightarrow> bool" where
  "hasMore s n \<longleftrightarrow> current_index s + n \<le> length (span s)"

definition nextByte :: "byte decoder" where
  "nextByte s =
     (if \<not> hasMore s 1 then Inl NOT_ENOUGH_DATA
      else Inr (span s ! current_index s, s\<lparr>current_index := current_index s + 1\<rparr>))"

definition decodeBool :: "bool decoder" where
  "decodeBool s =
     rbind (nextByte s) (\<lambda>(b, s).
       if b = 0 then Inr (False, s) else if b = 1 then Inr (True, s)
       else Inl UNEXPECTED_VALUE)"

definition decodeOptionalBool :: "bool option decoder" where
  "decodeOptionalBool s =
     rbind (nextByte s) (\<lambda>(b, s).
       if b = 0 then Inr (None, s) else if b = 1 then Inr (Some False, s)
       else if b = 2 then Inr (Some True, s) else Inl UNEXPECTED_VALUE)"

text \<open>
  \<^verbatim>\<open>decodeInteger\<close>: the bytes are summed in a 64-bit accumulator with the multiplier
  \<open>2 ^ (8 * i)\<close> of the table, then reduced to the width of the type; a set sign bit of a
  signed type goes through the explicit negation.
\<close>

fun decodeInteger_loop :: "nat \<Rightarrow> nat \<Rightarrow> u64 \<Rightarrow> u64 decoder" where
  "decodeInteger_loop 0 i v s = Inr (v, s)"
| "decodeInteger_loop (Suc n) i v s =
     rbind (nextByte s) (\<lambda>(b, s). decodeInteger_loop n (i + 1) (v + 2 ^ (8 * i) * ucast b) s)"

definition decodeInteger :: "bool \<Rightarrow> 'a::len word decoder" where
  "decodeInteger is_unsigned s =
     (let size = LENGTH('a) div 8 in
      if \<not> hasMore s size then Inl NOT_ENOUGH_DATA
      else
        rbind (decodeInteger_loop size 0 0 s) (\<lambda>(v, s).
          if is_unsigned \<or> v < 2 ^ (8 * size - 1) then Inr (ucast v, s)
          else Inr (- ucast (NOT v + 1), s)))"

fun compact_loop4 :: "nat \<Rightarrow> u64 \<Rightarrow> u64 \<Rightarrow> u64 decoder" where
  "compact_loop4 0 number multiplier s = Inr (number, s)"
| "compact_loop4 (Suc n) number multiplier s =
     rbind (nextByte s) (\<lambda>(b, s).
       compact_loop4 n (number + ucast b * multiplier) (push_bit 8 multiplier) s)"

fun compact_loop_big :: "nat \<Rightarrow> int \<Rightarrow> int \<Rightarrow> int decoder" where
  "compact_loop_big 0 v multiplier s = Inr (v, s)"
| "compact_loop_big (Suc n) v multiplier s =
     rbind (nextByte s) (\<lambda>(b, s).
       compact_loop_big n (v + uint b * multiplier) (multiplier * 256) s)"

definition decodeCompactInteger :: "int decoder" where
  "decodeCompactInteger s =
     rbind (nextByte s) (\<lambda>(first_byte, s).
       let flag = first_byte AND 3 in
       if flag = 0 then Inr (uint (ucast (drop_bit 2 first_byte) :: u64), s)
       else if flag = 1 then
         rbind (nextByte s) (\<lambda>(second_byte, s).
           Inr (uint (drop_bit 2 (ucast (first_byte AND 0xFC) + ucast second_byte * 256 :: u64)), s))
       else if flag = 2 then
         (if \<not> hasMore s 3 then Inl NOT_ENOUGH_DATA
          else rbind (compact_loop4 3 (ucast first_byte) 256 s) (\<lambda>(number, s).
            Inr (uint (drop_bit 2 number), s)))
       else
         let bytes_count = unat (drop_bit 2 first_byte) + 4 in
         if \<not> hasMore s bytes_count then Inl NOT_ENOUGH_DATA
         else compact_loop_big bytes_count 0 1 s)"

definition decodePair :: "'a decoder \<Rightarrow> 'b decoder \<Rightarrow> ('a \<times> 'b) decoder" where
  "decodePair da db s =
     rbind (da s) (\<lambda>(a, s). rbind (db s) (\<lambda>(b, s). Inr ((a, b), s)))"

definition decodeOptional :: "'a decoder \<Rightarrow> 'a option decoder" where
  "decodeOptional da s =
     rbind (decodeBool s) (\<lambda>(has_value, s).
       if \<not> has_value then Inr (None, s)
       else rbind (da s) (\<lambda>(x, s). Inr (Some x, s)))"

definition decodePointer :: "'a decoder \<Rightarrow> 'a option decoder" where
  "decodePointer da s = rbind (da s) (\<lambda>(x, s). Inr (Some x, s))"

fun decodeItems :: "'a decoder \<Rightarrow> nat \<Rightarrow> 'a list decoder" where
  "decodeItems da 0 s = Inr ([], s)"
| "decodeItems da (Suc n) s =
     rbind (da s) (\<lambda>(x, s). rbind (decodeItems da n s) (\<lambda>(xs, s). Inr (x # xs, s)))"

definition decodeCollection :: "'a decoder \<Rightarrow> 'a list decoder" where
  "decodeCollection da s =
     rbind (decodeCompactInteger s) (\<lambda>(size, s).
       if size > 2 ^ 64 - 1 then Inl TOO_MANY_ITEMS
       else decodeItems da (nat size) s)"

definition decodeArray :: "'a decoder \<Rightarrow> nat \<Rightarrow> 'a list decoder" where
  "decodeArray da n s = decodeItems da n s"

definition decodeBlob :: "nat \<Rightarrow> bytes decoder" where
  "decodeBlob n s = decodeItems nextByte n s"

text \<open>The decoded bytes are put at the end of the buffer that is passed in.\<close>

definition decodeBuffer :: "bytes \<Rightarrow> bytes decoder" where
  "decodeBuffer buffer s =
     rbind (decodeCollection nextByte s) (\<lambda>(data, s). Inr (buffer @ data, s))"

fun tryDecodeAsOneOfVariant :: "nat \<Rightarrow> 'u decoder list \<Rightarrow> nat \<Rightarrow> (nat \<times> 'u) \<Rightarrow> (nat \<times> 'u) decoder" where
  "tryDecodeAsOneOfVariant I [] i v s = Inr (v, s)"
| "tryDecodeAsOneOfVariant I (d # ds) i v s =
     (if I = i then rbind (d s) (\<lambda>(val, s). Inr ((I, val), s))
      else tryDecodeAsOneOfVariant (I + 1) ds i v s)"

definition decodeVariant :: "'u decoder list \<Rightarrow> (nat \<times> 'u) \<Rightarrow> (nat \<times> 'u) decoder" where
  "decodeVariant ds v s =
     rbind (nextByte s) (\<lambda>(type_index, s).
       if unat type_index \<ge> length ds then Inl WRONG_TYPE_INDEX
       else tryDecodeAsOneOfVariant 0 ds (unat type_index) v s)"

fun decodeElementOfTuple :: "'u decoder list \<Rightarrow> 'u list decoder" where
  "decodeElementOfTuple [] s = Inr ([], s)"
| "decodeElementOfTuple (d # ds) s =
     rbind (d s) (\<lambda>(x, s). rbind (decodeElementOfTuple ds s) (\<lambda>(xs, s). Inr (x # xs, s)))"

definition decode :: "'a decoder \<Rightarrow> bytes \<Rightarrow> DecodeError + 'a" where
  "decode da bs = rmap fst (da (ScaleDecoderStream bs))"

section \<open>Reading a stream\<close>

definition rest :: "decoder_stream \<Rightarrow> bytes" where
  "rest s = drop (current_index s) (span s)"

definition advance :: "nat \<Rightarrow> decoder_stream \<Rightarrow> decoder_stream" where
  "advance n s = s\<lparr>current_index := current_index s + n\<rparr>"

lemma rest_advance [scale_simps]: "rest (advance n s) = drop n (rest s)"
  by (simp add: rest_def advance_def add.commute)

lemma advance_advance [scale_simps]: "advance m (advance n s) = advance (n + m) s"
  by (simp add: advance_def)

lemma advance_0 [scale_simps]: "advance 0 s = s"
  by (simp add: advance_def)

lemma rest_ScaleDecoderStream [scale_simps]: "rest (ScaleDecoderStream bs) = bs"
  by (simp add: rest_def ScaleDecoderStream_def)

lemma nextByte_Cons [scale_simps]: "rest s = b # bs \<Longrightarrow> nextByte s = Inr (b, advance 1 s)"
  by (auto simp: nextByte_def hasMore_def rest_def advance_def)
    (metis drop_eq_Nil not_less_eq_eq list.distinct(1) nth_via_drop)+

lemma nextByte_Nil [scale_simps]: "rest s = [] \<Longrightarrow> nextByte s = Inl NOT_ENOUGH_DATA"
  by (simp add: nextByte_def hasMore_def rest_def)

lemma hasMore_rest: "0 < n \<Longrightarrow> hasMore s n \<longleftrightarrow> n \<le> length (rest s)"
  by (auto simp: hasMore_def rest_def)

lemma decodeInteger_loop_eq:
  "rest s = bs @ r \<Longrightarrow>
   decodeInteger_loop (length bs) i v s =
     Inr (v + 2 ^ (8 * i) * of_nat (le_nat bs), advance (length bs) s)"
proof (induction bs arbitrary: s i v)
  case Nil
  then show ?case by (simp add: scale_simps)
next
  case (Cons b bs)
  have p: "(2::u64) ^ (8 * (i + 1)) = 2 ^ (8 * i) * 256"
    by (simp add: power_add)
  from Cons.prems have "rest (advance 1 s) = bs @ r" by (simp add: scale_simps)
  from Cons.IH [OF this, of "i + 1" "v + 2 ^ (8 * i) * ucast b"] Cons.prems
  show ?case
    by (simp add: scale_simps p unsigned_ucast_eq algebra_simps power_add)
qed


lemma fold_putByte [scale_simps]: "fold putByte bs out = out @ bs"
  by (induction bs arbitrary: out) (simp_all add: putByte_def)

lemma fold_putByte_nth: "fold (\<lambda>i out. putByte (buf ! i) out) [0..<length buf] out = out @ buf"
proof -
  have "fold (\<lambda>i out. putByte (buf ! i) out) [0..<length buf] out =
        fold putByte (map ((!) buf) [0..<length buf]) out"
    by (simp add: fold_map o_def)
  then show ?thesis by (simp add: scale_simps map_nth)
qed

lemma encodeInteger_eq [scale_simps]:
  "encodeInteger (value :: 'a::len word) out = Inr (out @ le_bytes (LENGTH('a) div 8) (unat value))"
  using fold_putByte_nth [of "le_bytes (LENGTH('a) div 8) (unat value)" out]
  by (simp add: encodeInteger_def)

lemma decodeInteger_eq:
  fixes w :: "'a::len word"
  assumes "LENGTH('a) = 8 * n" and "n \<le> 8"
    and "rest s = le_bytes n (unat w) @ r"
  shows "decodeInteger is_unsigned s = Inr (w, advance n s)"
proof -
  have sz: "LENGTH('a) div 8 = n" "0 < n" using assms(1) len_gt_0 [where 'a = 'a] by auto
  have "unat w < 2 ^ (8 * n)" using unsigned_less [of w, where ?'a = nat] assms(1) by simp
  then have "le_nat (le_bytes n (unat w)) = unat w"
    by (simp add: le_nat_small power_mult)
  then have loop: "decodeInteger_loop n 0 0 s = Inr (ucast w, advance n s)"
    using decodeInteger_loop_eq [OF assms(3), of 0 0] by (simp add: unsigned_ucast_eq)
  have down: "LENGTH('a) \<le> LENGTH(64)" using assms by simp
  then have bck: "(ucast (ucast w :: u64) :: 'a word) = w"
    by (simp add: is_up ucast_up_ucast_id)
  then have "- (ucast (NOT (ucast w :: u64) + 1) :: 'a word) = w"
    by (simp flip: minus_eq_not_plus_1 add: ucast_uminus_down [OF down])
  moreover have "hasMore s n" using sz(2) assms(3) by (simp add: hasMore_rest)
  ultimately show ?thesis
    by (simp add: decodeInteger_def sz(1) loop bck)
qed

lemma countBytes_loop_bounds:
  "0 < v \<Longrightarrow> \<exists>m. countBytes_loop v k = k + Suc m \<and> 256 ^ m \<le> v \<and> v < 256 ^ Suc m"
proof (induction v k rule: countBytes_loop.induct)
  case (1 v k)
  show ?case
  proof (cases "0 < v div 256")
    case True
    with 1 obtain m where m: "countBytes_loop (v div 256) (k + 1) = k + 1 + Suc m"
      "256 ^ m \<le> v div 256" "v div 256 < 256 ^ Suc m" by auto
    then have "256 ^ Suc m \<le> v" "v < 256 ^ Suc (Suc m)" by auto
    with m(1) 1(2) show ?thesis
      by (intro exI [of _ "Suc m"]) (simp add: countBytes_loop.simps [of v k])
  next
    case False
    with 1(2) have "v < 256" by simp
    with False 1(2) show ?thesis
      by (intro exI [of _ 0]) (simp add: countBytes_loop.simps [of v k] countBytes_loop.simps [of 0 "Suc k"])
  qed
qed

lemma countBytes_bounds:
  assumes "0 < v"
  shows "256 ^ (countBytes v - 1) \<le> v" and "v < 256 ^ countBytes v"
  using countBytes_loop_bounds [OF assms, of 0] assms by (auto simp: countBytes_def)

lemma bigint_bytes_eq: "0 \<le> v \<Longrightarrow> bigint_bytes n v = le_bytes n (nat v)"
proof (induction n arbitrary: v)
  case 0
  then show ?case by simp
next
  case (Suc n)
  have "(of_int (v mod 256) :: byte) = of_nat (nat v)"
    using Suc.prems by (auto simp: word_of_int_eq_iff of_nat_nat take_bit_eq_mod)
  with Suc show ?case by (simp add: nat_div_distrib)
qed

section \<open>The wire format of compact integers\<close>

text \<open>The four modes of the compact format, as byte strings.\<close>

definition compact_bytes :: "int \<Rightarrow> bytes" where
  "compact_bytes v =
     (if v < 2 ^ 6 then le_bytes 1 (nat v * 4)
      else if v < 2 ^ 14 then le_bytes 2 (nat v * 4 + 1)
      else if v < 2 ^ 30 then le_bytes 4 (nat v * 4 + 2)
      else of_nat ((countBytes v - 4) * 4 + 3) # le_bytes (countBytes v) (nat v))"

definition compact_valid :: "int \<Rightarrow> bool" where
  "compact_valid v \<longleftrightarrow> 0 \<le> v \<and> v < 2 ^ 536"

lemma countBytes_range:
  assumes "2 ^ 30 \<le> v" and "v < 2 ^ 536"
  shows "4 \<le> countBytes v" and "countBytes v \<le> 67"
proof -
  have v: "0 < v" using assms(1) by simp
  show "4 \<le> countBytes v"
  proof (rule ccontr)
    assume "\<not> 4 \<le> countBytes v"
    then have "(256::int) ^ countBytes v \<le> 256 ^ 3" by (intro power_increasing) auto
    with countBytes_bounds(2) [OF v] assms(1) show False by simp
  qed
  show "countBytes v \<le> 67"
  proof (rule ccontr)
    assume "\<not> countBytes v \<le> 67"
    then have "(256::int) ^ 67 \<le> 256 ^ (countBytes v - 1)" by (intro power_increasing) auto
    with countBytes_bounds(1) [OF v] have "(256::int) ^ 67 \<le> v" by linarith
    moreover have "(256::int) ^ 67 = 2 ^ 536" by simp
    ultimately show False using assms(2) by linarith
  qed
qed

lemma countBytes_too_big: "2 ^ 536 \<le> v \<Longrightarrow> 67 < countBytes v"
proof (rule ccontr)
  assume v: "2 ^ 536 \<le> v" and "\<not> 67 < countBytes v"
  then have "(256::int) ^ countBytes v \<le> 256 ^ 67" by (intro power_increasing) auto
  moreover have "0 < v" using v by (rule less_le_trans [rotated]) simp
  ultimately have "v < 256 ^ 67" using countBytes_bounds(2) [of v] by linarith
  then show False using v by simp
qed

lemma encodeSecondCategory_eq:
  assumes "k < 2 ^ 14"
  shows "encodeSecondCategory (of_nat k) out = Inr (out @ le_bytes 2 (k * 4 + 1))"
proof -
  let ?v = "of_nat (k * 4 + 1) :: u16"
  have v: "push_bit 2 (of_nat k) + 1 = ?v" by (simp add: push_bit_eq_mult)
  have u: "unat ?v = k * 4 + 1" using assms by (intro unat_of_nat_eq) simp
  have m: "x AND 0xFF = take_bit 8 x" for x :: u16 by (simp add: take_bit_eq_mask mask_eq_exp_minus_1)
  have "unat (ucast (?v AND 0xFF) :: byte) = (k * 4 + 1) mod 256"
    unfolding m unsigned_ucast_eq unsigned_take_bit_eq u by (simp add: take_bit_eq_mod)
  then have minor: "ucast (?v AND 0xFF) = (of_nat (k * 4 + 1) :: byte)"
    by (metis unat_of_nat_byte word_unat_eq_iff)
  have "unat (ucast (drop_bit 8 ?v AND 0xFF) :: byte) = (k * 4 + 1) div 256 mod 256"
    unfolding m unsigned_ucast_eq unsigned_take_bit_eq unat_drop_bit_eq u
    by (simp add: take_bit_eq_mod drop_bit_eq_div)
  then have major: "ucast (drop_bit 8 ?v AND 0xFF) = (of_nat ((k * 4 + 1) div 256) :: byte)"
    by (metis unat_of_nat_byte word_unat_eq_iff)
  show ?thesis
    unfolding encodeSecondCategory_def Let_def v minor major
    by (simp add: encodeByte_def putByte_def numeral_2_eq_2)
qed

lemma encodeThirdCategory_eq:
  assumes "k < 2 ^ 30"
  shows "encodeThirdCategory (of_nat k) out = Inr (out @ le_bytes 4 (k * 4 + 2))"
proof -
  have v: "push_bit 2 (of_nat k) + 2 = (of_nat (k * 4 + 2) :: u32)" by (simp add: push_bit_eq_mult)
  have u: "unat (of_nat (k * 4 + 2) :: u32) = k * 4 + 2" using assms by (intro unat_of_nat_eq) simp
  show ?thesis unfolding encodeThirdCategory_def v encodeInteger_eq u by simp
qed

lemma encodeCompactInteger_valid:
  assumes "compact_valid v"
  shows "encodeCompactInteger v out = Inr (out @ compact_bytes v)"
proof -
  from assms obtain k where k: "v = int k" and v: "v < 2 ^ 536"
    by (auto simp: compact_valid_def dest: nonneg_int_cases)
  note d = encodeCompactInteger_def compact_bytes_def kMinUint16_def kMinUint32_def kMinBigInteger_def
  consider "k < 2 ^ 6" | "2 ^ 6 \<le> k" "k < 2 ^ 14" | "2 ^ 14 \<le> k" "k < 2 ^ 30" | "2 ^ 30 \<le> k"
    by linarith
  then show ?thesis
  proof cases
    case 1
    have "push_bit 2 (of_nat k :: byte) = of_nat (k * 4)"
      by (simp add: push_bit_eq_mult)
    with 1 k show ?thesis by (simp add: d encodeFirstCategory_def encodeByte_def putByte_def)
  next
    case 2
    with encodeSecondCategory_eq [of k out] k show ?thesis by (simp add: d)
  next
    case 3
    with encodeThirdCategory_eq [of k out] k show ?thesis by (simp add: d)
  next
    case 4
    then have "2 ^ 30 \<le> v" using k by simp
    with countBytes_range [OF this v] k show ?thesis
      by (simp add: d bigint_bytes_eq Let_def scale_simps putByte_def)
  qed
qed

lemma compact_loop4_eq:
  "rest s = bs @ r \<Longrightarrow>
   compact_loop4 (length bs) number multiplier s =
     Inr (number + multiplier * of_nat (le_nat bs), advance (length bs) s)"
proof (induction bs arbitrary: s number multiplier)
  case Nil
  then show ?case by (simp add: scale_simps)
next
  case (Cons b bs)
  from Cons.prems have "rest (advance 1 s) = bs @ r" by (simp add: scale_simps)
  from Cons.IH [OF this, of "number + ucast b * multiplier" "push_bit 8 multiplier"] Cons.prems
  show ?case
    by (simp add: scale_simps push_bit_eq_mult unsigned_ucast_eq algebra_simps)
qed

lemma compact_loop_big_eq:
  "rest s = bs @ r \<Longrightarrow>
   compact_loop_big (length bs) v multiplier s =
     Inr (v + multiplier * int (le_nat bs), advance (length bs) s)"
proof (induction bs arbitrary: s v multiplier)
  case Nil
  then show ?case by (simp add: scale_simps)
next
  case (Cons b bs)
  from Cons.prems have "rest (advance 1 s) = bs @ r" by (simp add: scale_simps)
  from Cons.IH [OF this, of "v + uint b * multiplier" "multiplier * 256"] Cons.prems
  show ?case
    by (simp add: scale_simps algebra_simps)
qed

lemma decodeCompact_mode0:
  assumes "k < 2 ^ 6" and "rest s = of_nat (k * 4) # r"
  shows "decodeCompactInteger s = Inr (int k, advance 1 s)"
proof -
  have u: "unat (of_nat (k * 4) :: byte) = k * 4" using assms(1) by (intro unat_of_nat_eq) simp
  have "(of_nat (k * 4) :: byte) AND 3 = 0" unfolding byte_flag u by simp
  moreover have "unat (ucast (drop_bit 2 (of_nat (k * 4) :: byte)) :: u64) = k"
    unfolding unat_byte_u64 unat_drop_bit_eq u by (simp add: drop_bit_eq_div)
  ultimately show ?thesis
    unfolding decodeCompactInteger_def nextByte_Cons [OF assms(2)] uint_nat
    by (simp only: rbind_simps prod.case Let_def if_True simp_thms)
qed

lemma decodeCompact_mode1:
  assumes "k < 2 ^ 14" and "rest s = of_nat (k * 4 + 1) # of_nat ((k * 4 + 1) div 256) # r"
  shows "decodeCompactInteger s = Inr (int k, advance 2 s)"
proof -
  let ?m = "k * 4 + 1"
  let ?fb = "of_nat ?m :: byte" and ?sb = "of_nat (?m div 256) :: byte"
  have m: "?m < 65536" using assms(1) by simp
  have u: "unat ?fb = ?m mod 256" by (rule unat_of_nat_byte)
  have us: "unat ?sb = ?m div 256" using m by (intro unat_of_nat_eq) simp
  have "?m mod 256 mod 4 = 1" using mod_256_4 [of k 1] by simp
  then have flag: "?fb AND 3 = 1" unfolding byte_flag u by simp
  let ?a = "ucast (?fb AND 252) :: u64" and ?b = "ucast ?sb * 256 :: u64"
  have a: "unat ?a = 4 * (?m mod 256 div 4)"
    unfolding unat_byte_u64 unat_and_252 u by (rule refl)
  have "unat (ucast ?sb :: u64) = ?m div 256" unfolding unat_byte_u64 us by (rule refl)
  then have b: "unat ?b = ?m div 256 * 256"
    unfolding unat_word_ariths(2) [of "ucast ?sb"] using m by simp
  have "unat (?a + ?b) = 4 * (?m mod 256 div 4) + ?m div 256 * 256"
    unfolding unat_word_ariths(1) [of ?a ?b] a b using m by simp
  moreover have "(4 * (?m mod 256 div 4) + ?m div 256 * 256) div 4 = k" unfolding split_div_4 by simp
  ultimately have n: "unat (drop_bit 2 (?a + ?b)) = k"
    unfolding unat_drop_bit_eq by (simp add: drop_bit_eq_div)
  have nb: "nextByte (advance 1 s) = Inr (?sb, advance 2 s)"
    using assms(2) nextByte_Cons [of "advance 1 s" ?sb r]
    by (simp add: scale_simps flip: numeral_2_eq_2)
  show ?thesis
    unfolding decodeCompactInteger_def nextByte_Cons [OF assms(2)] uint_nat
    by (simp only: rbind_simps prod.case Let_def flag one_neq_zero if_False refl if_True nb n)
qed

lemma decodeCompact_mode2:
  assumes "k < 2 ^ 30" and "rest s = le_bytes 4 (k * 4 + 2) @ r"
  shows "decodeCompactInteger s = Inr (int k, advance 4 s)"
proof -
  let ?m = "k * 4 + 2"
  let ?fb = "of_nat ?m :: byte" and ?bs = "le_bytes 3 (?m div 256)"
  have r: "rest s = ?fb # ?bs @ r" using assms(2) by (simp add: le_bytes_numeral)
  have m: "le_nat (?fb # ?bs) = ?m"
    using le_nat_small [of ?m 4] assms(1) by (simp add: le_bytes_numeral)
  have u: "unat ?fb = ?m mod 256" by (rule unat_of_nat_byte)
  have "?m mod 256 mod 4 = 2" using mod_256_4 [of k 2] by simp
  then have flag: "?fb AND 3 = 2" unfolding byte_flag u by simp
  have r': "rest (advance 1 s) = ?bs @ r" using r by (simp add: scale_simps)
  have "(ucast ?fb + 256 * of_nat (le_nat ?bs) :: u64) = of_nat (le_nat (?fb # ?bs))"
    by (simp add: unsigned_ucast_eq)
  then have loop: "compact_loop4 3 (ucast ?fb) 256 (advance 1 s) = Inr (of_nat ?m, advance 4 s)"
    unfolding m using compact_loop4_eq [OF r', of "ucast ?fb" 256] by (simp add: scale_simps)
  have more: "hasMore (advance 1 s) 3 \<longleftrightarrow> True" using r' by (simp add: hasMore_rest)
  have "unat (of_nat ?m :: u64) = ?m" using assms(1) by (intro unat_of_nat_eq) simp
  then have n: "unat (drop_bit 2 (of_nat ?m :: u64)) = k"
    unfolding unat_drop_bit_eq by (simp add: drop_bit_eq_div)
  have ne: "(2::byte) = 0 \<longleftrightarrow> False" "(2::byte) = 1 \<longleftrightarrow> False" by simp_all
  show ?thesis
    unfolding decodeCompactInteger_def nextByte_Cons [OF r] uint_nat
    by (simp only: rbind_simps prod.case Let_def flag ne more loop n if_False if_True refl not_True_eq_False)
qed

lemma decodeCompact_mode3:
  assumes "4 \<le> n" and "n \<le> 67" and "k < 256 ^ n"
    and "rest s = of_nat ((n - 4) * 4 + 3) # le_bytes n k @ r"
  shows "decodeCompactInteger s = Inr (int k, advance (Suc n) s)"
proof -
  let ?h = "(n - 4) * 4 + 3"
  have u: "unat (of_nat ?h :: byte) = ?h" using assms(2) by (intro unat_of_nat_eq) simp
  have "?h mod 4 = 3" by simp
  then have flag: "(of_nat ?h :: byte) AND 3 = 3" unfolding byte_flag u by simp
  have n: "unat (drop_bit 2 (of_nat ?h :: byte)) + 4 = n"
    unfolding unat_drop_bit_eq u using assms(1) by (simp add: drop_bit_eq_div)
  have r: "rest (advance 1 s) = le_bytes n k @ r" using assms(4) by (simp add: scale_simps)
  have loop: "compact_loop_big n 0 1 (advance 1 s) = Inr (int k, advance (Suc n) s)"
    using compact_loop_big_eq [OF r, of 0 1] assms(3) by (simp add: le_nat_small scale_simps)
  have "hasMore (advance 1 s) n" using r assms(1) by (simp add: hasMore_rest)
  then have more: "hasMore (advance 1 s) n \<longleftrightarrow> True" by simp
  have ne: "(3::byte) = 0 \<longleftrightarrow> False" "(3::byte) = 1 \<longleftrightarrow> False" "(3::byte) = 2 \<longleftrightarrow> False"
    by simp_all
  show ?thesis
    unfolding decodeCompactInteger_def nextByte_Cons [OF assms(4)]
    by (simp only: rbind_simps prod.case Let_def flag ne n more loop if_False if_True refl not_True_eq_False)
qed

lemma decodeCompactInteger_valid:
  assumes "compact_valid v" and rest: "rest s = compact_bytes v @ r"
  shows "decodeCompactInteger s = Inr (v, advance (length (compact_bytes v)) s)"
proof -
  from assms(1) obtain k where k: "v = int k" and v: "v < 2 ^ 536"
    by (auto simp: compact_valid_def dest: nonneg_int_cases)
  consider "k < 2 ^ 6" | "2 ^ 6 \<le> k" "k < 2 ^ 14" | "2 ^ 14 \<le> k" "k < 2 ^ 30" | "2 ^ 30 \<le> k"
    by linarith
  then show ?thesis
  proof cases
    case 1
    with decodeCompact_mode0 [of k s r] rest k show ?thesis by (simp add: compact_bytes_def)
  next
    case 2
    with decodeCompact_mode1 [of k s r] rest k show ?thesis
      by (simp add: compact_bytes_def le_bytes_numeral flip: numeral_2_eq_2)
  next
    case 3
    with decodeCompact_mode2 [of k s r] rest k show ?thesis by (simp add: compact_bytes_def)
  next
    case 4
    then have "2 ^ 30 \<le> v" using k by simp
    note n = countBytes_range [OF this v]
    have "int k < int (256 ^ countBytes v)"
      using countBytes_bounds(2) [of v] 4 k by simp
    then have "k < 256 ^ countBytes v" by (simp only: of_nat_less_iff)
    moreover have cb: "compact_bytes v = of_nat ((countBytes v - 4) * 4 + 3) # le_bytes (countBytes v) k"
      using 4 k by (simp add: compact_bytes_def)
    then have "length (compact_bytes v) = Suc (countBytes v)" by simp
    ultimately show ?thesis
      using decodeCompact_mode3 [OF n, of k s r] rest unfolding cb append_Cons by (simp only: k)
  qed
qed

section \<open>The contract of an encoder and its decoder\<close>

text \<open>
  What the streams promise for a type: on valid values the encoder appends the wire form of
  the value and the decoder, standing in front of that wire form, returns the value and
  stops right behind it, whatever follows.
\<close>

locale scale_codec =
  fixes enc :: "'a encoder"
    and dec :: "'a decoder"
    and valid :: "'a \<Rightarrow> bool"
    and wire :: "'a \<Rightarrow> bytes"
  assumes enc_wire: "valid x \<Longrightarrow> enc x out = Inr (out @ wire x)"
    and dec_wire: "valid x \<Longrightarrow> rest s = wire x @ r \<Longrightarrow> dec s = Inr (x, advance (length (wire x)) s)"
begin

lemma encode_wire: "valid x \<Longrightarrow> encode enc x = Inr (wire x)"
  by (simp add: encode_def enc_wire)

lemma decode_wire: "valid x \<Longrightarrow> decode dec (wire x @ r) = Inr x"
  using dec_wire [of x "ScaleDecoderStream (wire x @ r)" r]
  by (simp add: decode_def scale_simps)

lemma decode_encode:
  "valid x \<Longrightarrow> \<exists>bs. encode enc x = Inr bs \<and> decode dec (bs @ r) = Inr x"
  by (simp add: encode_wire decode_wire)

lemma wire_prefix_free:
  assumes "valid x" and "valid y" and "wire x @ r = wire y @ r'"
  shows "x = y" and "r = r'"
proof -
  from decode_wire [OF assms(1), of r] decode_wire [OF assms(2), of r'] assms(3)
  show "x = y" by simp
  with assms(3) show "r = r'" by simp
qed

end

lemma codec_byte: "scale_codec encodeByte nextByte (\<lambda>_. True) (\<lambda>b. [b])"
  by unfold_locales (simp_all add: encodeByte_def putByte_def scale_simps)

lemma codec_bool: "scale_codec encodeBool decodeBool (\<lambda>_. True) (\<lambda>b. [if b then 1 else 0])"
  by unfold_locales
    (auto simp: encodeBool_def putByte_def decodeBool_def scale_simps)

lemma codec_optional_bool:
  "scale_codec encodeOptionalBool decodeOptionalBool (\<lambda>_. True)
     (\<lambda>v. [case v of None \<Rightarrow> 0 | Some b \<Rightarrow> if b then 2 else 1])"
  by unfold_locales
    (auto simp: encodeOptionalBool_def putByte_def decodeOptionalBool_def scale_simps split: option.split)

lemma codec_compact: "scale_codec encodeCompactInteger decodeCompactInteger compact_valid compact_bytes"
  by unfold_locales (simp_all add: encodeCompactInteger_valid decodeCompactInteger_valid)

lemma codec_integer:
  assumes "LENGTH('a::len) = 8 * n" and "n \<le> 8"
  shows "scale_codec encodeInteger (decodeInteger is_unsigned) (\<lambda>_ :: 'a word. True) (\<lambda>w. le_bytes n (unat w))"
  using assms by unfold_locales (simp_all add: encodeInteger_eq decodeInteger_eq)

lemma codec_pair:
  assumes "scale_codec ea da va wa" and "scale_codec eb db vb wb"
  shows "scale_codec (encodePair ea eb) (decodePair da db)
    (\<lambda>p. va (fst p) \<and> vb (snd p)) (\<lambda>p. wa (fst p) @ wb (snd p))"
proof unfold_locales
  fix x out assume v: "va (fst x) \<and> vb (snd x)"
  then show "encodePair ea eb x out = Inr (out @ wa (fst x) @ wb (snd x))"
    by (simp add: encodePair_def scale_codec.enc_wire [OF assms(1)] scale_codec.enc_wire [OF assms(2)])
next
  fix x s r assume v: "va (fst x) \<and> vb (snd x)" and s: "rest s = (wa (fst x) @ wb (snd x)) @ r"
  let ?s = "advance (length (wa (fst x))) s"
  have "da s = Inr (fst x, ?s)"
    using v s by (intro scale_codec.dec_wire [OF assms(1)]) auto
  moreover have "db ?s = Inr (snd x, advance (length (wb (snd x))) ?s)"
    using v s by (intro scale_codec.dec_wire [OF assms(2), where r = r]) (auto simp: scale_simps)
  ultimately show "decodePair da db s = Inr (x, advance (length (wa (fst x) @ wb (snd x))) s)"
    by (simp add: decodePair_def scale_simps)
qed

lemma codec_optional:
  assumes "scale_codec ea da va wa"
  shows "scale_codec (encodeOptional ea) (decodeOptional da)
    (case_option True va) (case_option [0] (\<lambda>x. 1 # wa x))"
proof unfold_locales
  fix x out assume "case_option True va x"
  then show "encodeOptional ea x out = Inr (out @ case_option [0] (\<lambda>x. 1 # wa x) x)"
    by (auto simp: encodeOptional_def putByte_def scale_codec.enc_wire [OF assms] split: option.splits)
next
  fix x s r assume v: "case_option True va x" and s: "rest s = case_option [0] (\<lambda>x. 1 # wa x) x @ r"
  show "decodeOptional da s = Inr (x, advance (length (case_option [0] (\<lambda>x. 1 # wa x) x)) s)"
  proof (cases x)
    case None
    with s show ?thesis by (simp add: decodeOptional_def decodeBool_def scale_simps)
  next
    case (Some y)
    have "da (advance 1 s) = Inr (y, advance (length (wa y)) (advance 1 s))"
      using v s Some by (intro scale_codec.dec_wire [OF assms, where r = r]) (auto simp: scale_simps)
    with s Some show ?thesis by (simp add: decodeOptional_def decodeBool_def scale_simps)
  qed
qed

lemma codec_pointer:
  assumes "scale_codec ea da va wa"
  shows "scale_codec (encodePointer ea) (decodePointer da) (case_option False va) (case_option [] wa)"
proof unfold_locales
  fix x out assume "case_option False va x"
  then show "encodePointer ea x out = Inr (out @ case_option [] wa x)"
    by (auto simp: encodePointer_def scale_codec.enc_wire [OF assms] split: option.splits)
next
  fix x s r assume "case_option False va x" and "rest s = case_option [] wa x @ r"
  then show "decodePointer da s = Inr (x, advance (length (case_option [] wa x)) s)"
    by (auto simp: decodePointer_def scale_codec.dec_wire [OF assms] split: option.splits)
qed

lemma encodeItems_wire:
  assumes "scale_codec ea da va wa" and "list_all va xs"
  shows "encodeItems ea xs out = Inr (out @ concat (map wa xs))"
  using assms(2) by (induction xs arbitrary: out) (simp_all add: scale_codec.enc_wire [OF assms(1)])

lemma decodeItems_wire:
  assumes "scale_codec ea da va wa" and "list_all va xs" and "rest s = concat (map wa xs) @ r"
  shows "decodeItems da (length xs) s = Inr (xs, advance (length (concat (map wa xs))) s)"
  using assms(2,3)
proof (induction xs arbitrary: s)
  case Nil
  then show ?case by (simp add: scale_simps)
next
  case (Cons x xs)
  let ?s = "advance (length (wa x)) s"
  have "da s = Inr (x, ?s)"
    using Cons.prems by (intro scale_codec.dec_wire [OF assms(1)]) auto
  moreover have "decodeItems da (length xs) ?s = Inr (xs, advance (length (concat (map wa xs))) ?s)"
    using Cons.prems by (intro Cons.IH) (auto simp: scale_simps)
  ultimately show ?case by (simp add: scale_simps)
qed

lemma codec_items:
  assumes "scale_codec ea da va wa"
  shows "scale_codec (encodeItems ea) (decodeItems da n)
    (\<lambda>xs. length xs = n \<and> list_all va xs) (\<lambda>xs. concat (map wa xs))"
  by unfold_locales (auto simp: encodeItems_wire [OF assms] decodeItems_wire [OF assms])

lemma codec_collection:
  assumes "scale_codec ea da va wa"
  shows "scale_codec (encodeCollection ea) (decodeCollection da)
    (\<lambda>xs. length xs < 2 ^ 64 \<and> list_all va xs)
    (\<lambda>xs. compact_bytes (int (length xs)) @ concat (map wa xs))"
proof -
  have c: "compact_valid (int (length xs))" if "length xs < 2 ^ 64" for xs :: "'a list"
  proof -
    have "(2::int) ^ 64 \<le> 2 ^ 536" by (rule power_increasing) auto
    moreover have "int (length xs) < 2 ^ 64" using that by simp
    ultimately show ?thesis by (simp only: compact_valid_def) linarith
  qed
  show ?thesis
  proof unfold_locales
    fix x out assume "length x < 2 ^ 64 \<and> list_all va x"
    then show "encodeCollection ea x out = Inr (out @ compact_bytes (int (length x)) @ concat (map wa x))"
      by (simp add: encodeCollection_def encodeCompactInteger_valid c encodeItems_wire [OF assms])
  next
    fix x s r
    assume v: "length x < 2 ^ 64 \<and> list_all va x"
      and s: "rest s = (compact_bytes (int (length x)) @ concat (map wa x)) @ r"
    let ?s = "advance (length (compact_bytes (int (length x)))) s"
    have "decodeCompactInteger s = Inr (int (length x), ?s)"
      using v s by (intro decodeCompactInteger_valid) (auto simp: c)
    moreover have "decodeItems da (length x) ?s = Inr (x, advance (length (concat (map wa x))) ?s)"
      using v s by (intro decodeItems_wire [OF assms]) (auto simp: scale_simps)
    moreover have "\<not> int (length x) > 2 ^ 64 - 1" using v by simp
    ultimately show "decodeCollection da s =
        Inr (x, advance (length (compact_bytes (int (length x)) @ concat (map wa x))) s)"
      by (simp only: decodeCollection_def rbind_simps prod.case if_False nat_int)
        (simp add: scale_simps)
  qed
qed

lemma codec_buffer:
  "scale_codec encodeBuffer (decodeBuffer []) (\<lambda>b. length b < 2 ^ 64)
     (\<lambda>b. compact_bytes (int (length b)) @ b)"
proof -
  have "encodeBuffer = encodeCollection encodeByte" and "decodeBuffer [] = decodeCollection nextByte"
    by (simp_all add: fun_eq_iff encodeBuffer_def decodeBuffer_def)
  with codec_collection [OF codec_byte] show ?thesis by (simp add: list_all_iff)
qed

lemma codec_blob: "scale_codec encodeBlob (decodeBlob n) (\<lambda>b. length b = n) (\<lambda>b. b)"
proof -
  have "encodeBlob = encodeItems encodeByte" and "decodeBlob n = decodeItems nextByte n"
    by (simp_all add: fun_eq_iff encodeBlob_def decodeBlob_def)
  with codec_items [OF codec_byte, of n] show ?thesis by (simp add: list_all_iff)
qed

text \<open>
  A family of alternatives with one codec each: variants over it and tuples of it are codecs.
\<close>

definition codecs :: "'u encoder list \<Rightarrow> 'u decoder list \<Rightarrow> ('u \<Rightarrow> bool) list \<Rightarrow> ('u \<Rightarrow> bytes) list \<Rightarrow> bool" where
  "codecs es ds vs ws \<longleftrightarrow>
     length ds = length es \<and> length vs = length es \<and> length ws = length es \<and>
     (\<forall>i < length es. scale_codec (es ! i) (ds ! i) (vs ! i) (ws ! i))"

lemma codecs_Cons:
  "codecs (e # es) (d # ds) (v # vs) (w # ws) \<longleftrightarrow> scale_codec e d v w \<and> codecs es ds vs ws"
  by (auto simp: codecs_def nth_Cons split: nat.splits)

lemma tryEncodeAsOneOfVariant_nth:
  "I \<le> fst v \<Longrightarrow> fst v < I + length es \<Longrightarrow>
   tryEncodeAsOneOfVariant I es v out =
     rbind (encodeByte (of_nat (fst v)) out) ((es ! (fst v - I)) (snd v))"
  by (induction I es v out rule: tryEncodeAsOneOfVariant.induct) (auto simp: nth_Cons' not_less_eq_eq)

lemma tryDecodeAsOneOfVariant_nth:
  "I \<le> i \<Longrightarrow> i < I + length ds \<Longrightarrow>
   tryDecodeAsOneOfVariant I ds i v s = rbind ((ds ! (i - I)) s) (\<lambda>(val, s). Inr ((i, val), s))"
  by (induction I ds i v s rule: tryDecodeAsOneOfVariant.induct) (auto simp: nth_Cons' not_less_eq_eq)

lemma codec_variant:
  assumes "codecs es ds vs ws" and "length es \<le> 256"
  shows "scale_codec (encodeVariant es) (decodeVariant ds v0)
    (\<lambda>v. fst v < length es \<and> (vs ! fst v) (snd v)) (\<lambda>v. of_nat (fst v) # (ws ! fst v) (snd v))"
proof unfold_locales
  fix x out assume v: "fst x < length es \<and> (vs ! fst x) (snd x)"
  then have "scale_codec (es ! fst x) (ds ! fst x) (vs ! fst x) (ws ! fst x)"
    using assms(1) by (auto simp: codecs_def)
  from scale_codec.enc_wire [OF this] v
  show "encodeVariant es x out = Inr (out @ of_nat (fst x) # (ws ! fst x) (snd x))"
    by (simp add: encodeVariant_def tryEncodeAsOneOfVariant_nth encodeByte_def putByte_def)
next
  fix x s r assume v: "fst x < length es \<and> (vs ! fst x) (snd x)"
    and s: "rest s = (of_nat (fst x) # (ws ! fst x) (snd x)) @ r"
  then have "scale_codec (es ! fst x) (ds ! fst x) (vs ! fst x) (ws ! fst x)"
    using assms(1) by (auto simp: codecs_def)
  from scale_codec.dec_wire [OF this, of "snd x" "advance 1 s" r] v s
  have d: "(ds ! fst x) (advance 1 s) = Inr (snd x, advance (Suc (length ((ws ! fst x) (snd x)))) s)"
    by (simp add: scale_simps)
  have "unat (of_nat (fst x) :: byte) = fst x" using v assms(2) by (intro unat_of_nat_eq) simp
  then show "decodeVariant ds v0 s = Inr (x, advance (length (of_nat (fst x) # (ws ! fst x) (snd x))) s)"
    using s d v assms(1)
    by (simp add: decodeVariant_def scale_simps tryDecodeAsOneOfVariant_nth codecs_def)
qed

lemma codec_tuple:
  assumes "codecs es ds vs ws"
  shows "scale_codec (encodeElementOfTuple es) (decodeElementOfTuple ds)
    (\<lambda>xs. list_all2 (\<lambda>v x. v x) vs xs) (\<lambda>xs. concat (map2 (\<lambda>w x. w x) ws xs))"
proof unfold_locales
  fix xs out assume "list_all2 (\<lambda>v x. v x) vs xs"
  then show "encodeElementOfTuple es xs out = Inr (out @ concat (map2 (\<lambda>w x. w x) ws xs))"
    using assms
  proof (induction vs xs arbitrary: es ds ws out rule: list_all2_induct)
    case Nil
    then show ?case by (cases es) (auto simp: codecs_def)
  next
    case (Cons v vs x xs)
    then obtain e es' d ds' w ws' where "es = e # es'" "ds = d # ds'" "ws = w # ws'"
      by (cases es; cases ds; cases ws) (auto simp: codecs_def)
    with Cons show ?case by (auto simp: codecs_Cons scale_codec.enc_wire)
  qed
next
  fix xs s r assume "list_all2 (\<lambda>v x. v x) vs xs" and "rest s = concat (map2 (\<lambda>w x. w x) ws xs) @ r"
  then show "decodeElementOfTuple ds s = Inr (xs, advance (length (concat (map2 (\<lambda>w x. w x) ws xs))) s)"
    using assms
  proof (induction vs xs arbitrary: es ds ws s rule: list_all2_induct)
    case Nil
    then show ?case by (cases ds) (auto simp: codecs_def scale_simps)
  next
    case (Cons v vs x xs)
    then obtain e es' d ds' w ws' where c: "es = e # es'" "ds = d # ds'" "ws = w # ws'"
      by (cases es; cases ds; cases ws) (auto simp: codecs_def)
    then have edvw: "scale_codec e d v w" using Cons.prems by (simp add: codecs_Cons)
    have "d s = Inr (x, advance (length (w x)) s)"
      using Cons.prems Cons.hyps c by (intro scale_codec.dec_wire [OF edvw]) auto
    moreover have "decodeElementOfTuple ds' (advance (length (w x)) s) =
        Inr (xs, advance (length (concat (map2 (\<lambda>w x. w x) ws' xs))) (advance (length (w x)) s))"
      using Cons.prems c by (intro Cons.IH) (auto simp: codecs_Cons scale_simps)
    ultimately show ?case using c by (simp add: scale_simps)
  qed
qed

interpretation compact: scale_codec encodeCompactInteger decodeCompactInteger compact_valid compact_bytes
  by (rule codec_compact)

interpretation buffer: scale_codec encodeBuffer "decodeBuffer []" "\<lambda>b. length b < 2 ^ 64"
  "\<lambda>b. compact_bytes (int (length b)) @ b"
  by (rule codec_buffer)

interpretation blob: scale_codec encodeBlob "decodeBlob n" "\<lambda>b. length b = n" "\<lambda>b. b" for n
  by (rule codec_blob)

section \<open>Decoders stay inside the span\<close>

definition reads :: "nat \<Rightarrow> decoder_stream \<Rightarrow> decoder_stream \<Rightarrow> bool" where
  "reads n s s' \<longleftrightarrow>
     span s' = span s \<and> current_index s' = current_index s + n \<and>
     (0 < n \<longrightarrow> current_index s' \<le> length (span s))"

lemma reads_refl: "reads 0 s s"
  by (simp add: reads_def)

lemma reads_trans: "reads m s s' \<Longrightarrow> reads n s' s'' \<Longrightarrow> reads (m + n) s s''"
  by (auto simp: reads_def)

lemma nextByte_reads: "nextByte s = Inr (b, s') \<Longrightarrow> reads 1 s s'"
  by (auto simp: nextByte_def hasMore_def reads_def split: if_splits)

lemma compact_loop4_reads: "compact_loop4 n number m s = Inr (v, s') \<Longrightarrow> reads n s s'"
proof (induction n number m s rule: compact_loop4.induct)
  case (1 number m s)
  then show ?case by (simp add: reads_def)
next
  case (2 n number m s)
  then obtain b s1 where "nextByte s = Inr (b, s1)"
    and "compact_loop4 n (number + ucast b * m) (push_bit 8 m) s1 = Inr (v, s')" by auto
  with 2(1) show ?case using nextByte_reads reads_trans [of 1 s s1 n s'] by auto
qed

lemma compact_loop_big_reads:
  "compact_loop_big n a m s = Inr (v, s') \<Longrightarrow> 0 \<le> a \<Longrightarrow> 0 \<le> m \<Longrightarrow> reads n s s' \<and> 0 \<le> v"
proof (induction n a m s rule: compact_loop_big.induct)
  case (1 a m s)
  then show ?case by (simp add: reads_def)
next
  case (2 n a m s)
  then obtain b s1 where b: "nextByte s = Inr (b, s1)"
    and "compact_loop_big n (a + uint b * m) (m * 256) s1 = Inr (v, s')" by auto
  with 2 have "reads n s1 s' \<and> 0 \<le> v" by simp
  with nextByte_reads [OF b] show ?case using reads_trans [of 1 s s1 n s'] by auto
qed

lemma decodeItems_nextByte_reads:
  "decodeItems nextByte n s = Inr (bs, s') \<Longrightarrow> length bs = n \<and> reads n s s'"
proof (induction n arbitrary: s bs)
  case 0
  then show ?case by (simp add: reads_def)
next
  case (Suc n)
  then obtain b s1 bs1 where b: "nextByte s = Inr (b, s1)"
    and "decodeItems nextByte n s1 = Inr (bs1, s')" and "bs = b # bs1" by auto
  with Suc.IH nextByte_reads [OF b] show ?case using reads_trans [of 1 s s1 n s'] by auto
qed

lemma decodeItems_nextByte_bytes:
  "decodeItems nextByte n s = Inr (bs, s') \<Longrightarrow> bs = take n (drop (current_index s) (span s))"
proof (induction n arbitrary: s bs)
  case (Suc n)
  then obtain b s1 bs1 where b: "nextByte s = Inr (b, s1)"
    and i: "decodeItems nextByte n s1 = Inr (bs1, s')" and "bs = b # bs1" by auto
  then show ?case using Suc.IH [OF i]
    by (auto simp: nextByte_def hasMore_def Cons_nth_drop_Suc [symmetric] split: if_splits)
qed simp

lemma decodeCompactInteger_reads:
  assumes "decodeCompactInteger s = Inr (v, s')"
  shows "\<exists>n > 0. reads n s s'" and "0 \<le> v"
proof -
  from assms obtain b s1 where b: "nextByte s = Inr (b, s1)"
    by (auto simp: decodeCompactInteger_def)
  have r: "\<exists>n > 0. reads n s s'" if "reads m s1 s'" for m
    using reads_trans [OF nextByte_reads [OF b] that] by (intro exI [of _ "1 + m"]) simp
  have "0 \<le> v \<and> (\<exists>n > 0. reads n s s')"
    using assms b
    by (auto simp: decodeCompactInteger_def Let_def split: if_splits
      dest: nextByte_reads compact_loop4_reads compact_loop_big_reads intro: r reads_refl)
  then show "\<exists>n > 0. reads n s s'" and "0 \<le> v" by auto
qed

section \<open>Properties\<close>

text \<open>
  C31. Every compact integer below \<open>2 ^ 536\<close> is encoded, and wherever its bytes stand in a decoder stream, whatever follows
  them, decoding at that place returns the integer and moves the stream right behind the bytes.
\<close>

theorem compact_roundtrip:
  assumes "0 \<le> v" and "v < 2 ^ 536"
  shows "\<exists>bs. encode encodeCompactInteger v = Inr bs \<and>
    (\<forall>s tail. drop (current_index s) (span s) = bs @ tail \<longrightarrow>
       decodeCompactInteger s = Inr (v, s\<lparr>current_index := current_index s + length bs\<rparr>))"
proof -
  have v: "compact_valid v" using assms by (simp only: compact_valid_def)
  show ?thesis
    using compact.encode_wire [OF v] compact.dec_wire [OF v] unfolding rest_def advance_def by blast
qed

theorem compact_roundtrip_witness:
  "(0::int) \<le> 1073741829 \<and> (1073741829::int) < 2 ^ 536 \<and>
   (\<exists>bs. encode encodeCompactInteger 1073741829 = Inr bs \<and>
     decodeCompactInteger \<lparr>span = [9] @ bs @ [7], current_index = 1\<rparr> =
       Inr (1073741829, \<lparr>span = [9] @ bs @ [7], current_index = 1 + length bs\<rparr>))"
proof -
  have b: "(0::int) \<le> 1073741829" "(1073741829::int) < 2 ^ 536" by simp_all
  obtain bs where bs: "encode encodeCompactInteger 1073741829 = Inr bs"
    "\<forall>s tail. drop (current_index s) (span s) = bs @ tail \<longrightarrow>
       decodeCompactInteger s = Inr (1073741829, s\<lparr>current_index := current_index s + length bs\<rparr>)"
    using compact_roundtrip [OF b] by blast
  show ?thesis using b bs(1) bs(2) [rule_format, of "\<lparr>span = [9] @ bs @ [7], current_index = 1\<rparr>" "[7]"] by simp
qed

text \<open>
  The outcome of encoding a compact integer is determined on every input: negative values
  and values of more than 67 bytes are refused with the two error codes, every other value is
  written in the wire format of its mode.
\<close>

lemma compact_encode_outcome:
  "encode encodeCompactInteger v =
     (if v < 0 then Inl NEGATIVE_COMPACT_INTEGER
      else if 2 ^ 536 \<le> v then Inl COMPACT_INTEGER_TOO_BIG
      else Inr (compact_bytes v))"
proof -
  have "encode encodeCompactInteger v = Inl COMPACT_INTEGER_TOO_BIG" if "2 ^ 536 \<le> v"
  proof -
    have "(2::int) ^ 30 \<le> 2 ^ 536" by (rule power_increasing) auto
    with that have "2 ^ 30 \<le> v" by (rule order_trans [rotated])
    with countBytes_too_big [OF that] show ?thesis
      by (simp add: encode_def encodeCompactInteger_def kMinUint16_def kMinUint32_def kMinBigInteger_def Let_def)
  qed
  moreover have "encode encodeCompactInteger v = Inl NEGATIVE_COMPACT_INTEGER" if "v < 0"
    using that by (simp add: encode_def encodeCompactInteger_def)
  moreover have "encode encodeCompactInteger v = Inr (compact_bytes v)" if "0 \<le> v" "v < 2 ^ 536"
    using that by (intro compact.encode_wire) (simp only: compact_valid_def)
  ultimately show ?thesis by (simp only: not_le not_less split: if_split) blast
qed

text \<open>
  C32. A collection of fewer than \<open>2 ^ 64\<close> words of 64 bits is encoded as its length in compact form followed by the eight
  little-endian bytes of every word, and wherever these bytes stand in a decoder stream, decoding at that place returns
  the words in order and moves the stream right behind the bytes.
\<close>

theorem collection_roundtrip:
  fixes xs :: "u64 list"
  assumes "length xs < 2 ^ 64"
  shows "\<exists>prefix_bytes. encode encodeCompactInteger (int (length xs)) = Inr prefix_bytes \<and>
    encode (encodeCollection encodeInteger) xs = Inr (prefix_bytes @ concat (map (\<lambda>x. le_bytes 8 (unat x)) xs)) \<and>
    (\<forall>s tail. drop (current_index s) (span s) = prefix_bytes @ concat (map (\<lambda>x. le_bytes 8 (unat x)) xs) @ tail \<longrightarrow>
       decodeCollection (decodeInteger is_unsigned) s =
         Inr (xs, s\<lparr>current_index := current_index s + length prefix_bytes + 8 * length xs\<rparr>))"
proof -
  have "(2::int) ^ 64 \<le> 2 ^ 536" by (rule power_increasing) auto
  moreover have "int (length xs) < 2 ^ 64" using assms by simp
  ultimately have c: "compact_valid (int (length xs))" by (simp only: compact_valid_def) linarith
  have i: "scale_codec encodeInteger (decodeInteger is_unsigned) (\<lambda>_ :: u64. True) (\<lambda>w. le_bytes 8 (unat w))"
    by (rule codec_integer) simp_all
  note coll = codec_collection [OF i]
  have v: "length xs < 2 ^ 64 \<and> list_all (\<lambda>_. True) xs" using assms by (simp add: list_all_def)
  have l: "length (concat (map (\<lambda>x. le_bytes 8 (unat x)) xs)) = 8 * length xs" by (induction xs) simp_all
  show ?thesis
    using compact.encode_wire [OF c] scale_codec.encode_wire [OF coll v] scale_codec.dec_wire [OF coll v] l
    unfolding rest_def advance_def by (intro exI [of _ "compact_bytes (int (length xs))"]) (simp add: add.assoc)
qed

theorem collection_roundtrip_witness:
  "decodeCollection (decodeInteger True) \<lparr>span = [5, 8, 1, 0, 0, 0, 0, 0, 0, 0, 0, 2, 0, 0, 0, 0, 0, 0, 9], current_index = 1\<rparr> =
     Inr ([1 :: u64, 512], \<lparr>span = [5, 8, 1, 0, 0, 0, 0, 0, 0, 0, 0, 2, 0, 0, 0, 0, 0, 0, 9], current_index = 18\<rparr>)"
proof -
  have e: "encode encodeCompactInteger (int (length [1 :: u64, 512])) = Inr [8]" by code_simp
  have w: "concat (map (\<lambda>x. le_bytes 8 (unat x)) [1 :: u64, 512]) = [1, 0, 0, 0, 0, 0, 0, 0, 0, 2, 0, 0, 0, 0, 0, 0]" by code_simp
  have "length [1 :: u64, 512] < 2 ^ 64" by simp
  from collection_roundtrip [OF this, of True, unfolded w] e
  have "\<forall>s tail. drop (current_index s) (span s) = [8] @ [1, 0, 0, 0, 0, 0, 0, 0, 0, 2, 0, 0, 0, 0, 0, 0] @ tail \<longrightarrow>
      decodeCollection (decodeInteger True) s = Inr ([1 :: u64, 512], s\<lparr>current_index := current_index s + length [8 :: byte] + 8 * length [1 :: u64, 512]\<rparr>)"
    by auto
  from this [rule_format, of "\<lparr>span = [5, 8, 1, 0, 0, 0, 0, 0, 0, 0, 0, 2, 0, 0, 0, 0, 0, 0, 9], current_index = 1\<rparr>" "[9]"]
  show ?thesis by simp
qed

text \<open>
  The fixed-width integers of two, four and eight bytes round trip, read as signed or as
  unsigned types.
\<close>

lemma integer_roundtrip:
  "(\<exists>bs. encode encodeInteger (v :: u16) = Inr bs \<and> decode (decodeInteger is_unsigned) (bs @ tail) = Inr v) \<and>
   (\<exists>bs. encode encodeInteger (w :: u32) = Inr bs \<and> decode (decodeInteger is_unsigned) (bs @ tail) = Inr w) \<and>
   (\<exists>bs. encode encodeInteger (x :: u64) = Inr bs \<and> decode (decodeInteger is_unsigned) (bs @ tail) = Inr x)"
  using scale_codec.decode_encode [OF codec_integer [where 'a = 16 and n = 2], of v is_unsigned tail]
    scale_codec.decode_encode [OF codec_integer [where 'a = 32 and n = 4], of w is_unsigned tail]
    scale_codec.decode_encode [OF codec_integer [where 'a = 64 and n = 8], of x is_unsigned tail]
  by simp

text \<open>
  C33. What decoding a \<^verbatim>\<open>Buffer\<close> reads. If it succeeds, then the length \<open>n\<close> that stands at the place of the stream was
  read from at least one byte, the next \<open>n\<close> bytes are all inside the span, exactly these are appended to the buffer, and the
  stream stands right behind them; so an input that claims more bytes than it holds is refused.
\<close>

theorem decodeBuffer_bounded:
  assumes "decodeBuffer buffer s = Inr (b, s')"
  shows "\<exists>k n. 0 < k \<and> decodeCompactInteger s = Inr (int n, s\<lparr>current_index := current_index s + k\<rparr>) \<and>
    current_index s + k + n \<le> length (span s) \<and> b = buffer @ take n (drop (current_index s + k) (span s)) \<and>
    s' = s\<lparr>current_index := current_index s + k + n\<rparr>"
proof -
  from assms obtain n s1 bs where n: "decodeCompactInteger s = Inr (n, s1)"
    and i: "decodeItems nextByte (nat n) s1 = Inr (bs, s')" and b: "b = buffer @ bs"
    by (auto simp: decodeBuffer_def decodeCollection_def split: if_splits)
  from decodeCompactInteger_reads [OF n] obtain k where k: "0 < k" "reads k s s1" "0 \<le> n" by blast
  have r: "length bs = nat n" "reads (nat n) s1 s'" "bs = take (nat n) (drop (current_index s1) (span s1))"
    using decodeItems_nextByte_reads [OF i] decodeItems_nextByte_bytes [OF i] by auto
  have e: "s1 = s\<lparr>current_index := current_index s + k\<rparr>" "s' = s\<lparr>current_index := current_index s + k + nat n\<rparr>"
    using k(2) r(2) by (auto simp: reads_def)
  moreover have "current_index s + k + nat n \<le> length (span s)"
    using k(1,2) r(2) by (cases "nat n = 0") (auto simp: reads_def)
  ultimately show ?thesis using n b k(1,3) r(3) by (intro exI [of _ k] exI [of _ "nat n"]) simp
qed

theorem decodeBuffer_bounded_witness:
  "decodeBuffer [9] (ScaleDecoderStream [8, 1, 2, 3]) =
     Inr ([9, 1, 2], \<lparr>span = [8, 1, 2, 3], current_index = 3\<rparr>) \<and>
   (\<exists>k n. k + n \<le> (4 :: nat) \<and> [9, 1, 2] = [9] @ take n (drop k [8, 1, 2, 3 :: byte]))"
proof -
  have d: "decodeBuffer [9] (ScaleDecoderStream [8, 1, 2, 3]) =
     Inr ([9, 1, 2], \<lparr>span = [8, 1, 2, 3], current_index = 3\<rparr>)" by code_simp
  have s: "span (ScaleDecoderStream [8, 1, 2, 3]) = [8, 1, 2, 3]" "current_index (ScaleDecoderStream [8, 1, 2, 3]) = 0"
    by (simp_all add: ScaleDecoderStream_def)
  from decodeBuffer_bounded [OF d] obtain k n where
    "0 + k + n \<le> length [8, 1, 2, 3 :: byte]" "[9, 1, 2] = [9] @ take n (drop (0 + k) [8, 1, 2, 3 :: byte])"
    unfolding s by blast
  with d show ?thesis by (intro conjI exI [of _ k] exI [of _ n]) simp_all
qed

text \<open>
  \<^verbatim>\<open>std::array\<close> does not round trip: the encoder writes a length prefix that the decoder of
  an array does not expect, so a byte array of fewer than 64 items comes back as its
  encoded length followed by all items but the last.
\<close>

lemma array_decode_shifted:
  assumes "0 < length a" and "length a < 64"
  shows "\<exists>bs. encode (encodeArray encodeByte) a = Inr bs \<and>
    decode (decodeArray nextByte (length a)) bs = Inr (of_nat (length a * 4) # butlast a)"
proof -
  have c: "compact_bytes (int (length a)) = [of_nat (length a * 4)]"
    using assms(2) by (simp add: compact_bytes_def)
  have "(2::int) ^ 6 \<le> 2 ^ 536" by (rule power_increasing) auto
  moreover have "int (length a) < 2 ^ 6" using assms(2) by simp
  ultimately have "int (length a) < 2 ^ 536" by (rule less_le_trans [rotated])
  then have v: "compact_valid (int (length a))" by (simp only: compact_valid_def) simp
  let ?bs = "(of_nat (length a * 4) :: byte) # a"
  have "list_all (\<lambda>_. True) a" by (simp add: list_all_iff)
  then have e: "encode (encodeArray encodeByte) a = Inr ?bs"
    using encodeItems_wire [OF codec_byte, of a "[of_nat (length a * 4)]"]
      encodeCompactInteger_valid [OF v, of "[]"]
    by (simp add: encode_def encodeArray_def encodeCollection_def c)
  have l: "(of_nat (length a * 4) # butlast a) @ [last a] = ?bs" using assms(1) by auto
  have "decode (decodeBlob (length a)) ((of_nat (length a * 4) # butlast a) @ [last a]) =
      Inr (of_nat (length a * 4) # butlast a)"
    using assms(1) by (intro blob.decode_wire) simp
  then have "decode (decodeArray nextByte (length a)) ?bs = Inr (of_nat (length a * 4) # butlast a)"
    unfolding l by (simp only: decodeArray_def decodeBlob_def decode_def)
  with e show ?thesis by blast
qed

end
