(* ===== verification/Scaled_Integer.thy ===== *)
theory Scaled_Integer
  imports Prelude
begin

text \<open>
  Fixed-point amounts: \<^verbatim>\<open>src/base/ScaledInteger.cpp\<close> and the token amounts built on it in
  \<^verbatim>\<open>src/account/TokenAmount.cpp\<close>. Raw values and precisions are 64-bit words; the 128-bit
  intermediates are naturals, which no product of two 64-bit values leaves. A division by
  zero, which stops the program or throws, is the outcome \<open>division_by_zero\<close>. The functions
  of the C++ library the code calls (\<^verbatim>\<open>std::from_chars\<close>, \<^verbatim>\<open>std::to_string\<close>, the searches in
  strings) are modelled on character lists.
\<close>

section \<open>Strings of the C++ library\<close>

definition is_digit :: "char \<Rightarrow> bool" where
  "is_digit c \<longleftrightarrow> 48 \<le> (of_char c :: nat) \<and> (of_char c :: nat) \<le> 57"

definition digit_char :: "nat \<Rightarrow> char" where
  "digit_char d = char_of (48 + d)"

definition digits_value :: "string \<Rightarrow> nat" where
  "digits_value s = foldl (\<lambda>a c. a * 10 + (of_char c - 48)) 0 s"

text \<open>\<^verbatim>\<open>std::to_string\<close> of an unsigned value.\<close>

fun to_string :: "nat \<Rightarrow> string" where
  "to_string n = (if n < 10 then [digit_char n] else to_string (n div 10) @ [digit_char (n mod 10)])"

declare to_string.simps [simp del]

datatype errc = invalid_argument | value_too_large | result_out_of_range | division_by_zero

text \<open>
  \<^verbatim>\<open>std::from_chars\<close> into a \<^verbatim>\<open>uint64_t\<close>: the error code, the number of characters matched and
  the value, which stays at its initial zero on an error.
\<close>

definition from_chars :: "string \<Rightarrow> errc option \<times> nat \<times> u64" where
  "from_chars s =
     (let ds = takeWhile is_digit s; v = digits_value ds in
      if ds = [] then (Some invalid_argument, 0, 0)
      else if v \<ge> 2 ^ 64 then (Some result_out_of_range, length ds, 0)
      else (None, length ds, of_nat v))"

fun find_char :: "char \<Rightarrow> string \<Rightarrow> nat option" where
  "find_char c [] = None"
| "find_char c (x # xs) = (if x = c then Some 0 else map_option Suc (find_char c xs))"

section \<open>Static operations on raw values\<close>

datatype ParseMode = Strict | Truncate

fun ScaleFactor_loop :: "nat \<Rightarrow> u64 \<Rightarrow> u64" where
  "ScaleFactor_loop 0 result = result"
| "ScaleFactor_loop (Suc n) result = ScaleFactor_loop n (result * 10)"

definition ScaleFactor :: "u64 \<Rightarrow> u64" where
  "ScaleFactor precision = ScaleFactor_loop (unat precision) 1"

definition parse_part :: "string \<Rightarrow> errc + u64" where
  "parse_part s =
     (case from_chars s of (ec, ptr, v) \<Rightarrow>
        if ec \<noteq> None \<or> ptr \<noteq> length s then Inl invalid_argument else Inr v)"

definition FromString :: "string \<Rightarrow> u64 \<Rightarrow> ParseMode \<Rightarrow> errc + u64" where
  "FromString str_value precision mode =
     (if str_value = [] then Inl invalid_argument
      else
        let (integer_str, fractional_str) =
              (case find_char (CHR ''.'') str_value of
                 Some dot_pos \<Rightarrow> (take dot_pos str_value, drop (dot_pos + 1) str_value)
               | None \<Rightarrow> (str_value, []))
        in rbind (parse_part integer_str) (\<lambda>integer_part.
           rbind
             (if fractional_str \<noteq> [] then
                rbind
                  (if length fractional_str > unat precision then
                     (if mode = Strict then Inl value_too_large
                      else Inr (take (unat precision) fractional_str))
                   else Inr fractional_str)
                  (\<lambda>fractional_str. rmap (\<lambda>v. (fractional_str, v)) (parse_part fractional_str))
              else Inr (fractional_str, 0))
             (\<lambda>(fractional_str, fractional_part).
               Inr (integer_part * ScaleFactor precision +
                 ScaleFactor_loop (unat precision - length fractional_str) fractional_part))))"

text \<open>\<^verbatim>\<open>ToString(value, precision)\<close>; the two divisions by the scale factor come first.\<close>

definition ToString :: "u64 \<Rightarrow> u64 \<Rightarrow> errc + string" where
  "ToString v precision =
     (if ScaleFactor precision = 0 then Inl division_by_zero
      else
        let integer_part = v div ScaleFactor precision;
            fractional_part = v mod ScaleFactor precision
        in if precision = 0 then Inr (to_string (unat integer_part))
           else
             let fractional_str = to_string (unat fractional_part);
                 fractional_str =
                   (if length fractional_str < unat precision
                    then replicate (unat precision - length fractional_str) (CHR ''0'') @ fractional_str
                    else fractional_str)
             in Inr (to_string (unat integer_part) @ CHR ''.'' # fractional_str))"

definition Multiply :: "u64 \<Rightarrow> u64 \<Rightarrow> u64 \<Rightarrow> errc + u64" where
  "Multiply a b precision =
     (if ScaleFactor precision = 0 then Inl division_by_zero
      else
        let result = unat a * unat b div unat (ScaleFactor precision)
        in if result > 2 ^ 64 - 1 then Inl value_too_large else Inr (of_nat result))"

definition Divide :: "u64 \<Rightarrow> u64 \<Rightarrow> u64 \<Rightarrow> errc + u64" where
  "Divide a b precision =
     (if b = 0 then Inl result_out_of_range
      else
        let result = unat a * unat (ScaleFactor precision) div unat b
        in if result > 2 ^ 64 - 1 then Inl value_too_large else Inr (of_nat result))"

definition ConvertPrecision :: "u64 \<Rightarrow> u64 \<Rightarrow> u64 \<Rightarrow> errc + u64" where
  "ConvertPrecision v from to =
     (if from = to then Inr v
      else if to > from then
        let delta = to - from; result = unat v * unat (ScaleFactor delta)
        in if result > 2 ^ 64 - 1 then Inl value_too_large else Inr (of_nat result)
      else
        let delta = from - to
        in if ScaleFactor delta = 0 then Inl division_by_zero else Inr (v div ScaleFactor delta))"

section \<open>The class\<close>

record ScaledInteger =
  si_value :: u64
  si_precision :: u64

definition mk_ScaledInteger :: "u64 \<Rightarrow> u64 \<Rightarrow> ScaledInteger" where
  "mk_ScaledInteger v p = \<lparr>si_value = v, si_precision = p\<rparr>"

definition New_raw :: "u64 \<Rightarrow> u64 \<Rightarrow> errc + ScaledInteger" where
  "New_raw raw_value precision = Inr (mk_ScaledInteger raw_value precision)"

definition New_str :: "string \<Rightarrow> u64 \<Rightarrow> ParseMode \<Rightarrow> errc + ScaledInteger" where
  "New_str str_value precision mode =
     rbind (FromString str_value precision mode) (\<lambda>v. Inr (mk_ScaledInteger v precision))"

definition New_infer :: "string \<Rightarrow> errc + ScaledInteger" where
  "New_infer str_value =
     (let precision_calc =
            (case find_char (CHR ''.'') str_value of
               None \<Rightarrow> 0
             | Some dot_pos \<Rightarrow> of_nat (length str_value) - of_nat dot_pos - 1)
      in rbind (FromString str_value precision_calc Strict)
           (\<lambda>raw_value. Inr (mk_ScaledInteger raw_value precision_calc)))"

text \<open>\<^verbatim>\<open>find_last_not_of('0')\<close> and the erase behind it drop the trailing zeros.\<close>

definition erase_trailing_zeros :: "string \<Rightarrow> string" where
  "erase_trailing_zeros s =
     (if \<exists>c \<in> set s. c \<noteq> CHR ''0'' then rev (dropWhile (\<lambda>c. c = CHR ''0'') (rev s)) else s)"

definition ToString_member :: "ScaledInteger \<Rightarrow> bool \<Rightarrow> errc + string" where
  "ToString_member si fixedDecimals =
     rbind (ToString (si_value si) (si_precision si)) (\<lambda>s.
       Inr (if \<not> fixedDecimals \<and> find_char (CHR ''.'') s \<noteq> None
            then let s = erase_trailing_zeros s
                 in if s \<noteq> [] \<and> last s = CHR ''.'' then butlast s else s
            else s))"

definition Add :: "ScaledInteger \<Rightarrow> ScaledInteger \<Rightarrow> errc + ScaledInteger" where
  "Add x y =
     (if si_precision x \<noteq> si_precision y then Inl invalid_argument
      else
        let sum = unat (si_value x) + unat (si_value y)
        in if sum > 2 ^ 64 - 1 then Inl value_too_large
           else Inr (mk_ScaledInteger (of_nat sum) (si_precision x)))"

definition Subtract :: "ScaledInteger \<Rightarrow> ScaledInteger \<Rightarrow> errc + ScaledInteger" where
  "Subtract x y =
     (if si_precision x \<noteq> si_precision y then Inl invalid_argument
      else if si_value y > si_value x then Inl result_out_of_range
      else Inr (mk_ScaledInteger (si_value x - si_value y) (si_precision x)))"

definition Multiply_member :: "ScaledInteger \<Rightarrow> ScaledInteger \<Rightarrow> errc + ScaledInteger" where
  "Multiply_member x y =
     (if si_precision x \<noteq> si_precision y then Inl invalid_argument
      else rbind (Multiply (si_value x) (si_value y) (si_precision x))
             (\<lambda>r. Inr (mk_ScaledInteger r (si_precision x))))"

definition Divide_member :: "ScaledInteger \<Rightarrow> ScaledInteger \<Rightarrow> errc + ScaledInteger" where
  "Divide_member x y =
     (if si_precision x \<noteq> si_precision y then Inl invalid_argument
      else rbind (Divide (si_value x) (si_value y) (si_precision x))
             (\<lambda>r. Inr (mk_ScaledInteger r (si_precision x))))"

definition ConvertPrecision_member :: "ScaledInteger \<Rightarrow> u64 \<Rightarrow> errc + ScaledInteger" where
  "ConvertPrecision_member x to =
     rbind (ConvertPrecision (si_value x) (si_precision x) to) (\<lambda>r. Inr (mk_ScaledInteger r to))"

section \<open>Token amounts\<close>

definition PRECISION :: u64 where "PRECISION = 6"
definition PRICE_PER_FLOP :: nat where "PRICE_PER_FLOP = 500"
definition PRICE_PER_FLOP_FRACTIONAL_DIGITS :: u64 where "PRICE_PER_FLOP_FRACTIONAL_DIGITS = 15"
definition FLOPS_PER_BYTE :: nat where "FLOPS_PER_BYTE = 20"
definition MIN_MINION_UNITS :: u64 where "MIN_MINION_UNITS = 1"

record TokenAmount =
  minions :: u64

definition TokenAmount_New :: "u64 \<Rightarrow> errc + TokenAmount" where
  "TokenAmount_New raw_minions = Inr \<lparr>minions = raw_minions\<rparr>"

definition TokenAmount_New_str :: "string \<Rightarrow> errc + TokenAmount" where
  "TokenAmount_New_str str =
     rbind (FromString str PRECISION Strict) (\<lambda>v. Inr \<lparr>minions = v\<rparr>)"

definition TokenAmount_Multiply :: "TokenAmount \<Rightarrow> TokenAmount \<Rightarrow> errc + TokenAmount" where
  "TokenAmount_Multiply self other =
     rbind (Multiply (minions self) (minions other) PRECISION) (\<lambda>v. Inr \<lparr>minions = v\<rparr>)"

definition TokenAmount_Divide :: "TokenAmount \<Rightarrow> TokenAmount \<Rightarrow> errc + TokenAmount" where
  "TokenAmount_Divide self other =
     rbind (Divide (minions self) (minions other) PRECISION) (\<lambda>v. Inr \<lparr>minions = v\<rparr>)"

definition ParseMinions :: "string \<Rightarrow> errc + u64" where
  "ParseMinions str = FromString str PRECISION Strict"

definition FormatMinions :: "u64 \<Rightarrow> errc + string" where
  "FormatMinions v = ToString v PRECISION"

text \<open>
  The cost loop tries the precisions from 15 down to 6. The price is a floating-point
  number; its conversion at a precision (\<^verbatim>\<open>ScaledInteger::New\<close> of a \<^verbatim>\<open>double\<close>) is the argument
  \<open>price_at\<close>.
\<close>

fun cost_loop :: "nat \<Rightarrow> u64 \<Rightarrow> nat \<Rightarrow> nat \<Rightarrow> (u64 \<Rightarrow> errc + u64) \<Rightarrow> ScaledInteger option" where
  "cost_loop 0 prec product divisor price_at = None"
| "cost_loop (Suc n) prec product divisor price_at =
     (let scaled = product div divisor; divisor = divisor * 10;
          continue = cost_loop n (prec - 1) product divisor price_at
      in if scaled > 2 ^ 64 - 1 then continue
         else case price_at prec of
             Inl e \<Rightarrow> continue
           | Inr price_fp \<Rightarrow>
               (case Divide_member (mk_ScaledInteger (of_nat scaled) prec) (mk_ScaledInteger price_fp prec) of
                  Inl e \<Rightarrow> continue
                | Inr cost_fp \<Rightarrow> Some cost_fp))"

definition CalculateCostMinions :: "u64 \<Rightarrow> (u64 \<Rightarrow> errc + u64) \<Rightarrow> errc + u64" where
  "CalculateCostMinions total_bytes price_at =
     (let product = unat total_bytes * PRICE_PER_FLOP * FLOPS_PER_BYTE in
      case cost_loop (Suc (unat PRICE_PER_FLOP_FRACTIONAL_DIGITS - unat PRECISION))
             PRICE_PER_FLOP_FRACTIONAL_DIGITS product 1 price_at of
        None \<Rightarrow> Inl value_too_large
      | Some cost_fp \<Rightarrow>
          if si_precision cost_fp < PRECISION then Inl value_too_large
          else rbind (ConvertPrecision_member cost_fp PRECISION) (\<lambda>minions_res.
                 Inr (max (si_value minions_res) MIN_MINION_UNITS)))"

definition ConvertToChildToken :: "u64 \<Rightarrow> string \<Rightarrow> errc + string" where
  "ConvertToChildToken in_minions ratio =
     rbind (New_str ratio PRECISION Strict) (\<lambda>ratio_fp.
     rbind (New_raw in_minions PRECISION) (\<lambda>minion_fp.
     rbind (Divide_member minion_fp ratio_fp) (\<lambda>child_fp.
       ToString_member child_fp True)))"

definition ConvertFromChildToken :: "string \<Rightarrow> string \<Rightarrow> errc + u64" where
  "ConvertFromChildToken in_child ratio =
     rbind (New_str ratio PRECISION Strict) (\<lambda>ratio_fp.
     rbind (New_str in_child PRECISION Truncate) (\<lambda>child_fp.
     rbind (Multiply_member child_fp ratio_fp) (\<lambda>minion_fp.
       Inr (si_value minion_fp))))"

section \<open>Digits\<close>

lemma of_char_digit_char [simp]: "d < 10 \<Longrightarrow> (of_char (digit_char d) :: nat) = 48 + d"
  by (simp add: digit_char_def)

lemma is_digit_digit_char [simp]: "d < 10 \<Longrightarrow> is_digit (digit_char d)"
  by (simp add: is_digit_def)

lemma digits_value_Nil [simp]: "digits_value [] = 0"
  by (simp add: digits_value_def)

lemma digits_value_snoc [simp]: "digits_value (s @ [c]) = digits_value s * 10 + (of_char c - 48)"
  by (simp add: digits_value_def)

lemma digits_value_append: "digits_value (a @ b) = digits_value a * 10 ^ length b + digits_value b"
proof (induction b rule: rev_induct)
  case (snoc c b)
  then show ?case
    by (simp flip: append_assoc add: algebra_simps)
qed simp

lemma is_digit_zero [simp]: "is_digit (CHR ''0'')" and not_is_digit_dot [simp]: "\<not> is_digit (CHR ''.'')"
  by (simp_all add: is_digit_def)

lemma digits_value_zeros [simp]: "digits_value (replicate n (CHR ''0'')) = 0"
proof (induction n)
  case (Suc n)
  then show ?case
    by (simp flip: replicate_append_same)
qed simp

lemma to_string_props:
  "to_string n \<noteq> [] \<and> list_all is_digit (to_string n) \<and> digits_value (to_string n) = n"
proof (induction n rule: to_string.induct)
  case (1 n)
  show ?case
  proof (cases "n < 10")
    case True
    then show ?thesis
      by (simp add: to_string.simps [of n] digits_value_def)
  next
    case False
    then show ?thesis
      using 1 by (simp add: to_string.simps [of n])
  qed
qed

lemmas to_string_ne [simp] = to_string_props [THEN conjunct1]
lemmas to_string_digits [simp] = to_string_props [THEN conjunct2, THEN conjunct1]
lemmas to_string_value [simp] = to_string_props [THEN conjunct2, THEN conjunct2]

lemma to_string_length: "n < 10 ^ Suc k \<Longrightarrow> length (to_string n) \<le> Suc k"
proof (induction k arbitrary: n)
  case (Suc k)
  then show ?case
    by (subst to_string.simps) (auto simp: less_mult_imp_div_less mult.commute)
qed (simp add: to_string.simps)

lemma takeWhile_digits: "list_all is_digit s \<Longrightarrow> takeWhile is_digit s = s"
  by (simp add: list_all_iff)

lemma parse_part_digits:
  "\<lbrakk>s \<noteq> []; list_all is_digit s; digits_value s < 2 ^ 64\<rbrakk>
    \<Longrightarrow> parse_part s = Inr (of_nat (digits_value s))"
  by (simp add: parse_part_def from_chars_def takeWhile_digits)

lemma find_char_append:
  "list_all is_digit a \<Longrightarrow> find_char (CHR ''.'') (a @ CHR ''.'' # b) = Some (length a)"
  by (induction a) auto

lemma find_char_digits [simp]: "list_all is_digit a \<Longrightarrow> find_char (CHR ''.'') a = None"
  by (induction a) auto

section \<open>The scale factor\<close>

lemma ScaleFactor_loop_eq: "ScaleFactor_loop n r = r * 10 ^ n"
  by (induction n arbitrary: r) (simp_all add: algebra_simps)

lemma ScaleFactor_eq: "ScaleFactor p = 10 ^ unat p"
  by (simp add: ScaleFactor_def ScaleFactor_loop_eq)

lemma pow10_bound: "n \<le> 19 \<Longrightarrow> (10 :: nat) ^ n < 2 ^ 64"
  using power_increasing [of n 19 "10 :: nat"] by simp

lemma unat_ScaleFactor: "p \<le> 19 \<Longrightarrow> unat (ScaleFactor p) = 10 ^ unat p"
proof -
  assume "p \<le> 19"
  then have "unat p \<le> 19"
    by (simp add: word_le_nat_alt)
  then have "(10 :: nat) ^ unat p < 2 ^ 64"
    by (rule pow10_bound)
  then have "unat (of_nat (10 ^ unat p) :: u64) = 10 ^ unat p"
    by (intro unat_of_nat_eq) simp
  then show ?thesis
    by (simp add: ScaleFactor_eq)
qed

lemma ScaleFactor_nonzero: "p \<le> 19 \<Longrightarrow> ScaleFactor p \<noteq> 0"
  using unat_ScaleFactor [of p] by auto

section \<open>Parsing and printing\<close>

text \<open>
  A decimal string denotes an integer and a fraction; \<open>decimal\<close> is its value in units of
  \<open>10 ^ - n\<close>.
\<close>

definition decimal :: "nat \<Rightarrow> string \<Rightarrow> string \<Rightarrow> nat" where
  "decimal n ds fs = digits_value ds * 10 ^ n + digits_value fs * 10 ^ (n - length fs)"

lemma FromString_decimal:
  assumes "ds \<noteq> []" "list_all is_digit ds" "digits_value ds < 2 ^ 64"
    and "fs \<noteq> []" "list_all is_digit fs" "digits_value fs < 2 ^ 64" "length fs \<le> unat p"
  shows "FromString (ds @ CHR ''.'' # fs) p m = Inr (of_nat (decimal (unat p) ds fs))"
  using assms
  by (simp add: FromString_def find_char_append parse_part_digits ScaleFactor_eq ScaleFactor_loop_eq
      decimal_def)

lemma FromString_integer:
  assumes "ds \<noteq> []" "list_all is_digit ds" "digits_value ds < 2 ^ 64"
  shows "FromString ds p m = Inr (of_nat (decimal (unat p) ds []))"
  using assms
  by (simp add: FromString_def parse_part_digits ScaleFactor_eq ScaleFactor_loop_eq decimal_def)

definition fraction_string :: "nat \<Rightarrow> nat \<Rightarrow> string" where
  "fraction_string n k = replicate (n - length (to_string k)) (CHR ''0'') @ to_string k"

lemma fraction_string_props:
  assumes "k < 10 ^ n" "0 < n"
  shows "length (fraction_string n k) = n" "list_all is_digit (fraction_string n k)"
    "digits_value (fraction_string n k) = k" "fraction_string n k \<noteq> []"
proof -
  obtain m where "n = Suc m"
    using assms(2) by (cases n) auto
  then have "length (to_string k) \<le> n"
    using assms(1) to_string_length by blast
  then show "length (fraction_string n k) = n"
    by (simp add: fraction_string_def)
qed (simp_all add: fraction_string_def digits_value_append list_all_iff [of _ "replicate _ _"])

lemma ToString_form:
  assumes "p \<le> 19" "p \<noteq> 0"
  shows "ToString v p = Inr (to_string (unat v div 10 ^ unat p) @
           CHR ''.'' # fraction_string (unat p) (unat v mod 10 ^ unat p))"
  using assms
  by (simp add: ToString_def ScaleFactor_nonzero unat_div unat_mod unat_ScaleFactor fraction_string_def Let_def)

lemma ToString_zero: "ToString v 0 = Inr (to_string (unat v))"
  by (simp add: ToString_def ScaleFactor_def)

lemma unat_u64_less: "unat (v :: u64) < 2 ^ 64"
  using unsigned_less [of v, where ?'a = nat] by simp

lemma unat_div_bound: "unat (v :: u64) div k < 2 ^ 64"
  by (rule le_less_trans [OF div_le_dividend unat_u64_less])

lemma decimal_parts:
  assumes "0 < n"
  shows "decimal n (to_string (k div 10 ^ n)) (fraction_string n (k mod 10 ^ n)) = k"
  using assms by (simp add: decimal_def fraction_string_props div_mult_mod_eq)

lemma FromString_ToString_parts:
  assumes "p \<le> 19" "p \<noteq> 0"
  shows "FromString (to_string (unat v div 10 ^ unat p) @
           CHR ''.'' # fraction_string (unat p) (unat v mod 10 ^ unat p)) p m = Inr v"
proof -
  let ?f = "fraction_string (unat p) (unat v mod 10 ^ unat p)"
  have p: "0 < unat p" "unat p \<le> 19"
    using assms by (simp_all add: word_le_nat_alt unat_gt_0)
  have f: "length ?f = unat p" "list_all is_digit ?f" "digits_value ?f = unat v mod 10 ^ unat p" "?f \<noteq> []"
    using p by (simp_all add: fraction_string_props)
  have "digits_value ?f < 2 ^ 64"
    unfolding f using pow10_bound [OF p(2)]
    by (meson less_trans mod_less_divisor zero_less_numeral zero_less_power)
  moreover have "digits_value (to_string (unat v div 10 ^ unat p)) < 2 ^ 64"
    unfolding to_string_value by (rule unat_div_bound)
  ultimately show ?thesis
    using f(1,2,4) p by (simp only: FromString_decimal to_string_ne to_string_digits decimal_parts
        le_refl not_False_eq_True of_nat_unat ucast_id)
qed

text \<open>
  Dropping trailing zeros of a fraction keeps the denoted value, and a fraction of zeros
  only disappears together with the point.
\<close>

lemma dropWhile_zeros_split:
  obtains n where "fs = rev (dropWhile (\<lambda>c. c = CHR ''0'') (rev fs)) @ replicate n (CHR ''0'')"
proof -
  let ?P = "\<lambda>c. c = CHR ''0''"
  have "takeWhile ?P (rev fs) = replicate (length (takeWhile ?P (rev fs))) (CHR ''0'')"
    by (intro replicate_eqI) (auto dest: set_takeWhileD)
  then have "rev fs = replicate (length (takeWhile ?P (rev fs))) (CHR ''0'') @ dropWhile ?P (rev fs)"
    by (metis takeWhile_dropWhile_id)
  then have "fs = rev (dropWhile ?P (rev fs)) @ replicate (length (takeWhile ?P (rev fs))) (CHR ''0'')"
    by (metis rev_append rev_replicate rev_rev_ident)
  then show ?thesis
    by (rule that)
qed

lemma decimal_append_zeros:
  assumes "length fs + k \<le> n"
  shows "decimal n ds (fs @ replicate k (CHR ''0'')) = decimal n ds fs"
proof -
  have "(10::nat) ^ (n - length fs) = 10 ^ k * 10 ^ (n - (length fs + k))"
    using assms by (simp flip: power_add)
  then show ?thesis
    by (simp add: decimal_def digits_value_append)
qed

lemma erase_trailing_zeros_parts:
  assumes "list_all is_digit f"
  obtains g k where "f = g @ replicate k (CHR ''0'')" "list_all is_digit g"
    "erase_trailing_zeros (ds @ CHR ''.'' # f) = ds @ CHR ''.'' # g"
    "last (ds @ CHR ''.'' # g) = CHR ''.'' \<longleftrightarrow> g = []"
proof -
  define g where "g = rev (dropWhile (\<lambda>c. c = CHR ''0'') (rev f))"
  obtain k where k: "f = g @ replicate k (CHR ''0'')"
    unfolding g_def by (rule dropWhile_zeros_split)
  have digit: "list_all is_digit g"
    using assms unfolding k by simp
  have "erase_trailing_zeros (ds @ CHR ''.'' # f) = ds @ CHR ''.'' # g"
    unfolding g_def by (auto simp: erase_trailing_zeros_def dropWhile_append)
  moreover have "last (ds @ CHR ''.'' # g) = CHR ''.'' \<longleftrightarrow> g = []"
    using digit by (cases g rule: rev_cases) auto
  ultimately show ?thesis
    using that k digit by blast
qed

lemma ToString_trim:
  fixes v :: u64
  assumes "p \<le> 19" "p \<noteq> 0"
  defines "ds \<equiv> to_string (unat v div 10 ^ unat p)"
  obtains fs k where "fraction_string (unat p) (unat v mod 10 ^ unat p) = fs @ replicate k (CHR ''0'')"
    and "list_all is_digit fs"
    and "ToString_member (mk_ScaledInteger v p) False =
           Inr (if fs = [] then ds else ds @ CHR ''.'' # fs)"
proof -
  let ?f = "fraction_string (unat p) (unat v mod 10 ^ unat p)"
  have f: "list_all is_digit ?f"
    using assms by (simp add: fraction_string_props unat_gt_0)
  obtain g k where g: "?f = g @ replicate k (CHR ''0'')" "list_all is_digit g"
      "erase_trailing_zeros (ds @ CHR ''.'' # ?f) = ds @ CHR ''.'' # g"
      "last (ds @ CHR ''.'' # g) = CHR ''.'' \<longleftrightarrow> g = []"
    using erase_trailing_zeros_parts [OF f, of ds] by blast
  have "ToString_member (mk_ScaledInteger v p) False = Inr (if g = [] then ds else ds @ CHR ''.'' # g)"
    using assms(1,2) g(3,4)
    by (simp add: ToString_member_def mk_ScaledInteger_def ToString_form find_char_append ds_def Let_def
        butlast_append)
  with g(1,2) show ?thesis
    by (rule that)
qed

lemma FromString_ToString_trim:
  assumes "p \<le> 19"
  shows "\<exists>s. ToString_member (mk_ScaledInteger v p) False = Inr s \<and> FromString s p m = Inr v"
proof (cases "p = 0")
  case True
  have "ToString_member (mk_ScaledInteger v p) False = Inr (to_string (unat v))"
    by (simp add: True ToString_member_def mk_ScaledInteger_def ToString_zero)
  moreover have "FromString (to_string (unat v)) p m = Inr v"
    by (simp add: FromString_integer unat_u64_less [simplified] decimal_def True)
  ultimately show ?thesis
    by blast
next
  case False
  let ?ds = "to_string (unat v div 10 ^ unat p)"
  have p: "0 < unat p" "unat p \<le> 19"
    using assms False by (simp_all add: word_le_nat_alt unat_gt_0)
  obtain fs k where f: "fraction_string (unat p) (unat v mod 10 ^ unat p) = fs @ replicate k (CHR ''0'')"
      "list_all is_digit fs"
      and s: "ToString_member (mk_ScaledInteger v p) False = Inr (if fs = [] then ?ds else ?ds @ CHR ''.'' # fs)"
    using ToString_trim [OF assms False, of v] by blast
  have len: "length fs + k = unat p"
    using fraction_string_props(1) [of "unat v mod 10 ^ unat p" "unat p"] p f(1) by simp
  have d: "decimal (unat p) ?ds fs = unat v"
    using decimal_parts [OF p(1), of "unat v"] len by (simp add: f(1) decimal_append_zeros)
  have "digits_value fs \<le> decimal (unat p) ?ds fs"
    by (simp add: decimal_def trans_le_add2)
  then have fb: "digits_value fs < 2 ^ 64"
    unfolding d using unat_u64_less by (rule le_less_trans)
  have db: "digits_value ?ds < 2 ^ 64"
    unfolding to_string_value by (rule unat_div_bound)
  have "FromString (if fs = [] then ?ds else ?ds @ CHR ''.'' # fs) p m = Inr (of_nat (unat v))"
  proof (cases "fs = []")
    case True
    then show ?thesis
      using FromString_integer [of ?ds p m] db d by simp
  next
    case False
    then show ?thesis
      using FromString_decimal [of ?ds fs p m] db fb f(2) len d by simp
  qed
  with s show ?thesis
    by simp
qed

section \<open>Arithmetic\<close>

lemma unat_of_nat_u64: "k < 2 ^ 64 \<Longrightarrow> unat (of_nat k :: u64) = k"
  by (rule unat_of_nat_eq) simp

lemma Multiply_eq_Inr:
  "p \<le> 19 \<Longrightarrow> Multiply a b p = Inr r \<longleftrightarrow> unat a * unat b div 10 ^ unat p = unat r"
  using unat_u64_less [of r]
  by (auto simp: Multiply_def ScaleFactor_nonzero unat_ScaleFactor Let_def unat_of_nat_u64 word_unat_eq_iff)

lemma Divide_eq_Inr:
  "p \<le> 19 \<Longrightarrow> Divide a b p = Inr r \<longleftrightarrow> b \<noteq> 0 \<and> unat a * 10 ^ unat p div unat b = unat r"
  using unat_u64_less [of r]
  by (auto simp: Divide_def unat_ScaleFactor Let_def unat_of_nat_u64 word_unat_eq_iff)

lemma div_mult_round_trip:
  fixes m r k :: nat
  assumes "0 < r" "0 < k"
  shows "(m * k div r) * r div k \<le> m" "m \<le> (m * k div r) * r div k + r div k + 1"
proof -
  have "(m * k div r) * r \<le> m * k"
    by simp
  then show "(m * k div r) * r div k \<le> m"
    using assms(2) by (metis div_le_mono div_mult_self_is_m)
  have "m * k = (m * k div r) * r + m * k mod r"
    by simp
  then have "m * k \<le> (m * k div r) * r + r"
    using assms(1) mod_less_divisor [of r "m * k"] by linarith
  also have "\<dots> < ((m * k div r) * r div k + 1) * k + (r div k + 1) * k"
    using assms(2) dividend_less_div_times [of k] by (simp add: add_less_le_mono less_imp_le add_strict_mono)
  finally have "m * k < ((m * k div r) * r div k + r div k + 2) * k"
    by (simp add: algebra_simps)
  then have "m < (m * k div r) * r div k + r div k + 2"
    by (simp only: mult_less_cancel2)
  then show "m \<le> (m * k div r) * r div k + r div k + 1"
    by simp
qed

section \<open>Properties\<close>

lemmas parse_simps = ParseMinions_def FromString_def parse_part_def from_chars_def is_digit_def digits_value_def
  PRECISION_def ScaleFactor_eq ScaleFactor_loop_eq

text \<open>
  C34. Printing an amount with at most 19 fractional digits never fails; parsing the text
  back at that precision, in either mode, returns the amount, and the constructor that
  infers the precision from the text finds both the amount and the precision.
\<close>

theorem ToString_round_trip:
  assumes "p \<le> 19"
  shows "\<exists>s. ToString v p = Inr s \<and> FromString s p m = Inr v \<and> New_infer s = Inr (mk_ScaledInteger v p)"
proof (cases "p = 0")
  case True
  then show ?thesis
    by (simp add: ToString_zero FromString_integer unat_u64_less [simplified] decimal_def New_infer_def)
next
  case False
  let ?s = "to_string (unat v div 10 ^ unat p) @
    CHR ''.'' # fraction_string (unat p) (unat v mod 10 ^ unat p)"
  have "find_char (CHR ''.'') ?s = Some (length (to_string (unat v div 10 ^ unat p)))"
    by (simp add: find_char_append)
  moreover have "length (fraction_string (unat p) (unat v mod 10 ^ unat p)) = unat p"
    using False by (simp add: fraction_string_props unat_gt_0)
  ultimately have "New_infer ?s = Inr (mk_ScaledInteger v p)"
    using FromString_ToString_parts [OF assms False, of v Strict] by (simp add: New_infer_def)
  then show ?thesis
    using FromString_ToString_parts [OF assms False] ToString_form [OF assms False] by blast
qed

theorem ToString_round_trip_witness:
  "(6 :: u64) \<le> 19 \<and> (\<exists>s. ToString 1500000 6 = Inr s \<and> FromString s 6 Strict = Inr 1500000 \<and>
     New_infer s = Inr (mk_ScaledInteger 1500000 6))"
  using ToString_round_trip [of 6 1500000 Strict] by simp

text \<open>
  The display form without trailing zeros loses nothing: at up to 19 fractional digits it
  is always produced and parses back to the amount it was made from.
\<close>

lemma ToString_trimmed_round_trip:
  assumes "si_precision x \<le> 19"
  shows "\<exists>s. ToString_member x False = Inr s \<and> New_str s (si_precision x) m = Inr x"
proof -
  have x: "x = mk_ScaledInteger (si_value x) (si_precision x)"
    by (simp add: mk_ScaledInteger_def)
  show ?thesis
    using FromString_ToString_trim [OF assms, of "si_value x" m]
    by (subst x) (auto simp: New_str_def simp flip: x)
qed

text \<open>
  Fixed-point multiplication and division are exact up to truncation at up to 19
  fractional digits: the product is the floor of the exact product and the quotient the floor
  of the exact quotient, the only failures being a result beyond 64 bits and a zero divisor.
\<close>

lemma fixed_point_exact:
  assumes "p \<le> 19"
  shows "Multiply a b p =
           (let r = unat a * unat b div 10 ^ unat p
            in if r < 2 ^ 64 then Inr (of_nat r) else Inl value_too_large) \<and>
         Divide a b p =
           (if b = 0 then Inl result_out_of_range
            else let r = unat a * 10 ^ unat p div unat b
                 in if r < 2 ^ 64 then Inr (of_nat r) else Inl value_too_large)"
  using assms by (auto simp: Multiply_def Divide_def ScaleFactor_nonzero unat_ScaleFactor Let_def)

text \<open>
  Raising the precision of an amount and lowering it again gives the amount back, and the
  raise fails exactly when the scaled amount does not fit 64 bits.
\<close>

lemma ConvertPrecision_round_trip:
  assumes "f \<le> t" "t \<le> 19"
  shows "(case ConvertPrecision v f t of
            Inl e \<Rightarrow> e = value_too_large \<and> unat v * 10 ^ (unat t - unat f) \<ge> 2 ^ 64
          | Inr w \<Rightarrow> unat w = unat v * 10 ^ (unat t - unat f) \<and> ConvertPrecision w t f = Inr v)"
proof (cases "f = t")
  case True
  then show ?thesis
    by (simp add: ConvertPrecision_def)
next
  case False
  then have lt: "f < t" "\<not> t < f"
    using assms(1) by auto
  have d: "unat (t - f) = unat t - unat f"
    using assms(1) by (simp add: unat_sub word_le_nat_alt)
  have le: "t - f \<le> 19"
    using assms d by (simp add: word_le_nat_alt)
  have "unat (of_nat (unat v * 10 ^ (unat t - unat f)) div ScaleFactor (t - f)) = unat v"
    if "unat v * 10 ^ (unat t - unat f) < 2 ^ 64"
    using that by (simp only: unat_div unat_of_nat_u64 unat_ScaleFactor [OF le] d) simp
  then show ?thesis
    using lt False unat_ScaleFactor [OF le] ScaleFactor_nonzero [OF le] d
    by (auto simp: ConvertPrecision_def Let_def unat_of_nat_u64 word_unat_eq_iff simp del: of_nat_mult)
qed

text \<open>
  C35. Converting minions to a child token and back at the same ratio always succeeds when the
  first conversion did, never creates minions, and loses at most one unit more than the ratio's
  integer part.
\<close>

theorem child_token_round_trip:
  assumes "ConvertToChildToken in_minions ratio = Inr s" "ParseMinions ratio = Inr r"
  shows "\<exists>m'. ConvertFromChildToken s ratio = Inr m' \<and> m' \<le> in_minions \<and>
           unat in_minions \<le> unat m' + unat r div 10 ^ 6 + 1"
proof -
  have six: "PRECISION \<le> 19" "unat PRECISION = 6"
    by (simp_all add: PRECISION_def)
  have r: "FromString ratio PRECISION Strict = Inr r"
    using assms(2) by (simp add: ParseMinions_def)
  then obtain c where c: "Divide in_minions r PRECISION = Inr c" and s: "ToString c PRECISION = Inr s"
    using assms(1)
    by (auto simp: ConvertToChildToken_def New_str_def New_raw_def Divide_member_def ToString_member_def
        mk_ScaledInteger_def)
  have "r \<noteq> 0" and cq: "unat c = unat in_minions * 10 ^ 6 div unat r"
    using c by (simp_all add: Divide_eq_Inr six)
  then have pos: "0 < unat r"
    by (simp add: unat_gt_0)
  let ?m = "unat c * unat r div 10 ^ 6"
  have m: "?m \<le> unat in_minions" "unat in_minions \<le> ?m + unat r div 10 ^ 6 + 1"
    unfolding cq using div_mult_round_trip [OF pos, of "10 ^ 6" "unat in_minions"] by simp_all
  then have u: "unat (of_nat ?m :: u64) = ?m"
    using unat_u64_less [of in_minions] by (intro unat_of_nat_u64) linarith
  have "FromString s PRECISION Truncate = Inr c"
    using FromString_ToString_parts [OF six(1), of c Truncate] ToString_form [OF six(1), of c] s
    by (simp add: PRECISION_def)
  moreover have "Multiply c r PRECISION = Inr (of_nat ?m)"
    by (simp only: Multiply_eq_Inr [OF six(1)] u six)
  ultimately have "ConvertFromChildToken s ratio = Inr (of_nat ?m)"
    using r by (simp add: ConvertFromChildToken_def New_str_def Multiply_member_def mk_ScaledInteger_def)
  then show ?thesis
    using m u by (metis word_le_nat_alt)
qed

theorem child_token_round_trip_witness:
  "ConvertToChildToken 10 ''3'' = Inr ''0.000003'' \<and> ParseMinions ''3'' = Inr 3000000 \<and>
   (\<exists>m'. ConvertFromChildToken ''0.000003'' ''3'' = Inr m' \<and> m' \<le> 10 \<and>
      unat (10 :: u64) \<le> unat m' + unat (3000000 :: u64) div 10 ^ 6 + 1)"
proof -
  have p: "ParseMinions ''3'' = Inr 3000000"
    by (simp add: parse_simps)
  have z: "replicate 5 (CHR ''0'') = ''00000''"
    by (simp add: numeral_eq_Suc)
  from p have "ConvertToChildToken 10 ''3'' = Inr ''0.000003''"
    by (simp add: ConvertToChildToken_def New_str_def New_raw_def Divide_member_def Divide_def ParseMinions_def
        mk_ScaledInteger_def ToString_member_def ToString_def to_string.simps digit_char_def PRECISION_def
        ScaleFactor_eq z char_of_def bit_Suc_0_iff)
  with p
  show ?thesis
    using child_token_round_trip [of 10 "''3''" "''0.000003''" 3000000] by blast
qed

lemma cost_loop_precision:
  "\<lbrakk>cost_loop n q product d price_at = Some c; n \<le> unat q\<rbrakk>
    \<Longrightarrow> unat q < unat (si_precision c) + n \<and> unat (si_precision c) \<le> unat q"
proof (induction n arbitrary: q d)
  case (Suc n)
  have u: "unat (q - 1) = unat q - 1"
    using Suc.prems(2) by (subst unat_sub) (simp_all add: word_le_nat_alt)
  have step: "unat q < unat (si_precision c) + Suc n \<and> unat (si_precision c) \<le> unat q"
    if "cost_loop n (q - 1) product (d * 10) price_at = Some c"
  proof -
    have "n \<le> unat (q - 1)"
      using Suc.prems(2) u by linarith
    from Suc.IH [OF that this] show ?thesis
      using Suc.prems(2) u by linarith
  qed
  show ?case
    using Suc.prems(1) step
    by (fastforce simp: Let_def Divide_member_def mk_ScaledInteger_def
        split: if_splits sum.splits elim!: rbind_InrE)
qed simp

lemma cost_precision_bounds:
  assumes "cost_loop (Suc (unat PRICE_PER_FLOP_FRACTIONAL_DIGITS - unat PRECISION))
             PRICE_PER_FLOP_FRACTIONAL_DIGITS product 1 price_at = Some c"
  shows "PRECISION \<le> si_precision c" "si_precision c \<le> 15"
  using cost_loop_precision [OF assms]
  by (simp_all add: PRECISION_def PRICE_PER_FLOP_FRACTIONAL_DIGITS_def word_le_nat_alt)

lemma cost_loop_first:
  assumes "product < 2 ^ 64" "price_at q = Inr price" "price \<noteq> 0" "q \<le> 19"
    "product * 10 ^ unat q div unat price < 2 ^ 64"
  shows "cost_loop (Suc n) q product 1 price_at =
           Some (mk_ScaledInteger (of_nat (product * 10 ^ unat q div unat price)) q)"
  using assms
  by (simp add: Let_def Divide_member_def mk_ScaledInteger_def Divide_def unat_ScaleFactor unat_of_nat_u64
      del: of_nat_mult)

lemma cost_conversion:
  assumes "PRECISION \<le> si_precision c" "si_precision c \<le> 15"
  shows "ConvertPrecision_member c PRECISION =
           Inr (mk_ScaledInteger (if si_precision c = PRECISION then si_value c
             else si_value c div ScaleFactor (si_precision c - PRECISION)) PRECISION)"
proof -
  have "si_precision c - PRECISION \<le> 19"
    using assms by (simp add: word_le_nat_alt unat_sub PRECISION_def)
  then show ?thesis
    using assms by (auto simp: ConvertPrecision_member_def ConvertPrecision_def Let_def ScaleFactor_nonzero)
qed

lemma CalculateCostMinions_cases:
  "CalculateCostMinions total_bytes price_at =
     (case cost_loop 10 15 (unat total_bytes * 10000) 1 price_at of
        None \<Rightarrow> Inl value_too_large
      | Some c \<Rightarrow> Inr (max (if si_precision c = PRECISION then si_value c
             else si_value c div ScaleFactor (si_precision c - PRECISION)) 1))"
proof -
  have eq: "unat total_bytes * PRICE_PER_FLOP * FLOPS_PER_BYTE = unat total_bytes * 10000"
    "Suc (unat (15 :: u64) - unat PRECISION) = 10"
    "PRICE_PER_FLOP_FRACTIONAL_DIGITS = 15"
    by (simp_all add: PRICE_PER_FLOP_def FLOPS_PER_BYTE_def PRECISION_def PRICE_PER_FLOP_FRACTIONAL_DIGITS_def)
  have "\<not> si_precision c < PRECISION \<and> si_precision c \<le> 15"
    if "cost_loop 10 15 (unat total_bytes * 10000) 1 price_at = Some c" for c
    using cost_precision_bounds [unfolded eq, OF that] by simp
  then show ?thesis
    unfolding CalculateCostMinions_def eq
    by (cases "cost_loop 10 15 (unat total_bytes * 10000) 1 price_at")
      (simp_all add: Let_def cost_conversion mk_ScaledInteger_def MIN_MINION_UNITS_def not_less del: One_nat_def)
qed

text \<open>
  C36. A processing cost that is computed is never free: whatever the conversion of the
  price yields, the result is at least one minion, and the only failure is
  \<open>value_too_large\<close>. When the whole computation fits at 15 fractional digits the cost is the
  truncated quotient of 10000 price units per byte and the price.
\<close>

theorem CalculateCostMinions_bounds:
  shows "(case CalculateCostMinions total_bytes price_at of
            Inl e \<Rightarrow> e = value_too_large
          | Inr c \<Rightarrow> c \<ge> 1) \<and>
         (price_at 15 = Inr price \<longrightarrow> price \<noteq> 0 \<longrightarrow>
          unat total_bytes * 10000 < 2 ^ 64 \<longrightarrow>
          unat total_bytes * 10000 * 10 ^ 15 div unat price < 2 ^ 64 \<longrightarrow>
          CalculateCostMinions total_bytes price_at =
            Inr (max (of_nat (unat total_bytes * 10000 * 10 ^ 15 div unat price) div 10 ^ 9) 1))"
proof (intro conjI impI)
  show "case CalculateCostMinions total_bytes price_at of Inl e \<Rightarrow> e = value_too_large | Inr c \<Rightarrow> c \<ge> 1"
    by (simp add: CalculateCostMinions_cases split: option.splits)
next
  assume "price_at 15 = Inr price" "price \<noteq> 0" "unat total_bytes * 10000 < 2 ^ 64"
    "unat total_bytes * 10000 * 10 ^ 15 div unat price < 2 ^ 64"
  then have "cost_loop (Suc 9) 15 (unat total_bytes * 10000) 1 price_at =
      Some (mk_ScaledInteger (of_nat (unat total_bytes * 10000 * 10 ^ 15 div unat price)) 15)"
    using cost_loop_first [of "unat total_bytes * 10000" price_at 15 price 9] by simp
  then show "CalculateCostMinions total_bytes price_at =
            Inr (max (of_nat (unat total_bytes * 10000 * 10 ^ 15 div unat price) div 10 ^ 9) 1)"
    by (simp add: CalculateCostMinions_cases mk_ScaledInteger_def PRECISION_def ScaleFactor_eq
        del: of_nat_mult cost_loop.simps)
qed

theorem CalculateCostMinions_bounds_witness:
  "CalculateCostMinions 1000000 (\<lambda>p. Inr (2 * 10 ^ unat p)) = Inr 5"
  using CalculateCostMinions_bounds [of 1000000 "\<lambda>p. Inr (2 * 10 ^ unat p)" "2 * 10 ^ 15"]
  by simp

text \<open>
  A well-formed decimal is parsed modulo 64 bits: the result is the denoted value reduced
  modulo \<open>2 ^ 64\<close>, so an amount beyond the range is accepted with a wrong value instead of
  being refused, as \<open>18446744073709.551616\<close> parsed as zero shows.
\<close>

lemma FromString_wraps:
  assumes "ds \<noteq> []" "list_all is_digit ds" "digits_value ds < 2 ^ 64"
    and "fs \<noteq> []" "list_all is_digit fs" "digits_value fs < 2 ^ 64" "length fs \<le> unat p"
  shows "\<exists>r. FromString (ds @ CHR ''.'' # fs) p m = Inr r \<and>
           unat r = (digits_value ds * 10 ^ unat p + digits_value fs * 10 ^ (unat p - length fs)) mod 2 ^ 64"
  using FromString_decimal [OF assms, of m]
  by (auto simp: decimal_def unat_of_nat simp del: of_nat_add of_nat_mult)

text \<open>
  In truncating mode extra fractional digits are dropped, except that an amount of
  precision zero cannot be parsed from a text with a fraction at all: the empty remainder of
  the fraction is refused.
\<close>

lemma FromString_truncate:
  assumes "ds \<noteq> []" "list_all is_digit ds" "digits_value ds < 2 ^ 64"
    and "list_all is_digit fs" "unat p < length fs" "digits_value (take (unat p) fs) < 2 ^ 64"
  shows "FromString (ds @ CHR ''.'' # fs) p Truncate =
           (if p = 0 then Inl invalid_argument
            else FromString (ds @ CHR ''.'' # take (unat p) fs) p Strict)"
proof -
  have ne: "take (unat p) fs \<noteq> [] \<longleftrightarrow> p \<noteq> 0"
    using assms(5) by (auto simp: unat_eq_zero)
  have "parse_part [] = Inl invalid_argument"
    by (simp add: parse_part_def from_chars_def)
  then show ?thesis
    using assms ne by (auto simp: FromString_def find_char_append parse_part_digits)
qed

end
