(* ===== verification/Trie_Node.thy ===== *)
theory Trie_Node
  imports Scale_Codec
begin

text \<open>
  Trie nodes and their byte format: \<^verbatim>\<open>src/storage/trie/supergenius_trie/supergenius_node.cpp\<close> and
  \<^verbatim>\<open>src/storage/trie/serialization/supergenius_codec.cpp\<close>. Nibbles are bytes below 16. The
  hash function \<^verbatim>\<open>sgns_blake2b\<close> belongs to a library and is the argument \<open>hash256\<close>.
\<close>

unbundle bit_operations_syntax

section \<open>Nodes\<close>

datatype NodeType = Special | Leaf | BranchEmptyValue | BranchWithValue

datatype node =
  LeafNode (leaf_key: bytes) (leaf_value: "bytes option")
| BranchNode (branch_key: bytes) (branch_value: "bytes option") (children: "node option list")
| DummyNode (db_key: bytes)

fun key_nibbles :: "node \<Rightarrow> bytes" where
  "key_nibbles (LeafNode k v) = k"
| "key_nibbles (BranchNode k v cs) = k"
| "key_nibbles (DummyNode d) = []"

fun node_value :: "node \<Rightarrow> bytes option" where
  "node_value (LeafNode k v) = v"
| "node_value (BranchNode k v cs) = v"
| "node_value (DummyNode d) = None"

fun isDummy :: "node \<Rightarrow> bool" where
  "isDummy (DummyNode d) = True"
| "isDummy n = False"

fun getTrieType :: "node \<Rightarrow> NodeType" where
  "getTrieType (LeafNode k v) = Leaf"
| "getTrieType (BranchNode k v cs) = (if v \<noteq> None then BranchWithValue else BranchEmptyValue)"
| "getTrieType (DummyNode d) = Special"

fun type_code :: "NodeType \<Rightarrow> byte" where
  "type_code Special = 0"
| "type_code Leaf = 1"
| "type_code BranchEmptyValue = 2"
| "type_code BranchWithValue = 3"

definition kMaxChildren :: nat where "kMaxChildren = 16"

definition childrenBitmap :: "node option list \<Rightarrow> u16" where
  "childrenBitmap cs =
     fold (\<lambda>i bitmap. if cs ! i \<noteq> None then bitmap OR push_bit i 1 else bitmap) [0..<kMaxChildren] 0"

definition childrenNum :: "node option list \<Rightarrow> nat" where
  "childrenNum cs = length (filter (\<lambda>c. c \<noteq> None) cs)"

definition no_children :: "node option list" where
  "no_children = replicate kMaxChildren None"

section \<open>The codec\<close>

datatype trie_error =
  NO_VALUE
| INVALID_NODE_TYPE
| TOO_MANY_NIBBLES
| UNKNOWN_NODE_TYPE
| INPUT_TOO_SMALL
| NO_NODE_VALUE
| NODE_INVALID_ARGUMENT
| SCALE_ENCODE EncodeError
| SCALE_DECODE DecodeError
| OUT_OF_RANGE
| DB_ERROR
| PARENT_EXPIRED

fun lift_encode :: "EncodeError + 'a \<Rightarrow> trie_error + 'a" where
  "lift_encode (Inl e) = Inl (SCALE_ENCODE e)"
| "lift_encode (Inr x) = Inr x"

fun lift_decode :: "DecodeError + 'a \<Rightarrow> trie_error + 'a" where
  "lift_decode (Inl e) = Inl (SCALE_DECODE e)"
| "lift_decode (Inr x) = Inr x"

definition byteFromNibbles :: "byte \<Rightarrow> byte \<Rightarrow> byte" where
  "byteFromNibbles high low = push_bit 4 high OR (low AND 0xF)"

definition ushortToBytes :: "u16 \<Rightarrow> bytes" where
  "ushortToBytes b = [ucast (b AND 0xFF), ucast (drop_bit 8 b AND 0xFF)]"

definition nibblesToKey :: "bytes \<Rightarrow> bytes" where
  "nibblesToKey nibbles =
     (if even (length nibbles) then
        map (\<lambda>j. byteFromNibbles (nibbles ! (2 * j)) (nibbles ! (2 * j + 1))) [0..<length nibbles div 2]
      else
        nibbles ! 0 #
        map (\<lambda>j. byteFromNibbles (nibbles ! (2 * j + 1)) (nibbles ! (2 * j + 2))) [0..<length nibbles div 2])"

definition keyToNibbles :: "bytes \<Rightarrow> bytes" where
  "keyToNibbles key =
     (if key = [] then []
      else if length key = 1 \<and> key ! 0 = 0 then [0, 0]
      else concat (map (\<lambda>b. [drop_bit 4 b, b AND 0xF]) key))"

definition merkleValue :: "(bytes \<Rightarrow> bytes) \<Rightarrow> bytes \<Rightarrow> bytes" where
  "merkleValue hash256 buf = (if length buf < 32 then buf else hash256 buf)"

definition encodeHeader :: "node \<Rightarrow> trie_error + bytes" where
  "encodeHeader n =
     (if length (key_nibbles n) > 0xFFFF then Inl TOO_MANY_NIBBLES
      else if getTrieType n = Special then Inl UNKNOWN_NODE_TYPE
      else
        let head = push_bit 6 (type_code (getTrieType n)) in
        if length (key_nibbles n) < 63 then Inr [head OR of_nat (length (key_nibbles n))]
        else
          let l = length (key_nibbles n) - 63
          in Inr ((head + 63) # replicate (l div 0xFF) 0xFF @ [of_nat (l mod 0xFF)]))"

definition encodeLeaf :: "bytes \<Rightarrow> bytes option \<Rightarrow> trie_error + bytes" where
  "encodeLeaf k v =
     rbind (encodeHeader (LeafNode k v)) (\<lambda>encoding.
       let encoding = encoding @ nibblesToKey k in
       case v of
         None \<Rightarrow> Inl NO_NODE_VALUE
       | Some val \<Rightarrow> rbind (lift_encode (encode encodeBuffer val)) (\<lambda>encNodeValue.
           Inr (encoding @ encNodeValue)))"

text \<open>
  \<^verbatim>\<open>encodeBranch\<close> up to its loop over the children, and the loop: a dummy child is written by
  its database key, any other child by the Merkle value of its own encoding.
\<close>

definition encodeBranch_head :: "bytes \<Rightarrow> bytes option \<Rightarrow> node option list \<Rightarrow> trie_error + bytes" where
  "encodeBranch_head k v cs =
     rbind (encodeHeader (BranchNode k v cs)) (\<lambda>encoding.
       let encoding = encoding @ nibblesToKey k @ ushortToBytes (childrenBitmap cs) in
       case v of
         None \<Rightarrow> Inr encoding
       | Some val \<Rightarrow> rbind (lift_encode (encode encodeBuffer val)) (\<lambda>encNodeValue.
           Inr (encoding @ encNodeValue)))"

fun encodeNode :: "(bytes \<Rightarrow> bytes) \<Rightarrow> node \<Rightarrow> trie_error + bytes"
  and encodeChildren :: "(bytes \<Rightarrow> bytes) \<Rightarrow> node option list \<Rightarrow> bytes \<Rightarrow> trie_error + bytes" where
  "encodeNode h (BranchNode k v cs) =
     rbind (encodeBranch_head k v cs) (\<lambda>encoding. encodeChildren h cs encoding)"
| "encodeNode h (LeafNode k v) = encodeLeaf k v"
| "encodeNode h (DummyNode d) = Inl NODE_INVALID_ARGUMENT"
| "encodeChildren h [] encoding = Inr encoding"
| "encodeChildren h (None # cs) encoding = encodeChildren h cs encoding"
| "encodeChildren h (Some child # cs) encoding =
     (if isDummy child then
        rbind (lift_encode (encode encodeBuffer (db_key child))) (\<lambda>scale_enc.
          encodeChildren h cs (encoding @ scale_enc))
      else
        rbind (encodeNode h child) (\<lambda>enc.
        rbind (lift_encode (encode encodeBuffer (merkleValue h enc))) (\<lambda>scale_enc.
          encodeChildren h cs (encoding @ scale_enc))))"

fun stream_next :: "bytes \<Rightarrow> trie_error + (byte \<times> bytes)" where
  "stream_next [] = Inl OUT_OF_RANGE"
| "stream_next (b # data) = Inr (b, data)"

definition stream_hasMore :: "bytes \<Rightarrow> nat \<Rightarrow> bool" where
  "stream_hasMore data num_bytes \<longleftrightarrow> length data \<ge> num_bytes"

fun type_of_code :: "byte \<Rightarrow> NodeType" where
  "type_of_code c = (if c = 0 then Special else if c = 1 then Leaf else if c = 2 then BranchEmptyValue else BranchWithValue)"

fun read_length_loop :: "nat \<Rightarrow> bytes \<Rightarrow> trie_error + (nat \<times> bytes)" where
  "read_length_loop pk_length [] = Inl INPUT_TOO_SMALL"
| "read_length_loop pk_length (read_length # data) =
     (if read_length = 0xFF then read_length_loop (pk_length + unat read_length) data
      else Inr (pk_length + unat read_length, data))"

definition decodeHeader :: "bytes \<Rightarrow> trie_error + ((NodeType \<times> nat) \<times> bytes)" where
  "decodeHeader data =
     (if \<not> stream_hasMore data 1 then Inl INPUT_TOO_SMALL
      else rbind (stream_next data) (\<lambda>(first, data).
        let ty = type_of_code (drop_bit 6 (first AND 0xC0));
            pk_length = unat (first AND 0x3F)
        in if pk_length = 63
           then rbind (read_length_loop pk_length data) (\<lambda>(pk_length, data). Inr ((ty, pk_length), data))
           else Inr ((ty, pk_length), data)))"

fun read_bytes :: "nat \<Rightarrow> bytes \<Rightarrow> trie_error + (bytes \<times> bytes)" where
  "read_bytes 0 data = Inr ([], data)"
| "read_bytes (Suc n) data =
     (if \<not> stream_hasMore data 1 then Inl INPUT_TOO_SMALL
      else rbind (stream_next data) (\<lambda>(b, data).
        rbind (read_bytes n data) (\<lambda>(bs, data). Inr (b # bs, data))))"

definition decodePartialKey :: "nat \<Rightarrow> bytes \<Rightarrow> trie_error + (bytes \<times> bytes)" where
  "decodePartialKey nibbles_num data =
     rbind (read_bytes (nibbles_num div 2 + nibbles_num mod 2) data) (\<lambda>(partial_key, data).
       let partial_key_nibbles = keyToNibbles partial_key
       in Inr (if nibbles_num mod 2 = 1 then drop 1 partial_key_nibbles else partial_key_nibbles, data))"

text \<open>
  The loop over the children of a branch; a bitmap of 16 bits is empty after the indices
  below 16, so the index list \<open>[0..<16]\<close> is never used up early.
\<close>

fun decodeChildren :: "nat list \<Rightarrow> u16 \<Rightarrow> decoder_stream \<Rightarrow> node option list \<Rightarrow> trie_error + node option list" where
  "decodeChildren [] children_bitmap ss cs = Inr cs"
| "decodeChildren (i # is) children_bitmap ss cs =
     (if children_bitmap = 0 then Inr cs
      else if children_bitmap AND push_bit i 1 \<noteq> 0 then
        rbind (lift_decode (decodeBuffer [] ss)) (\<lambda>(child_hash, ss).
          decodeChildren is (children_bitmap AND NOT (push_bit i 1)) ss
            (cs[i := Some (DummyNode child_hash)]))
      else decodeChildren is children_bitmap ss cs)"

definition decodeBranch :: "NodeType \<Rightarrow> bytes \<Rightarrow> bytes \<Rightarrow> trie_error + node" where
  "decodeBranch ty partial_key data =
     (if \<not> stream_hasMore data 2 then Inl INPUT_TOO_SMALL
      else
        rbind (stream_next data) (\<lambda>(b0, data).
        rbind (stream_next data) (\<lambda>(b1, data).
        let children_bitmap = ucast b0 + push_bit 8 (ucast b1);
            ss = ScaleDecoderStream data
        in rbind
             (if ty = BranchWithValue
              then rmap (\<lambda>(v, ss). (Some v, ss)) (lift_decode (decodeBuffer [] ss))
              else Inr (None, ss))
             (\<lambda>(v, ss). rmap (BranchNode partial_key v)
                (decodeChildren [0..<kMaxChildren] children_bitmap ss no_children)))))"

definition decodeNode :: "bytes \<Rightarrow> trie_error + node" where
  "decodeNode encoded_data =
     rbind (decodeHeader encoded_data) (\<lambda>((ty, pk_length), data).
     rbind (decodePartialKey pk_length data) (\<lambda>(partial_key, data).
       case ty of
         Leaf \<Rightarrow> rmap (\<lambda>v. LeafNode partial_key (Some v)) (lift_decode (decode (decodeBuffer []) data))
       | BranchEmptyValue \<Rightarrow> decodeBranch ty partial_key data
       | BranchWithValue \<Rightarrow> decodeBranch ty partial_key data
       | Special \<Rightarrow> Inl UNKNOWN_NODE_TYPE))"

section \<open>Nibbles\<close>

definition nibbles :: "bytes \<Rightarrow> bool" where
  "nibbles ns \<longleftrightarrow> list_all (\<lambda>n. n < 16) ns"

lemma nibbles_simps [simp]:
  "nibbles []" "nibbles (n # ns) \<longleftrightarrow> n < 16 \<and> nibbles ns" "nibbles (ns @ ms) \<longleftrightarrow> nibbles ns \<and> nibbles ms"
  by (simp_all add: nibbles_def)

lemma nibbles_drop [simp]: "nibbles ns \<Longrightarrow> nibbles (drop k ns)"
  by (auto simp: nibbles_def list_all_iff dest: in_set_dropD)

lemma nibbles_take [simp]: "nibbles ns \<Longrightarrow> nibbles (take k ns)"
  by (auto simp: nibbles_def list_all_iff dest: in_set_takeD)

lemma nibbles_nth: "nibbles ns \<Longrightarrow> i < length ns \<Longrightarrow> ns ! i < 16"
  by (simp add: nibbles_def list_all_length)

lemma nibble_take_bit: "(n :: byte) < 16 \<Longrightarrow> take_bit 4 n = n"
  by (simp add: take_bit_eq_mod word_unat_eq_iff unat_mod word_less_nat_alt)

lemma take_bit_nibble: "take_bit 4 (b :: byte) < 16"
  by (simp add: take_bit_eq_mod unat_mod word_less_nat_alt)

lemma mask_4: "(0xF :: byte) = mask 4"
  by (simp add: mask_eq_exp_minus_1)

lemma nibble_low: "(b :: byte) AND 0xF < 16"
  unfolding mask_4 by (simp flip: take_bit_eq_mask add: take_bit_nibble)

lemma nibble_high: "drop_bit 4 (b :: byte) < 16"
proof -
  have "drop_bit 4 b = take_bit 4 (drop_bit 4 b)"
    by (auto simp: bit_eq_iff bit_simps dest: bit_imp_le_length)
  then show ?thesis
    by (metis take_bit_nibble)
qed

lemma byteFromNibbles_split: "byteFromNibbles (drop_bit 4 b) (b AND 0xF) = b"
  unfolding byteFromNibbles_def mask_4 by (auto simp: bit_eq_iff bit_simps)

lemma byteFromNibbles_high: "h < 16 \<Longrightarrow> drop_bit 4 (byteFromNibbles h l) = h"
proof -
  assume "h < 16"
  then have "h = take_bit 4 h"
    by (simp add: nibble_take_bit)
  then show ?thesis
    unfolding byteFromNibbles_def mask_4 by (auto simp: bit_eq_iff bit_simps)
qed

lemma byteFromNibbles_low: "l < 16 \<Longrightarrow> byteFromNibbles h l AND 0xF = l"
proof -
  assume "l < 16"
  then have "l = take_bit 4 l"
    by (simp add: nibble_take_bit)
  then show ?thesis
    unfolding byteFromNibbles_def mask_4 by (auto simp: bit_eq_iff bit_simps)
qed

lemma keyToNibbles_eq: "keyToNibbles key = concat (map (\<lambda>b. [drop_bit 4 b, b AND 0xF]) key)"
  by (cases key) (auto simp: keyToNibbles_def length_Suc_conv)

lemma keyToNibbles_Nil [simp]: "keyToNibbles [] = []"
  and keyToNibbles_Cons: "keyToNibbles (b # key) = drop_bit 4 b # (b AND 0xF) # keyToNibbles key"
  by (simp_all add: keyToNibbles_eq)

lemma length_keyToNibbles [simp]: "length (keyToNibbles key) = 2 * length key"
  by (induction key) (simp_all add: keyToNibbles_Cons)

lemma nibbles_keyToNibbles [simp]: "nibbles (keyToNibbles key)"
  by (induction key) (simp_all add: keyToNibbles_Cons nibble_low nibble_high)

lemma nibblesToKey_Nil [simp]: "nibblesToKey [] = []"
  by (simp add: nibblesToKey_def)

lemma nibblesToKey_pair:
  "even (length ns) \<Longrightarrow> nibblesToKey (a # b # ns) = byteFromNibbles a b # nibblesToKey ns"
  by (simp add: nibblesToKey_def map_upt_Suc del: upt_Suc)

lemma nibblesToKey_odd:
  assumes "even (length ns)"
  shows "nibblesToKey (a # ns) = a # nibblesToKey ns"
proof -
  have "(a # ns) ! (2 * j + 1) = ns ! (2 * j)" "(a # ns) ! (2 * j + 2) = ns ! (2 * j + 1)" for j
    by simp_all
  then show ?thesis
    using assms by (auto simp: nibblesToKey_def elim!: evenE)
qed

text \<open>Packing the nibbles of a key returns the key.\<close>

lemma nibblesToKey_keyToNibbles [simp]: "nibblesToKey (keyToNibbles key) = key"
  by (induction key) (simp_all add: keyToNibbles_Cons nibblesToKey_pair byteFromNibbles_split)

lemma keyToNibbles_inj: "keyToNibbles a = keyToNibbles b \<longleftrightarrow> a = b"
  by (metis nibblesToKey_keyToNibbles)

lemma keyToNibbles_nibblesToKey_even:
  "\<lbrakk>even (length ns); nibbles ns\<rbrakk> \<Longrightarrow> keyToNibbles (nibblesToKey ns) = ns"
proof (induction ns rule: induct_list012)
  case (3 a b ns)
  then show ?case
    by (simp add: nibblesToKey_pair keyToNibbles_Cons byteFromNibbles_high byteFromNibbles_low)
qed simp_all

lemma keyToNibbles_nibblesToKey_odd:
  assumes "even (length ns)" "nibbles (a # ns)"
  shows "keyToNibbles (nibblesToKey (a # ns)) = 0 # a # ns"
proof -
  have a: "take_bit 4 a = a"
    using assms(2) by (simp add: nibble_take_bit)
  have "drop_bit 4 (take_bit 4 a) = 0"
    by (auto simp: bit_eq_iff bit_simps)
  moreover have "a AND 0xF = a"
    using a by (simp add: mask_4 take_bit_eq_mask)
  ultimately show ?thesis
    using assms a by (simp add: nibblesToKey_odd keyToNibbles_Cons keyToNibbles_nibblesToKey_even)
qed

lemma length_nibblesToKey: "length (nibblesToKey ns) = length ns div 2 + length ns mod 2"
  by (auto simp: nibblesToKey_def odd_iff_mod_2_eq_one)

section \<open>Header and partial key\<close>

lemma read_length_loop_eq:
  "read_length_loop n (replicate k 0xFF @ of_nat m # r) = Inr (n + k * 255 + m, r)" if "m < 255"
proof (induction k arbitrary: n)
  case 0
  have "(of_nat m :: byte) \<noteq> 0xFF" "unat (of_nat m :: byte) = m"
    using that by (simp_all add: unat_of_nat_eq word_unat_eq_iff)
  then show ?case
    by simp
qed simp

lemma take_bit_6: "(w :: byte) < 64 \<Longrightarrow> take_bit 6 w = w"
  by (simp add: take_bit_eq_mod word_unat_eq_iff unat_mod word_less_nat_alt)

lemma head_type:
  assumes "w < 64"
  shows "drop_bit 6 ((push_bit 6 (type_code ty) OR w) AND 0xC0) = type_code ty"
proof -
  have w: "w = take_bit 6 w"
    using assms by (simp add: take_bit_6)
  have m: "(0xC0 :: byte) = push_bit 6 (mask 2)"
    by (simp add: mask_eq_exp_minus_1)
  have "type_code ty = take_bit 2 (type_code ty)"
    by (cases ty) simp_all
  then show ?thesis
    unfolding m by (subst w) (auto simp: bit_eq_iff bit_simps)
qed

lemma head_length:
  assumes "w < 64"
  shows "(push_bit 6 (type_code ty) OR w) AND 0x3F = w"
proof -
  have m: "(0x3F :: byte) = mask 6"
    by (simp add: mask_eq_exp_minus_1)
  have "take_bit 6 w = w"
    using assms by (rule take_bit_6)
  then show ?thesis
    unfolding m by (auto simp: bit_eq_iff bit_simps)
qed

lemma head_add: "push_bit 6 (type_code ty) + 63 = push_bit 6 (type_code ty) OR 63"
  by (cases ty) simp_all

lemma type_of_code_type_code [simp]: "type_of_code (type_code ty) = ty"
  by (cases ty) simp_all

lemma decodeHeader_encodeHeader:
  assumes "encodeHeader n = Inr bs"
  shows "decodeHeader (bs @ r) = Inr ((getTrieType n, length (key_nibbles n)), r)"
proof (cases "length (key_nibbles n) < 63")
  case True
  then have w: "(of_nat (length (key_nibbles n)) :: byte) < 64"
      "unat (of_nat (length (key_nibbles n)) :: byte) = length (key_nibbles n)"
    by (simp_all add: word_less_nat_alt unat_of_nat_eq)
  have "bs = [push_bit 6 (type_code (getTrieType n)) OR of_nat (length (key_nibbles n))]"
    using assms True by (auto simp: encodeHeader_def split: if_splits)
  then show ?thesis
    using w True head_type [OF w(1), of "getTrieType n"]
    by (simp add: decodeHeader_def stream_hasMore_def head_length del: type_of_code.simps)
next
  case False
  define l where "l = length (key_nibbles n) - 63"
  have l: "63 + l div 255 * 255 + l mod 255 = length (key_nibbles n)"
    using False by (simp add: l_def)
  have "bs = (push_bit 6 (type_code (getTrieType n)) OR 63) # replicate (l div 255) 0xFF @ [of_nat (l mod 255)]"
    using assms False by (auto simp: encodeHeader_def l_def head_add Let_def split: if_splits)
  then show ?thesis
    using l read_length_loop_eq [of "l mod 255" 63 "l div 255" r] head_type [of 63 "getTrieType n"]
    by (simp add: decodeHeader_def stream_hasMore_def head_length del: type_of_code.simps)
qed

lemma read_bytes_append: "read_bytes (length bs) (bs @ r) = Inr (bs, r)"
  by (induction bs) (simp_all add: stream_hasMore_def)

lemma decodePartialKey_nibblesToKey:
  assumes "nibbles ns"
  shows "decodePartialKey (length ns) (nibblesToKey ns @ r) = Inr (ns, r)"
proof (cases "even (length ns)")
  case True
  then show ?thesis
    using assms read_bytes_append [of "nibblesToKey ns" r]
    by (simp add: decodePartialKey_def length_nibblesToKey keyToNibbles_nibblesToKey_even Let_def even_iff_mod_2_eq_zero)
next
  case False
  then obtain a ms where ns: "ns = a # ms" "even (length ms)"
    by (cases ns) auto
  then have "keyToNibbles (nibblesToKey ns) = 0 # ns"
    using assms by (simp add: keyToNibbles_nibblesToKey_odd)
  then show ?thesis
    using False read_bytes_append [of "nibblesToKey ns" r]
    by (simp add: decodePartialKey_def length_nibblesToKey Let_def odd_iff_mod_2_eq_one)
qed

section \<open>Branches\<close>

lemma bit_childrenBitmap_fold:
  "bit (fold (\<lambda>i bitmap. if cs ! i \<noteq> None then bitmap OR push_bit i 1 else bitmap) is (w :: u16)) n \<longleftrightarrow>
     bit w n \<or> n \<in> set is \<and> n < 16 \<and> cs ! n \<noteq> None"
proof (induction "is" arbitrary: w)
  case (Cons i "is")
  have "bit (if cs ! i \<noteq> None then w OR push_bit i 1 else w) n \<longleftrightarrow>
      bit w n \<or> n = i \<and> n < 16 \<and> cs ! i \<noteq> None"
    by (auto simp: bit_or_iff bit_exp_iff)
  then show ?case
    unfolding fold_Cons comp_apply Cons.IH list.set insert_iff by blast
qed simp

lemma bit_childrenBitmap: "bit (childrenBitmap cs) n \<longleftrightarrow> n < 16 \<and> cs ! n \<noteq> None"
  unfolding childrenBitmap_def bit_childrenBitmap_fold by (auto simp: kMaxChildren_def)

lemma ushortToBytes_bitmap:
  fixes w :: u16
  shows "ucast (ucast (w AND 0xFF) :: byte) + push_bit 8 (ucast (ucast (drop_bit 8 w AND 0xFF) :: byte)) = w"
proof -
  let ?b0 = "ucast (w AND 0xFF) :: byte" and ?b1 = "ucast (drop_bit 8 w AND 0xFF) :: byte"
  have m: "(0xFF :: u16) = mask 8"
    by (simp add: mask_eq_exp_minus_1)
  have "ucast ?b0 + push_bit 8 (ucast ?b1) = (ucast ?b0 OR push_bit 8 (ucast ?b1) :: u16)"
    by (intro disjunctive_add) (auto simp: bit_simps dest!: bit_imp_le_length)
  also have "\<dots> = w"
    unfolding m by (rule bit_eqI) (auto simp: bit_simps dest: bit_imp_le_length)
  finally show ?thesis .
qed

lemma bitmap_zero: "(bm :: u16) = 0 \<longleftrightarrow> (\<forall>j. \<not> bit bm j)"
  by (auto intro: bit_eqI)

lemma bitmap_clear: "bit ((bm :: u16) AND NOT (2 ^ i)) j \<longleftrightarrow> bit bm j \<and> j \<noteq> i"
  by (auto simp: bit_and_iff bit_not_iff bit_exp_iff dest: bit_imp_le_length)

text \<open>The wire form of the children of a branch, given the stored key of each child.\<close>

definition child_wire :: "(node \<Rightarrow> bytes) \<Rightarrow> node option \<Rightarrow> bytes" where
  "child_wire keyof c = (case c of None \<Rightarrow> [] | Some c \<Rightarrow> compact_bytes (int (length (keyof c))) @ keyof c)"

definition put_dummy :: "(node \<Rightarrow> bytes) \<Rightarrow> node option list \<Rightarrow> nat \<Rightarrow> node option list \<Rightarrow> node option list" where
  "put_dummy keyof cs i acc = (case cs ! i of None \<Rightarrow> acc | Some c \<Rightarrow> acc[i := Some (DummyNode (keyof c))])"

lemma put_dummy_simps [simp]:
  "cs ! i = None \<Longrightarrow> put_dummy keyof cs i acc = acc"
  "cs ! i = Some c \<Longrightarrow> put_dummy keyof cs i acc = acc[i := Some (DummyNode (keyof c))]"
  by (simp_all add: put_dummy_def)

lemma put_dummy_None: "\<forall>j \<in> set is. cs ! j = None \<Longrightarrow> fold (put_dummy keyof cs) is acc = acc"
  by (induction "is" arbitrary: acc) simp_all

lemma decodeChildren_eq:
  assumes "\<And>j c. j \<in> set is \<Longrightarrow> cs ! j = Some c \<Longrightarrow> length (keyof c) < 2 ^ 64"
    and "distinct is" "\<And>j. bit bm j \<longleftrightarrow> j \<in> set is \<and> cs ! j \<noteq> None"
    and "rest ss = concat (map (\<lambda>j. child_wire keyof (cs ! j)) is) @ r"
  shows "decodeChildren is bm ss acc = Inr (fold (put_dummy keyof cs) is acc)"
  using assms
proof (induction "is" arbitrary: bm ss acc)
  case (Cons i "is")
  have z: "bm = 0 \<longleftrightarrow> (\<forall>j \<in> set (i # is). cs ! j = None)"
    unfolding bitmap_zero Cons.prems(3) by auto
  show ?case
  proof (cases "cs ! i")
    case None
    then have "decodeChildren is bm ss acc = Inr (fold (put_dummy keyof cs) is acc)"
      using Cons.prems by (intro Cons.IH) (auto simp: child_wire_def)
    moreover have "\<not> bit bm i"
      using Cons.prems(3) None by simp
    ultimately show ?thesis
      using z None put_dummy_None [of "i # is" cs keyof acc]
      by (auto simp: and_exp_eq_0_iff_not_bit)
  next
    case (Some c)
    have b: "bit bm i" "bm \<noteq> 0"
      using Cons.prems(3) Some z by auto
    let ?w = "compact_bytes (int (length (keyof c))) @ keyof c"
    have d: "decodeBuffer [] ss = Inr (keyof c, advance (length ?w) ss)"
      using Cons.prems(1) [of i c] Cons.prems(4) Some
      by (intro buffer.dec_wire [of _ _ "concat (map (\<lambda>j. child_wire keyof (cs ! j)) is) @ r"])
        (simp_all add: child_wire_def)
    have "decodeChildren is (bm AND NOT (push_bit i 1)) (advance (length ?w) ss) (acc[i := Some (DummyNode (keyof c))])
        = Inr (fold (put_dummy keyof cs) is (acc[i := Some (DummyNode (keyof c))]))"
      using Cons.prems Some by (intro Cons.IH) (auto simp: child_wire_def scale_simps bitmap_clear)
    then show ?thesis
      using b d Some by (simp add: and_exp_eq_0_iff_not_bit)
  qed
qed simp

lemma fold_put_dummy_nth:
  "j < length acc \<Longrightarrow> distinct is \<Longrightarrow>
   fold (put_dummy keyof cs) is acc ! j =
     (if j \<in> set is \<and> cs ! j \<noteq> None then Some (DummyNode (keyof (the (cs ! j)))) else acc ! j)"
proof (induction "is" arbitrary: acc)
  case (Cons i "is")
  have "put_dummy keyof cs i acc ! j =
      (if j = i \<and> cs ! j \<noteq> None then Some (DummyNode (keyof (the (cs ! j)))) else acc ! j)"
    using Cons.prems(1) by (cases "cs ! i"; cases "i = j") auto
  then show ?case
    using Cons by (cases "cs ! i") auto
qed simp

lemma length_fold_put_dummy [simp]: "length (fold (put_dummy keyof cs) is acc) = length acc"
  by (induction "is" arbitrary: acc) (simp_all add: put_dummy_def split: option.splits)

lemma fold_put_dummy_all:
  assumes "length cs = 16"
  shows "fold (put_dummy keyof cs) [0..<16] no_children = map (map_option (\<lambda>c. DummyNode (keyof c))) cs"
  using assms
  by (intro nth_equalityI) (auto simp: fold_put_dummy_nth no_children_def kMaxChildren_def option.map_sel
      split: option.splits simp flip: not_None_eq)

text \<open>
  The key under which a child is stored, and the shape of a node after a round trip through
  its encoding: every child has become a dummy with that key.
\<close>

definition stored_key :: "(bytes \<Rightarrow> bytes) \<Rightarrow> node \<Rightarrow> bytes" where
  "stored_key h c =
     (case c of DummyNode k \<Rightarrow> k
      | _ \<Rightarrow> (case encodeNode h c of Inl e \<Rightarrow> [] | Inr enc \<Rightarrow> merkleValue h enc))"

fun shallow :: "(bytes \<Rightarrow> bytes) \<Rightarrow> node \<Rightarrow> node" where
  "shallow h (BranchNode k v cs) = BranchNode k v (map (map_option (\<lambda>c. DummyNode (stored_key h c))) cs)"
| "shallow h n = n"

lemma encodeChildren_wire:
  assumes "encodeChildren h cs acc = Inr enc" "\<And>c. Some c \<in> set cs \<Longrightarrow> length (stored_key h c) < 2 ^ 64"
  shows "enc = acc @ concat (map (child_wire (stored_key h)) cs)"
  using assms
proof (induction cs arbitrary: acc)
  case (Cons c cs)
  show ?case
  proof (cases c)
    case None
    then show ?thesis
      using Cons by (simp add: child_wire_def)
  next
    case (Some n)
    have e: "encode encodeBuffer (stored_key h n) = Inr (compact_bytes (int (length (stored_key h n))) @ stored_key h n)"
      using Cons.prems(2) [of n] Some by (intro buffer.encode_wire) simp
    have "\<exists>acc'. encodeChildren h cs acc' = Inr enc \<and> acc' = acc @ child_wire (stored_key h) c"
      using Cons.prems(1) e unfolding Some
      by (cases n) (auto simp: stored_key_def child_wire_def elim!: rbind_InrE)
    then have "enc = (acc @ child_wire (stored_key h) c) @ concat (map (child_wire (stored_key h)) cs)"
      using Cons.prems(2) by (intro Cons.IH) auto
    then show ?thesis
      by simp
  qed
qed simp

text \<open>
  Well-formed nodes: nibble keys, sixteen child slots, and sizes that fit the length prefixes.
\<close>

fun node_ok :: "(bytes \<Rightarrow> bytes) \<Rightarrow> node \<Rightarrow> bool" where
  "node_ok h (LeafNode k v) \<longleftrightarrow> nibbles k \<and> (\<exists>x. v = Some x \<and> length x < 2 ^ 64)"
| "node_ok h (BranchNode k v cs) \<longleftrightarrow>
     nibbles k \<and> (\<forall>x. v = Some x \<longrightarrow> length x < 2 ^ 64) \<and> length cs = 16 \<and>
     (\<forall>c. Some c \<in> set cs \<longrightarrow> length (stored_key h c) < 2 ^ 64)"
| "node_ok h (DummyNode d) \<longleftrightarrow> False"

lemma concat_map_nth: "concat (map (\<lambda>j. f (xs ! j)) [0..<length xs]) = concat (map f xs)"
proof -
  have "map (\<lambda>j. f (xs ! j)) [0..<length xs] = map f xs"
    by (intro nth_equalityI) simp_all
  then show ?thesis
    by simp
qed

lemma encode_leaf_form:
  assumes "encodeLeaf k v = Inr enc" "node_ok h (LeafNode k v)"
  obtains hb x where "encodeHeader (LeafNode k v) = Inr hb" "v = Some x"
    "enc = hb @ nibblesToKey k @ compact_bytes (int (length x)) @ x"
  using assms by (auto simp: encodeLeaf_def buffer.encode_wire elim!: rbind_InrE)

lemma encode_branch_form:
  assumes "encodeNode h (BranchNode k v cs) = Inr enc" "node_ok h (BranchNode k v cs)"
  obtains hb where "encodeHeader (BranchNode k v cs) = Inr hb"
    "enc = hb @ nibblesToKey k @ ushortToBytes (childrenBitmap cs) @
       (case v of None \<Rightarrow> [] | Some x \<Rightarrow> compact_bytes (int (length x)) @ x) @
       concat (map (child_wire (stored_key h)) cs)"
proof -
  obtain e where e: "encodeBranch_head k v cs = Inr e" "encodeChildren h cs e = Inr enc"
    using assms(1) by (auto elim!: rbind_InrE)
  have "enc = e @ concat (map (child_wire (stored_key h)) cs)"
    using e(2) assms(2) by (intro encodeChildren_wire) auto
  then show ?thesis
    using e(1) assms(2) that
    by (cases v) (auto simp: encodeBranch_head_def buffer.encode_wire Let_def elim!: rbind_InrE)
qed

lemma decodeBranch_wire:
  assumes "length cs = 16" "\<And>c. Some c \<in> set cs \<Longrightarrow> length (keyof c) < 2 ^ 64"
    and "\<And>x. v = Some x \<Longrightarrow> length x < 2 ^ 64"
    and "ty = (if v \<noteq> None then BranchWithValue else BranchEmptyValue)"
  shows "decodeBranch ty k (ushortToBytes (childrenBitmap cs) @
       (case v of None \<Rightarrow> [] | Some x \<Rightarrow> compact_bytes (int (length x)) @ x) @
       concat (map (child_wire keyof) cs)) =
     Inr (BranchNode k v (map (map_option (\<lambda>c. DummyNode (keyof c))) cs))"
proof -
  let ?cw = "concat (map (\<lambda>j. child_wire keyof (cs ! j)) [0..<16])"
  have cw: "concat (map (child_wire keyof) cs) = ?cw"
    using concat_map_nth [of "child_wire keyof" cs] assms(1) by simp
  have ch: "decodeChildren [0..<16] (childrenBitmap cs) ss no_children =
      Inr (map (map_option (\<lambda>c. DummyNode (keyof c))) cs)" if "rest ss = ?cw" for ss
    using decodeChildren_eq [of "[0..<16]" cs keyof "childrenBitmap cs" ss "[]" no_children] that assms
    by (simp add: bit_childrenBitmap fold_put_dummy_all) (metis nth_mem)
  show ?thesis
  proof (cases v)
    case None
    then show ?thesis
      using assms(4) ch ushortToBytes_bitmap [of "childrenBitmap cs"]
      by (simp add: decodeBranch_def stream_hasMore_def ushortToBytes_def cw scale_simps kMaxChildren_def)
  next
    case (Some x)
    let ?w = "compact_bytes (int (length x)) @ x"
    have "decodeBuffer [] (ScaleDecoderStream (?w @ ?cw)) = Inr (x, advance (length ?w) (ScaleDecoderStream (?w @ ?cw)))"
      using assms(3) Some by (intro buffer.dec_wire) (simp_all add: scale_simps)
    then show ?thesis
      using assms(4) ch ushortToBytes_bitmap [of "childrenBitmap cs"] Some
      by (simp add: decodeBranch_def stream_hasMore_def ushortToBytes_def cw scale_simps kMaxChildren_def)
  qed
qed

lemma decodeNode_encodeNode:
  assumes "encodeNode h n = Inr enc" "node_ok h n"
  shows "decodeNode enc = Inr (shallow h n)"
proof (cases n)
  case (LeafNode k v)
  obtain hb x where f: "encodeHeader (LeafNode k v) = Inr hb" "v = Some x"
      "enc = hb @ nibblesToKey k @ compact_bytes (int (length x)) @ x"
    using assms unfolding LeafNode by (auto elim: encode_leaf_form)
  then show ?thesis
    using assms(2) decodeHeader_encodeHeader [OF f(1)] decodePartialKey_nibblesToKey [of k]
      buffer.decode_wire [of x "[]"]
    by (simp add: LeafNode decodeNode_def)
next
  case (BranchNode k v cs)
  obtain hb where f: "encodeHeader (BranchNode k v cs) = Inr hb"
      "enc = hb @ nibblesToKey k @ ushortToBytes (childrenBitmap cs) @
       (case v of None \<Rightarrow> [] | Some x \<Rightarrow> compact_bytes (int (length x)) @ x) @
       concat (map (child_wire (stored_key h)) cs)"
    using assms unfolding BranchNode by (rule encode_branch_form)
  have "decodeBranch (if v \<noteq> None then BranchWithValue else BranchEmptyValue) k
      (ushortToBytes (childrenBitmap cs) @
       (case v of None \<Rightarrow> [] | Some x \<Rightarrow> compact_bytes (int (length x)) @ x) @
       concat (map (child_wire (stored_key h)) cs)) =
     Inr (BranchNode k v (map (map_option (\<lambda>c. DummyNode (stored_key h c))) cs))"
    using assms(2) unfolding BranchNode by (intro decodeBranch_wire) auto
  then show ?thesis
    using assms(2) decodeHeader_encodeHeader [OF f(1)] decodePartialKey_nibblesToKey [of k]
    by (auto simp: BranchNode decodeNode_def f(2))
next
  case (DummyNode d)
  then show ?thesis
    using assms by simp
qed

text \<open>
  A node that fits the format: nibble keys of at most 65535 nibbles, sixteen child slots,
  leaves with a value, and values and stored keys below \<open>2 ^ 64\<close> bytes. Encoding succeeds on
  every such node.
\<close>

fun node_fits :: "node \<Rightarrow> bool" where
  "node_fits (LeafNode k v) \<longleftrightarrow>
     nibbles k \<and> length k \<le> 0xFFFF \<and> (case v of None \<Rightarrow> False | Some x \<Rightarrow> length x < 2 ^ 64)"
| "node_fits (BranchNode k v cs) \<longleftrightarrow>
     nibbles k \<and> length k \<le> 0xFFFF \<and> (case v of None \<Rightarrow> True | Some x \<Rightarrow> length x < 2 ^ 64) \<and>
     length cs = 16 \<and> list_all (\<lambda>c. case c of None \<Rightarrow> True | Some c \<Rightarrow> node_fits c) cs"
| "node_fits (DummyNode d) \<longleftrightarrow> length d < 2 ^ 64"

lemma encodeHeader_total: "length (key_nibbles n) \<le> 0xFFFF \<Longrightarrow> \<not> isDummy n \<Longrightarrow> \<exists>bs. encodeHeader n = Inr bs"
  by (cases n) (auto simp: encodeHeader_def Let_def)

lemma merkleValue_length: "(\<And>x. length (h x) = 32) \<Longrightarrow> length (merkleValue h enc) \<le> 32"
  by (simp add: merkleValue_def)

lemma encode_buffer_total: "length b < 2 ^ 64 \<Longrightarrow> \<exists>e. encode encodeBuffer b = Inr e"
  by (simp add: buffer.encode_wire)

lemma encodeNode_total:
  shows "(\<And>x. length (h x) = 32) \<Longrightarrow> node_fits n \<Longrightarrow> \<not> isDummy n \<Longrightarrow> \<exists>enc. encodeNode h n = Inr enc"
    and "(\<And>x. length (h x) = 32) \<Longrightarrow>
      list_all (\<lambda>c. case c of None \<Rightarrow> True | Some c \<Rightarrow> node_fits c) cs \<Longrightarrow> \<exists>enc. encodeChildren h cs acc = Inr enc"
proof (induction h n and h cs acc rule: encodeNode_encodeChildren.induct)
  case (1 h k v cs)
  obtain hb where "encodeHeader (BranchNode k v cs) = Inr hb"
    using encodeHeader_total [of "BranchNode k v cs"] 1(3) by auto
  then obtain e where e: "encodeBranch_head k v cs = Inr e"
    using 1(3) by (cases v) (auto simp: encodeBranch_head_def buffer.encode_wire)
  with 1 show ?case
    by auto
next
  case (2 h k v)
  then show ?case
    using encodeHeader_total [of "LeafNode k v"] by (cases v) (auto simp: encodeLeaf_def buffer.encode_wire)
next
  case (6 h child cs encoding)
  show ?case
  proof (cases "isDummy child")
    case True
    then show ?thesis
      using 6 encode_buffer_total [of "db_key child"] by (cases child) auto
  next
    case False
    then obtain enc where "encodeNode h child = Inr enc"
      using 6 by auto
    moreover have "length (merkleValue h enc) < 2 ^ 64"
      using merkleValue_length [of h enc] 6(4) by simp
    ultimately show ?thesis
      using 6 encode_buffer_total [of "merkleValue h enc"] False by auto
  qed
qed simp_all

lemma stored_key_length:
  assumes "\<And>x. length (h x) = 32" "node_fits c"
  shows "length (stored_key h c) < 2 ^ 64"
proof -
  have "length (case encodeNode h c of Inl e \<Rightarrow> [] | Inr enc \<Rightarrow> merkleValue h enc) \<le> 32"
    using merkleValue_length [of h] assms(1) by (simp split: sum.splits)
  then show ?thesis
    using assms(2) by (cases c) (simp_all add: stored_key_def)
qed

lemma node_fits_ok:
  assumes "\<And>x. length (h x) = 32" "node_fits n" "\<not> isDummy n"
  shows "node_ok h n"
  using assms
  by (cases n) (auto simp: list_all_iff stored_key_length [of h, simplified] split: option.splits)

section \<open>Properties\<close>

text \<open>
  C6. For a hash of 32 bytes, encoding a node that fits the format succeeds, and decoding the
  bytes yields the node with every child replaced by a dummy that carries the key under which
  the child is stored: type, partial key of any length up to 65535 nibbles, value and child
  positions survive.
\<close>

theorem node_codec_roundtrip:
  assumes "\<forall>x. length (h x) = 32" "node_fits n" "\<not> isDummy n"
  shows "\<exists>enc. encodeNode h n = Inr enc \<and> decodeNode enc = Inr (shallow h n)"
proof -
  obtain enc where "encodeNode h n = Inr enc"
    using encodeNode_total(1) [of h n] assms by auto
  then show ?thesis
    using decodeNode_encodeNode node_fits_ok assms by blast
qed

theorem node_codec_roundtrip_witness:
  "let h = (\<lambda>x. replicate 32 7); n = BranchNode [1, 2] (Some [9]) (no_children[3 := Some (LeafNode [5] (Some [8]))])
   in (\<forall>x. length (h x) = 32) \<and> node_fits n \<and> \<not> isDummy n \<and>
      (\<exists>enc. encodeNode h n = Inr enc \<and> decodeNode enc = Inr (shallow h n))"
  using node_codec_roundtrip [of "\<lambda>x. replicate 32 7"
      "BranchNode [1, 2] (Some [9]) (no_children[3 := Some (LeafNode [5] (Some [8]))])"]
  by (simp add: no_children_def kMaxChildren_def list_all_length nth_list_update)

end
