(* ===== verification/Trie_Ops.thy ===== *)
theory Trie_Ops
  imports Trie_Node "HOL-Library.Sublist"
begin

text \<open>
  The trie operations of \<^verbatim>\<open>src/storage/trie/supergenius_trie/supergenius_trie_impl.cpp\<close>. A trie is
  its root, \<open>None\<close> when it is empty. The functor that obtains the child of a branch is an
  argument: it is applied to the child found in the slot. Reading a key behind its end, or a
  child of a null pointer, which the source does not guard, is the outcome \<open>OUT_OF_RANGE\<close>.
\<close>

section \<open>Definitions\<close>

type_synonym retriever = "node \<Rightarrow> trie_error + node option"

definition defaultChildRetriever :: retriever where
  "defaultChildRetriever c = Inr (Some c)"

definition children_at :: "node option list \<Rightarrow> byte \<Rightarrow> trie_error + node option" where
  "children_at cs idx = (if unat idx < length cs then Inr (cs ! unat idx) else Inl OUT_OF_RANGE)"

definition set_child :: "node option list \<Rightarrow> byte \<Rightarrow> node option \<Rightarrow> trie_error + node option list" where
  "set_child cs idx n = (if unat idx < length cs then Inr (cs[unat idx := n]) else Inl OUT_OF_RANGE)"

definition nibble_at :: "bytes \<Rightarrow> nat \<Rightarrow> trie_error + byte" where
  "nibble_at k i = (if i < length k then Inr (k ! i) else Inl OUT_OF_RANGE)"

fun set_key :: "bytes \<Rightarrow> node \<Rightarrow> node" where
  "set_key k (LeafNode k' v) = LeafNode k v"
| "set_key k (BranchNode k' v cs) = BranchNode k v cs"
| "set_key k (DummyNode d) = DummyNode d"

definition retrieveChild :: "retriever \<Rightarrow> node option list \<Rightarrow> byte \<Rightarrow> trie_error + node option" where
  "retrieveChild ret cs idx =
     rbind (children_at cs idx) (\<lambda>child. case child of None \<Rightarrow> Inr None | Some c \<Rightarrow> ret c)"

fun getCommonPrefixLength :: "bytes \<Rightarrow> bytes \<Rightarrow> nat" where
  "getCommonPrefixLength (a # as) (b # bs) = (if a \<noteq> b then 0 else Suc (getCommonPrefixLength as bs))"
| "getCommonPrefixLength _ _ = 0"

lemma getCommonPrefixLength_le: "getCommonPrefixLength a b \<le> length a" "getCommonPrefixLength a b \<le> length b"
  by (induction a b rule: getCommonPrefixLength.induct) auto

text \<open>The leaf case of \<^verbatim>\<open>insert\<close>: a leaf becomes a branch unless the keys agree.\<close>

definition insert_leaf :: "bytes \<Rightarrow> bytes option \<Rightarrow> bytes \<Rightarrow> node \<Rightarrow> trie_error + node" where
  "insert_leaf pk pv k n =
     (let len = getCommonPrefixLength k pk in
      if pk = k \<and> length k = len then Inr (set_key k n)
      else if length k = len then
        (if length pk > length k
         then rmap (BranchNode (take len k) (node_value n))
                (set_child no_children (pk ! len) (Some (LeafNode (drop (len + 1) pk) pv)))
         else Inr (BranchNode (take len k) (node_value n) no_children))
      else
        let n = set_key (drop (len + 1) k) n in
        if len = length pk then
          rmap (BranchNode (take len k) pv) (set_child no_children (k ! len) (Some n))
        else
          rbind (set_child no_children (pk ! len) (Some (LeafNode (drop (len + 1) pk) pv))) (\<lambda>cs.
            rmap (BranchNode (take len k) None) (set_child cs (k ! len) (Some n))))"

lemma drop_common_less: "getCommonPrefixLength k pk = length pk \<Longrightarrow> k \<noteq> pk \<Longrightarrow> length k - Suc (length pk) < length k"
  by (cases k) (auto simp: getCommonPrefixLength_le)

text \<open>
  \<^verbatim>\<open>insert\<close> and \<^verbatim>\<open>updateBranch\<close>; the calls of \<^verbatim>\<open>insert\<close> with a null parent only set the key.
\<close>

function insert_node :: "retriever \<Rightarrow> node option \<Rightarrow> bytes \<Rightarrow> node \<Rightarrow> trie_error + node"
  and updateBranch :: "retriever \<Rightarrow> bytes \<Rightarrow> bytes option \<Rightarrow> node option list \<Rightarrow> bytes \<Rightarrow> node \<Rightarrow> trie_error + node" where
  "insert_node ret None k n = Inr (set_key k n)"
| "insert_node ret (Some (BranchNode pk pv cs)) k n = updateBranch ret pk pv cs k n"
| "insert_node ret (Some (LeafNode pk pv)) k n = insert_leaf pk pv k n"
| "insert_node ret (Some (DummyNode d)) k n = Inl INVALID_NODE_TYPE"
| "updateBranch ret pk pv cs k n =
     (let len = getCommonPrefixLength k pk in
      if len = length pk then
        (if k = pk then Inr (BranchNode pk (node_value n) cs)
         else
           rbind (retrieveChild ret cs (k ! len)) (\<lambda>child.
             case child of
               Some c \<Rightarrow>
                 rbind (insert_node ret (Some c) (drop (len + 1) k) n) (\<lambda>n.
                   rmap (BranchNode pk pv) (set_child cs (k ! len) (Some n)))
             | None \<Rightarrow> rmap (BranchNode pk pv) (set_child cs (k ! len) (Some (set_key (drop (len + 1) k) n)))))
      else
        rbind (set_child no_children (pk ! len) (Some (BranchNode (drop (len + 1) pk) pv cs))) (\<lambda>bs.
          if length k \<le> len then Inr (BranchNode (take len k) (node_value n) bs)
          else rmap (BranchNode (take len k) None)
                 (set_child bs (k ! len) (Some (set_key (drop (len + 1) k) n)))))"
  by pat_completeness auto
termination
proof (relation "measure (case_sum (\<lambda>(ret, p, k, n). 2 * length k + 1) (\<lambda>(ret, pk, pv, cs, k, n). 2 * length k))",
    goal_cases)
  case (3 ret pk pv cs k n len child c)
  then show ?case
    using drop_common_less [of k pk] by auto
qed simp_all

function getNode :: "retriever \<Rightarrow> node option \<Rightarrow> bytes \<Rightarrow> trie_error + node option" where
  "getNode ret None k = Inr None"
| "getNode ret (Some (BranchNode pk pv cs)) k =
     (let len = getCommonPrefixLength pk k in
      if pk = k \<or> k = [] then Inr (Some (BranchNode pk pv cs))
      else if take len pk = k \<and> length k < length pk then Inr None
      else
        rbind (nibble_at k len) (\<lambda>idx.
        rbind (retrieveChild ret cs idx) (\<lambda>n. getNode ret n (drop (len + 1) k))))"
| "getNode ret (Some (LeafNode pk pv)) k = Inr (if pk = k then Some (LeafNode pk pv) else None)"
| "getNode ret (Some (DummyNode d)) k = Inl INVALID_NODE_TYPE"
  by pat_completeness auto
termination
  by (relation "measure (\<lambda>(ret, p, k). length k)") auto

function getPath :: "retriever \<Rightarrow> node option \<Rightarrow> bytes \<Rightarrow> trie_error + (node \<times> byte) list" where
  "getPath ret None k = Inl NO_VALUE"
| "getPath ret (Some (BranchNode pk pv cs)) k =
     (let len = getCommonPrefixLength pk k in
      if pk = k \<or> k = [] then Inr []
      else if take len pk = k \<and> length k < length pk then Inr []
      else
        rbind (nibble_at k len) (\<lambda>idx.
        rbind (retrieveChild ret cs idx) (\<lambda>n.
        rbind (getPath ret n (drop (len + 1) k)) (\<lambda>path.
          Inr ((BranchNode pk pv cs, idx) # path)))))"
| "getPath ret (Some (LeafNode pk pv)) k = (if pk = k then Inr [] else Inl NO_VALUE)"
| "getPath ret (Some (DummyNode d)) k = Inl INVALID_NODE_TYPE"
  by pat_completeness auto
termination
  by (relation "measure (\<lambda>(ret, p, k). length k)") auto

text \<open>The loop that finds the index of the only child from the bitmap.\<close>

fun only_child_loop :: "nat \<Rightarrow> nat \<Rightarrow> u16 \<Rightarrow> nat" where
  "only_child_loop 0 idx bitmap = idx"
| "only_child_loop (Suc n) idx bitmap =
     (let bitmap = drop_bit 1 bitmap in
      if bitmap = 0 then idx else only_child_loop n (idx + 1) bitmap)"

definition handleDeletion :: "retriever \<Rightarrow> bytes \<Rightarrow> bytes option \<Rightarrow> node option list \<Rightarrow> node \<Rightarrow> bytes \<Rightarrow> trie_error + node" where
  "handleDeletion ret pk pv cs newRoot k =
     (let len = getCommonPrefixLength k pk; bitmap = childrenBitmap cs in
      if bitmap = 0 \<and> pv \<noteq> None then Inr (LeafNode (take len k) pv)
      else if childrenNum cs = 1 \<and> pv = None then
        let idx = of_nat (only_child_loop 16 0 bitmap) in
        rbind (retrieveChild ret cs idx) (\<lambda>child.
          case child of
            None \<Rightarrow> Inl OUT_OF_RANGE
          | Some (LeafNode ck cv) \<Rightarrow> Inr (LeafNode (pk @ idx # ck) cv)
          | Some (BranchNode ck cv ccs) \<Rightarrow> Inr (BranchNode (pk @ idx # ck) cv ccs)
          | Some (DummyNode d) \<Rightarrow> Inr newRoot)
      else Inr newRoot)"

function deleteNode :: "retriever \<Rightarrow> node option \<Rightarrow> bytes \<Rightarrow> trie_error + node option" where
  "deleteNode ret None k = Inr None"
| "deleteNode ret (Some (BranchNode pk pv cs)) k =
     (let len = getCommonPrefixLength pk k in
      if pk = k \<or> k = [] then rmap Some (handleDeletion ret pk None cs (BranchNode pk None cs) k)
      else
        rbind (nibble_at k len) (\<lambda>idx.
        rbind (retrieveChild ret cs idx) (\<lambda>child.
        rbind (deleteNode ret child (drop (len + 1) k)) (\<lambda>n.
        rbind (set_child cs idx n) (\<lambda>cs.
          rmap Some (handleDeletion ret pk pv cs (BranchNode pk pv cs) k))))))"
| "deleteNode ret (Some (LeafNode pk pv)) k =
     Inr (if pk = k \<or> k = [] then None else Some (LeafNode pk pv))"
| "deleteNode ret (Some (DummyNode d)) k = Inl INVALID_NODE_TYPE"
  by pat_completeness auto
termination
  by (relation "measure (\<lambda>(ret, p, k). length k)") auto

function detachNode :: "retriever \<Rightarrow> node option \<Rightarrow> bytes \<Rightarrow> trie_error + node option" where
  "detachNode ret None prefix_nibbles = Inr None"
| "detachNode ret (Some parent) prefix_nibbles =
     (let pk = key_nibbles parent in
      if length pk \<ge> length prefix_nibbles then
        Inr (if take (length prefix_nibbles) pk = prefix_nibbles then None else Some parent)
      else if take (length pk) prefix_nibbles \<noteq> pk then Inr (Some parent)
      else
        case parent of
          BranchNode pk pv cs \<Rightarrow>
            let len = getCommonPrefixLength pk prefix_nibbles in
            rbind (retrieveChild ret cs (prefix_nibbles ! len)) (\<lambda>child.
              if child = None then Inr (Some parent)
              else
                rbind (detachNode ret child (drop (len + 1) prefix_nibbles)) (\<lambda>n.
                  rmap (\<lambda>cs. Some (BranchNode pk pv cs)) (set_child cs (prefix_nibbles ! len) n)))
        | _ \<Rightarrow> Inr (Some parent))"
  by pat_completeness auto
termination
  by (relation "measure (\<lambda>(ret, p, k). length k)") auto

definition trie_put :: "retriever \<Rightarrow> node option \<Rightarrow> bytes \<Rightarrow> bytes \<Rightarrow> trie_error + node option" where
  "trie_put ret root key value =
     (let k_enc = keyToNibbles key in
      rbind (insert_node ret root k_enc (LeafNode k_enc (Some value))) (\<lambda>n. Inr (Some n)))"

definition trie_get :: "retriever \<Rightarrow> node option \<Rightarrow> bytes \<Rightarrow> trie_error + bytes" where
  "trie_get ret root key =
     (if root = None then Inl NO_VALUE
      else rbind (getNode ret root (keyToNibbles key)) (\<lambda>n.
        case n of
          None \<Rightarrow> Inl NO_VALUE
        | Some n \<Rightarrow> (case node_value n of Some v \<Rightarrow> Inr v | None \<Rightarrow> Inl NO_VALUE)))"

definition trie_contains :: "retriever \<Rightarrow> node option \<Rightarrow> bytes \<Rightarrow> bool" where
  "trie_contains ret root key =
     (root \<noteq> None \<and>
      (case getNode ret root (keyToNibbles key) of
         Inr (Some n) \<Rightarrow> node_value n \<noteq> None
       | _ \<Rightarrow> False))"

definition trie_empty :: "node option \<Rightarrow> bool" where
  "trie_empty root \<longleftrightarrow> root = None"

definition trie_remove :: "retriever \<Rightarrow> node option \<Rightarrow> bytes \<Rightarrow> trie_error + node option" where
  "trie_remove ret root key =
     (if root = None then Inr None else deleteNode ret root (keyToNibbles key))"

definition trie_clearPrefix :: "retriever \<Rightarrow> node option \<Rightarrow> bytes \<Rightarrow> trie_error + node option" where
  "trie_clearPrefix ret root prefix_key =
     (if root = None then Inr None else detachNode ret root (keyToNibbles prefix_key))"

section \<open>The contents of a trie\<close>

text \<open>
  The map from nibble keys to values that a fully loaded trie stands for, and well-formed
  nodes: nibble keys, sixteen slots, no dummies, leaves with a value. In a canonical node
  moreover every branch carries a value or distinguishes at least two children.
\<close>

function lookup :: "node \<Rightarrow> bytes \<Rightarrow> bytes option" where
  "lookup (LeafNode pk v) k = (if k = pk then v else None)"
| "lookup (BranchNode pk v cs) k =
     (if k = pk then v
      else if prefix pk k \<and> unat (k ! length pk) < length cs then
        (case cs ! unat (k ! length pk) of None \<Rightarrow> None | Some c \<Rightarrow> lookup c (drop (length pk + 1) k))
      else None)"
| "lookup (DummyNode d) k = None"
  by pat_completeness auto
termination
proof (relation "measure (\<lambda>(n, k). length k)", goal_cases)
  case (2 pk v cs k c)
  then have "length pk < length k"
    by (metis prefix_order.less_le prefix_length_less strict_prefix_def)
  then show ?case
    by simp
qed simp

definition opt_lookup :: "node option \<Rightarrow> bytes \<Rightarrow> bytes option" where
  "opt_lookup n k = (case n of None \<Rightarrow> None | Some n \<Rightarrow> lookup n k)"

definition slot :: "node option list \<Rightarrow> byte \<Rightarrow> node option" where
  "slot cs x = (if unat x < length cs then cs ! unat x else None)"

fun trie_wf :: "node \<Rightarrow> bool" where
  "trie_wf (LeafNode k v) \<longleftrightarrow> nibbles k \<and> v \<noteq> None"
| "trie_wf (BranchNode k v cs) \<longleftrightarrow>
     nibbles k \<and> length cs = 16 \<and> list_all (\<lambda>c. case c of None \<Rightarrow> True | Some c \<Rightarrow> trie_wf c) cs"
| "trie_wf (DummyNode d) \<longleftrightarrow> False"

fun canonical :: "node \<Rightarrow> bool" where
  "canonical (LeafNode k v) \<longleftrightarrow> True"
| "canonical (BranchNode k v cs) \<longleftrightarrow>
     childrenNum cs \<ge> (if v = None then 2 else 1) \<and>
     list_all (\<lambda>c. case c of None \<Rightarrow> True | Some c \<Rightarrow> canonical c) cs"
| "canonical (DummyNode d) \<longleftrightarrow> True"

lemma opt_lookup_simps [simp]: "opt_lookup None k = None" "opt_lookup (Some n) k = lookup n k"
  by (simp_all add: opt_lookup_def)

lemma lookup_branch:
  "lookup (BranchNode pk v cs) pk = v"
  "lookup (BranchNode pk v cs) (pk @ x # r) = opt_lookup (slot cs x) r"
  "\<not> prefix pk k \<Longrightarrow> lookup (BranchNode pk v cs) k = None"
  by (auto simp: slot_def opt_lookup_def split: option.splits)

declare lookup.simps(2) [simp del]

lemma lookup_prefix: "lookup n k = Some v \<Longrightarrow> prefix (key_nibbles n) k"
  by (cases n) (auto simp: lookup_branch(3) split: if_splits intro: ccontr)

lemma lookup_no_prefix: "\<not> prefix (key_nibbles n) k \<Longrightarrow> lookup n k = None"
  using lookup_prefix by (metis not_None_eq)

lemma key_nibbles_set_key [simp]: "\<not> isDummy n \<Longrightarrow> key_nibbles (set_key q n) = q"
  by (cases n) simp_all

lemma prefix_cases [case_names other same longer]:
  assumes "\<not> prefix pk k \<Longrightarrow> P" "k = pk \<Longrightarrow> P" "\<And>x r. k = pk @ x # r \<Longrightarrow> P"
  shows P
  using assms by (metis append.right_neutral list.exhaust prefixE)

lemma lookup_set_key:
  "\<not> isDummy n \<Longrightarrow> lookup (set_key (p @ q) n) (p @ k) = lookup (set_key q n) k"
proof (cases n)
  case (BranchNode q' v cs)
  have "lookup (BranchNode (p @ q) v cs) (p @ k) = lookup (BranchNode q v cs) k"
  proof (cases q k rule: prefix_cases)
    case other
    then show ?thesis by (simp add: lookup_branch(3))
  next
    case same
    then show ?thesis by (simp add: lookup_branch)
  next
    case (longer x r)
    then show ?thesis
      using lookup_branch(2) [of "p @ q" v cs x r] lookup_branch(2) [of q v cs x r] by simp
  qed
  then show ?thesis
    using BranchNode by simp
qed simp_all

lemma slot_update: "unat x < length cs \<Longrightarrow> slot (cs[unat x := c]) y = (if y = x then c else slot cs y)"
  by (auto simp: slot_def nth_list_update word_unat_eq_iff)

lemma slot_no_children [simp]: "slot no_children x = None"
  by (simp add: slot_def no_children_def)

lemma length_no_children [simp]: "length no_children = 16"
  by (simp add: no_children_def kMaxChildren_def)

section \<open>Insertion\<close>

lemma common_prefix_split:
  obtains p k' pk' where "k = p @ k'" "pk = p @ pk'" "getCommonPrefixLength k pk = length p"
    "k' = [] \<or> pk' = [] \<or> hd k' \<noteq> hd pk'"
proof -
  have "\<exists>p k' pk'. k = p @ k' \<and> pk = p @ pk' \<and> getCommonPrefixLength k pk = length p \<and>
      (k' = [] \<or> pk' = [] \<or> hd k' \<noteq> hd pk')"
  proof (induction k pk rule: getCommonPrefixLength.induct)
    case (1 a as b bs)
    show ?case
    proof (cases "a = b")
      case True
      with 1 obtain p k' pk' where "as = p @ k'" "bs = p @ pk'" "getCommonPrefixLength as bs = length p"
          "k' = [] \<or> pk' = [] \<or> hd k' \<noteq> hd pk'"
        by auto
      with True show ?thesis
        by (intro exI [of _ "a # p"] exI [of _ k'] exI [of _ pk']) simp
    next
      case False
      then show ?thesis
        by (intro exI [of _ "[]"] exI [of _ "a # as"] exI [of _ "b # bs"]) simp
    qed
  qed simp_all
  then show ?thesis
    using that by blast
qed

lemma children_nibble [simp]:
  assumes "x < 16" "length cs = 16"
  shows "children_at cs x = Inr (slot cs x)" "set_child cs x n = Inr (cs[unat x := n])"
    "retrieveChild defaultChildRetriever cs x = Inr (slot cs x)"
  using assms
  by (simp_all add: children_at_def set_child_def slot_def word_less_nat_alt retrieveChild_def
      defaultChildRetriever_def split: option.splits)

lemma slot_nibble_update: "x < 16 \<Longrightarrow> length cs = 16 \<Longrightarrow> slot (cs[unat x := c]) y = (if y = x then c else slot cs y)"
  by (simp add: slot_update word_less_nat_alt)

lemma childrenNum_card: "childrenNum cs = card {i. i < length cs \<and> cs ! i \<noteq> None}"
  by (simp add: childrenNum_def length_filter_conv_card)

lemma childrenNum_update_ge: "childrenNum cs \<le> childrenNum (cs[i := Some c])"
proof (cases "i < length cs")
  case True
  then have "{j. j < length cs \<and> cs ! j \<noteq> None} \<subseteq> {j. j < length cs \<and> cs[i := Some c] ! j \<noteq> None}"
    by (auto simp: nth_list_update)
  then show ?thesis
    by (simp add: childrenNum_card card_mono)
next
  case False
  then have "cs[i := Some c] = cs"
    by (simp add: list_update_beyond)
  then show ?thesis
    by simp
qed

lemma childrenNum_update_one:
  assumes "i < length cs"
  shows "1 \<le> childrenNum (cs[i := Some c])"
proof -
  have "i \<in> {j. j < length cs \<and> cs[i := Some c] ! j \<noteq> None}"
    using assms by simp
  then have "{j. j < length cs \<and> cs[i := Some c] ! j \<noteq> None} \<noteq> {}"
    by blast
  then show ?thesis
    by (simp add: childrenNum_card card_gt_0_iff Suc_le_eq)
qed

lemma childrenNum_update_two:
  assumes "i < length cs" "j < length cs" "i \<noteq> j"
  shows "2 \<le> childrenNum (cs[i := Some c, j := Some d])"
proof -
  have "{i, j} \<subseteq> {k. k < length cs \<and> cs[i := Some c, j := Some d] ! k \<noteq> None}"
    using assms by (auto simp: nth_list_update)
  then have "card {i, j} \<le> childrenNum (cs[i := Some c, j := Some d])"
    by (simp add: childrenNum_card card_mono)
  then show ?thesis
    using assms(3) by simp
qed

lemma list_all_update: "list_all P cs \<Longrightarrow> P c \<Longrightarrow> list_all P (cs[i := c])"
  using set_update_subset_insert [of cs i c] by (auto simp: list_all_iff)

lemma list_all_slot: "list_all (\<lambda>c. case c of None \<Rightarrow> True | Some c \<Rightarrow> P c) cs \<Longrightarrow> slot cs x = Some c \<Longrightarrow> P c"
  by (auto simp: slot_def list_all_length split: if_splits option.splits dest: spec)

lemma list_all_no_children [simp]: "list_all (\<lambda>c. case c of None \<Rightarrow> True | Some c \<Rightarrow> P c) no_children"
  by (simp add: no_children_def list_all_iff)

lemma nibble_less_16: "x < (16 :: byte) \<Longrightarrow> unat x < 16"
  by (simp add: word_less_nat_alt)

text \<open>
  What an insertion below a node must give: a well-formed node whose contents are those of
  the old one updated at the key, canonical if the old one was.
\<close>

definition inserted :: "node \<Rightarrow> bytes \<Rightarrow> bytes \<Rightarrow> trie_error + node \<Rightarrow> bool" where
  "inserted t k v res \<longleftrightarrow>
     (\<exists>t'. res = Inr t' \<and> trie_wf t' \<and> lookup t' = (lookup t)(k \<mapsto> v) \<and> (canonical t \<longrightarrow> canonical t'))"

text \<open>Two nodes below a common prefix: the new branch holds both.\<close>

lemma branch_two_lookup:
  assumes "x < 16" "y < 16" "x \<noteq> y" "\<not> isDummy n" "\<not> isDummy m"
  shows "lookup (BranchNode p None (no_children[unat y := Some (set_key b m), unat x := Some (set_key a n)])) k =
           (if prefix (p @ [x]) k then lookup (set_key (p @ x # a) n) k else lookup (set_key (p @ y # b) m) k)"
proof (cases p k rule: prefix_cases)
  case other
  then have "\<not> prefix (p @ y # b) k" "\<not> prefix (p @ [x]) k"
    by (auto dest: append_prefixD)
  then show ?thesis
    using other assms by (simp add: lookup_branch(3) lookup_no_prefix)
next
  case same
  then show ?thesis
    using assms by (auto simp: lookup_branch lookup_no_prefix dest: prefix_length_le)
next
  case (longer z r)
  show ?thesis
  proof (cases "z = x \<or> z = y")
    case True
    then show ?thesis
      using longer assms lookup_set_key [of n "p @ [x]" a r] lookup_set_key [of m "p @ [y]" b r]
      by (auto simp: lookup_branch slot_nibble_update)
  next
    case False
    then show ?thesis
      using longer assms by (auto simp: lookup_branch slot_nibble_update lookup_no_prefix)
  qed
qed

lemma branch_one_lookup:
  assumes "y < 16" "\<not> isDummy m"
  shows "lookup (BranchNode p v (no_children[unat y := Some (set_key b m)])) k =
           (if k = p then v else lookup (set_key (p @ y # b) m) k)"
proof (cases p k rule: prefix_cases)
  case other
  then have "\<not> prefix (p @ y # b) k" "k \<noteq> p"
    by (auto dest: append_prefixD)
  then show ?thesis
    using other assms by (simp add: lookup_branch(3) lookup_no_prefix)
next
  case (longer z r)
  then show ?thesis
    using assms lookup_set_key [of m "p @ [y]" b r]
    by (auto simp: lookup_branch slot_nibble_update lookup_no_prefix)
qed (simp add: lookup_branch)

lemma leaf_set_key: "LeafNode q v = set_key q (LeafNode [] v)"
  by simp

lemma inserted_I:
  assumes "res = Inr t'" "trie_wf t'" "\<And>k'. lookup t' k' = (if k' = k then Some v else lookup t k')"
    and "canonical t \<Longrightarrow> canonical t'"
  shows "inserted t k v res"
  using assms by (auto simp: inserted_def)

lemma insert_leaf_inserted:
  assumes "nibbles k" "trie_wf (LeafNode pk pv)"
  shows "inserted (LeafNode pk pv) k v (insert_leaf pk pv k (LeafNode k0 (Some v)))"
proof -
  obtain p k' pk' where s: "k = p @ k'" "pk = p @ pk'" "getCommonPrefixLength k pk = length p"
      "k' = [] \<or> pk' = [] \<or> hd k' \<noteq> hd pk'"
    by (rule common_prefix_split)
  consider (same) "k' = []" "pk' = []" | (above) y b where "k' = []" "pk' = y # b"
    | (below) x a where "k' = x # a" "pk' = []" | (fork) x a y b where "k' = x # a" "pk' = y # b" "x \<noteq> y"
    using s(4) by (cases k'; cases pk') auto
  then show ?thesis
  proof cases
    case same
    then show ?thesis
      using s assms by (intro inserted_I) (auto simp: insert_leaf_def)
  next
    case above
    then have y: "y < 16" "nibbles b" "nibbles p"
      using s(2) assms(2) by simp_all
    have "lookup (BranchNode p (Some v) (no_children[unat y := Some (LeafNode b pv)])) q =
        (if q = k then Some v else lookup (LeafNode pk pv) q)" for q
      using branch_one_lookup [OF y(1), of "LeafNode [] pv" p "Some v" b q] s(1,2) above by simp
    then show ?thesis
      using s assms y above childrenNum_update_one [of "unat y" no_children]
      by (intro inserted_I) (auto simp: insert_leaf_def Let_def list_all_update nibble_less_16)
  next
    case below
    then have x: "x < 16" "nibbles a" "nibbles p"
      using s(1) assms(1) by simp_all
    have "lookup (BranchNode p pv (no_children[unat x := Some (LeafNode a (Some v))])) q =
        (if q = k then Some v else lookup (LeafNode pk pv) q)" for q
      using branch_one_lookup [OF x(1), of "LeafNode [] (Some v)" p pv a q] s(1,2) below by auto
    then show ?thesis
      using s assms x below childrenNum_update_one [of "unat x" no_children]
      by (intro inserted_I) (auto simp: insert_leaf_def Let_def list_all_update nibble_less_16)
  next
    case fork
    then have x: "x < 16" "nibbles a" "nibbles p" "y < 16" "nibbles b"
      using s(1,2) assms by simp_all
    have "lookup (BranchNode p None (no_children[unat y := Some (LeafNode b pv), unat x := Some (LeafNode a (Some v))])) q =
        (if q = k then Some v else lookup (LeafNode pk pv) q)" for q
      using branch_two_lookup [OF x(1,4) fork(3), of "LeafNode [] (Some v)" "LeafNode [] pv" p b a q] s(1,2) fork
      by (auto simp: prefix_def)
    then show ?thesis
      using s assms x fork childrenNum_update_two [of "unat y" no_children "unat x"]
      by (intro inserted_I) (auto simp: insert_leaf_def Let_def list_all_update nibble_less_16 word_unat_eq_iff)
  qed
qed

lemma branch_update_lookup:
  assumes "x < 16" "length cs = 16"
    and "\<And>r. opt_lookup c' r = (if r = a then w else opt_lookup (slot cs x) r)"
  shows "lookup (BranchNode pk pv (cs[unat x := c'])) q =
           (if q = pk @ x # a then w else lookup (BranchNode pk pv cs) q)"
proof (cases pk q rule: prefix_cases)
  case (longer z r)
  then show ?thesis
    using assms by (auto simp: lookup_branch slot_nibble_update)
qed (auto simp: lookup_branch)

lemma updateBranch_below:
  assumes "trie_wf (BranchNode pk pv cs)" "nibbles (x # a)"
    and "\<And>c. slot cs x = Some c \<Longrightarrow>
      inserted c a v (insert_node defaultChildRetriever (Some c) a (LeafNode k0 (Some v)))"
  shows "inserted (BranchNode pk pv cs) (pk @ x # a) v
      (updateBranch defaultChildRetriever pk pv cs (pk @ x # a) (LeafNode k0 (Some v)))"
proof -
  have x: "x < 16" "length cs = 16" "nibbles a" "nibbles pk"
    using assms(1,2) by simp_all
  have gp: "getCommonPrefixLength (pk @ x # a) pk = length pk"
    by (induction pk) auto
  obtain c' where c': "trie_wf c'" "\<And>r. lookup c' r = (if r = a then Some v else opt_lookup (slot cs x) r)"
      "canonical (BranchNode pk pv cs) \<Longrightarrow> canonical c'"
      "updateBranch defaultChildRetriever pk pv cs (pk @ x # a) (LeafNode k0 (Some v)) =
         Inr (BranchNode pk pv (cs[unat x := Some c']))"
  proof (cases "slot cs x")
    case None
    then show ?thesis
      using x gp that [of "LeafNode a (Some v)"] by (simp add: Let_def)
  next
    case (Some c)
    then obtain c' where "insert_node defaultChildRetriever (Some c) a (LeafNode k0 (Some v)) = Inr c'"
        "trie_wf c'" "lookup c' = (lookup c)(a \<mapsto> v)" "canonical c \<longrightarrow> canonical c'"
      using assms(3) by (auto simp: inserted_def)
    then show ?thesis
      using x gp Some that [of c'] list_all_slot [of canonical cs x c] by (auto simp: Let_def)
  qed
  have "lookup (BranchNode pk pv (cs[unat x := Some c'])) q =
      (if q = pk @ x # a then Some v else lookup (BranchNode pk pv cs) q)" for q
    using x c'(2) by (intro branch_update_lookup) auto
  then show ?thesis
    using c' x assms(1) childrenNum_update_ge [of cs "unat x" c']
    by (intro inserted_I [OF c'(4)]) (auto simp: list_all_update split: if_splits)
qed

lemma updateBranch_split:
  assumes "trie_wf (BranchNode (p @ y # b) pv cs)" "nibbles (p @ k')" "k' = [] \<or> hd k' \<noteq> y"
    and "getCommonPrefixLength (p @ k') (p @ y # b) = length p"
  shows "inserted (BranchNode (p @ y # b) pv cs) (p @ k') v
      (updateBranch defaultChildRetriever (p @ y # b) pv cs (p @ k') (LeafNode k0 (Some v)))"
proof -
  have y: "y < 16" "length cs = 16" "nibbles b" "nibbles p" "trie_wf (BranchNode b pv cs)"
    using assms(1) by simp_all
  show ?thesis
  proof (cases k')
    case Nil
    have "lookup (BranchNode p (Some v) (no_children[unat y := Some (BranchNode b pv cs)])) q =
        (if q = p then Some v else lookup (BranchNode (p @ y # b) pv cs) q)" for q
      using branch_one_lookup [OF y(1), of "BranchNode [] pv cs" p "Some v" b q] by simp
    then show ?thesis
      using assms(4) y Nil childrenNum_update_one [of "unat y" no_children]
      by (intro inserted_I) (auto simp: Let_def list_all_update nibble_less_16)
  next
    case (Cons x a)
    then have x: "x < 16" "nibbles a" "x \<noteq> y"
      using assms(2,3) by simp_all
    have "lookup (BranchNode p None (no_children[unat y := Some (BranchNode b pv cs), unat x := Some (LeafNode a (Some v))])) q =
        (if q = p @ x # a then Some v else lookup (BranchNode (p @ y # b) pv cs) q)" for q
    proof -
      have "\<not> prefix (p @ y # b) q" if "prefix (p @ [x]) q"
        using that x(3) by (auto simp: prefix_def)
      then show ?thesis
        using branch_two_lookup [OF x(1) y(1) x(3), of "LeafNode [] (Some v)" "BranchNode [] pv cs" p b a q]
        by (auto simp: lookup_branch(3) prefix_def)
    qed
    then show ?thesis
      using assms(4) y x Cons childrenNum_update_two [of "unat y" no_children "unat x"]
      by (intro inserted_I) (auto simp: Let_def list_all_update nibble_less_16 word_unat_eq_iff)
  qed
qed

lemma updateBranch_same:
  assumes "trie_wf (BranchNode pk pv cs)"
  shows "inserted (BranchNode pk pv cs) pk v (updateBranch defaultChildRetriever pk pv cs pk (LeafNode k0 (Some v)))"
proof -
  have "getCommonPrefixLength pk pk = length pk"
    by (induction pk) auto
  moreover have "lookup (BranchNode pk (Some v) cs) q = (if q = pk then Some v else lookup (BranchNode pk pv cs) q)" for q
    by (cases pk q rule: prefix_cases) (auto simp: lookup_branch)
  ultimately show ?thesis
    using assms by (intro inserted_I) (auto split: if_splits)
qed

declare updateBranch.simps [simp del]

text \<open>
  Inserting a leaf into a well-formed trie always succeeds and updates the contents exactly
  at its key, for keys of any lengths.
\<close>

lemma insert_node_inserted:
  assumes "trie_wf t" "nibbles k"
  shows "inserted t k v (insert_node defaultChildRetriever (Some t) k (LeafNode k0 (Some v)))"
  using assms
proof (induction "length k" arbitrary: t k rule: less_induct)
  case less
  show ?case
  proof (cases t)
    case (LeafNode pk pv)
    then show ?thesis
      using less.prems insert_leaf_inserted by simp
  next
    case (BranchNode pk pv cs)
    obtain p k' pk' where s: "k = p @ k'" "pk = p @ pk'" "getCommonPrefixLength k pk = length p"
        "k' = [] \<or> pk' = [] \<or> hd k' \<noteq> hd pk'"
      by (rule common_prefix_split)
    have "inserted c a v (insert_node defaultChildRetriever (Some c) a (LeafNode k0 (Some v)))"
      if "k = pk @ x # a" "slot cs x = Some c" for x a c
      using that less BranchNode list_all_slot [of trie_wf cs x c] by (intro less.hyps) auto
    then have below: "inserted (BranchNode pk pv cs) k v (updateBranch defaultChildRetriever pk pv cs k (LeafNode k0 (Some v)))"
      if "k = pk @ x # a" for x a
      using less.prems that unfolding BranchNode that by (intro updateBranch_below) auto
    have "inserted (BranchNode pk pv cs) k v (updateBranch defaultChildRetriever pk pv cs k (LeafNode k0 (Some v)))"
    proof (cases pk')
      case Nil
      then show ?thesis
        using s below less.prems(1) updateBranch_same [of pk pv cs v k0] BranchNode by (cases k') auto
    next
      case (Cons y b)
      then show ?thesis
        using s less.prems unfolding BranchNode s(1,2) Cons by (intro updateBranch_split) auto
    qed
    then show ?thesis
      by (simp add: BranchNode)
  next
    case (DummyNode d)
    then show ?thesis
      using less.prems by simp
  qed
qed

section \<open>Reading\<close>

text \<open>
  All keys with a value below a node have \<open>m\<close> nibbles; branches then carry no values.
\<close>

fun uniform :: "nat \<Rightarrow> node \<Rightarrow> bool" where
  "uniform m (LeafNode k v) \<longleftrightarrow> length k = m"
| "uniform m (BranchNode k v cs) \<longleftrightarrow>
     v = None \<and> length k < m \<and>
     list_all (\<lambda>c. case c of None \<Rightarrow> True | Some c \<Rightarrow> uniform (m - Suc (length k)) c) cs"
| "uniform m (DummyNode d) \<longleftrightarrow> True"

lemma uniform_child: "uniform m (BranchNode pk pv cs) \<Longrightarrow> slot cs x = Some c \<Longrightarrow> uniform (m - Suc (length pk)) c"
  by (auto intro: list_all_slot [of "uniform (m - Suc (length pk))" cs x])

lemma trie_wf_child: "trie_wf (BranchNode pk pv cs) \<Longrightarrow> slot cs x = Some c \<Longrightarrow> trie_wf c"
  by (auto intro: list_all_slot [of trie_wf cs x])

lemma canonical_child: "canonical (BranchNode pk pv cs) \<Longrightarrow> slot cs x = Some c \<Longrightarrow> canonical c"
  by (auto intro: list_all_slot [of canonical cs x])

lemma lookup_uniform_length: "\<lbrakk>lookup n k = Some v; uniform m n\<rbrakk> \<Longrightarrow> length k = m"
proof (induction "length k" arbitrary: n k m rule: less_induct)
  case less
  show ?case
  proof (cases n)
    case (BranchNode pk pv cs)
    show ?thesis
    proof (cases pk k rule: prefix_cases)
      case (longer x r)
      then obtain c where c: "slot cs x = Some c" "lookup c r = Some v"
        using less.prems BranchNode by (auto simp: lookup_branch opt_lookup_def split: option.splits)
      then have "uniform (m - Suc (length pk)) c"
        using less.prems(2) BranchNode uniform_child by blast
      then have "length r = m - Suc (length pk)"
        using less.hyps [of r c] c(2) longer by simp
      then show ?thesis
        using less.prems(2) BranchNode longer by simp
    qed (use less.prems BranchNode in \<open>auto simp: lookup_branch\<close>)
  qed (use less.prems in \<open>auto split: if_splits\<close>)
qed

lemma gcpl_append: "getCommonPrefixLength (p @ a) (p @ b) = length p + getCommonPrefixLength a b"
  by (induction p) simp_all

lemma gcpl_prefix [simp]: "getCommonPrefixLength p (p @ a) = length p" "getCommonPrefixLength (p @ a) p = length p"
  using gcpl_append [of p "[]" a] gcpl_append [of p a "[]"] by (simp_all add: getCommonPrefixLength.simps)

lemma gcpl_commute: "getCommonPrefixLength a b = getCommonPrefixLength b a"
  by (induction a b rule: getCommonPrefixLength.induct) auto

definition found :: "node option \<Rightarrow> bytes option" where
  "found n = (case n of None \<Rightarrow> None | Some n \<Rightarrow> node_value n)"

text \<open>
  A key the trie can resolve: it is stored, or the trie is uniform and the key is not shorter
  than the stored keys. One step of the walk from a branch keeps this.
\<close>

definition resolves :: "node \<Rightarrow> bytes \<Rightarrow> bool" where
  "resolves t k \<longleftrightarrow> lookup t k \<noteq> None \<or> (\<exists>m. uniform m t \<and> m \<le> length k)"

lemma branch_split:
  assumes "resolves (BranchNode pk pv cs) k" "k \<noteq> pk"
  obtains p x a pk' where "k = p @ x # a" "pk = p @ pk'" "getCommonPrefixLength k pk = length p"
    "pk' = [] \<or> lookup (BranchNode pk pv cs) k = None \<and> x \<noteq> hd pk'"
proof -
  obtain p k' pk' where s: "k = p @ k'" "pk = p @ pk'" "getCommonPrefixLength k pk = length p"
      "k' = [] \<or> pk' = [] \<or> hd k' \<noteq> hd pk'"
    by (rule common_prefix_split)
  have "k' \<noteq> []"
    using assms s(1,2)
    by (cases pk') (auto simp: resolves_def lookup_branch(3) dest: prefix_length_le)
  then obtain x a where "k' = x # a"
    by (cases k') auto
  moreover have "lookup (BranchNode pk pv cs) k = None" if "pk' \<noteq> []"
    using that s \<open>k' \<noteq> []\<close> by (intro lookup_branch(3)) (cases pk'; cases k'; auto)
  ultimately show ?thesis
    using s that by auto
qed

lemma branch_step:
  assumes "trie_wf (BranchNode pk pv cs)" "nibbles k" "resolves (BranchNode pk pv cs) k" "k \<noteq> pk"
  obtains p x a where "k = p @ x # a" "prefix p pk" "getCommonPrefixLength k pk = length p" "x < 16" "nibbles a"
    "lookup (BranchNode pk pv cs) k = opt_lookup (slot cs x) a"
    "\<And>c. slot cs x = Some c \<Longrightarrow> trie_wf c \<and> resolves c a"
    "p = pk \<or> pv = None \<and> lookup (BranchNode pk pv cs) k = None"
proof -
  obtain p x a pk' where s: "k = p @ x # a" "pk = p @ pk'" "getCommonPrefixLength k pk = length p"
      "pk' = [] \<or> lookup (BranchNode pk pv cs) k = None \<and> x \<noteq> hd pk'"
    using assms(3,4) by (rule branch_split)
  have x: "x < 16" "nibbles a"
    using assms(2) s(1) by simp_all
  have u: "uniform (m - Suc (length pk)) c \<and> m - Suc (length pk) + length pk' \<le> length a \<and> pv = None"
    if "uniform m (BranchNode pk pv cs)" "m \<le> length k" "slot cs x = Some c" for m c
    using uniform_child [OF that(1,3)] that s(1,2) by auto
  have none: "lookup c a = None" if "pk' \<noteq> []" "slot cs x = Some c" for c
  proof -
    have "lookup (BranchNode pk pv cs) k = None"
      using s(4) that(1) by simp
    then obtain m where "uniform m (BranchNode pk pv cs)" "m \<le> length k"
      using assms(3) unfolding resolves_def by blast
    from u [OF this that(2)] show ?thesis
      using lookup_uniform_length [of c a] that(1) by (cases "lookup c a") fastforce+
  qed
  have l: "lookup (BranchNode pk pv cs) k = opt_lookup (slot cs x) a"
  proof (cases "pk' = []")
    case True
    then show ?thesis
      using s(1,2) by (simp add: lookup_branch)
  next
    case False
    then show ?thesis
      using none s(4) by (cases "slot cs x") auto
  qed
  have r: "trie_wf c \<and> resolves c a" if "slot cs x = Some c" for c
  proof -
    have "resolves c a"
    proof (cases "lookup (BranchNode pk pv cs) k = None")
      case True
      then obtain m where "uniform m (BranchNode pk pv cs)" "m \<le> length k"
        using assms(3) unfolding resolves_def by blast
      from u [OF this that] show ?thesis
        unfolding resolves_def by (intro disjI2 exI [of _ "m - Suc (length pk)"]) simp
    qed (use l that in \<open>simp add: resolves_def\<close>)
    then show ?thesis
      using trie_wf_child [OF assms(1) that] by simp
  qed
  have "p = pk \<or> pv = None \<and> lookup (BranchNode pk pv cs) k = None"
    using s assms(3) by (auto simp: resolves_def)
  then show ?thesis
    using that s x l r by auto
qed

text \<open>A key that the trie can resolve is looked up exactly.\<close>

lemma getNode_lookup:
  assumes "trie_wf t" "nibbles k" "resolves t k"
  shows "\<exists>n. getNode defaultChildRetriever (Some t) k = Inr n \<and> found n = lookup t k"
  using assms
proof (induction "length k" arbitrary: t k rule: less_induct)
  case less
  show ?case
  proof (cases t)
    case (BranchNode pk pv cs)
    show ?thesis
    proof (cases "k = pk")
      case True
      then show ?thesis
        by (simp add: BranchNode found_def lookup_branch)
    next
      case False
      obtain p x a where s: "k = p @ x # a" "prefix p pk" "getCommonPrefixLength k pk = length p" "x < 16" "nibbles a"
          "lookup t k = opt_lookup (slot cs x) a" "\<And>c. slot cs x = Some c \<Longrightarrow> trie_wf c \<and> resolves c a"
        using branch_step [of pk pv cs k] less.prems False unfolding BranchNode by blast
      have "\<not> (take (length p) pk = k \<and> length k < length pk)"
        using s(1,2) by (auto simp: prefix_def)
      then have "getNode defaultChildRetriever (Some t) k = getNode defaultChildRetriever (slot cs x) a"
        using False s(1,3,4) less.prems(1)
        by (auto simp: BranchNode Let_def nibble_at_def gcpl_commute [of pk])
      then show ?thesis
        using s(1,5-7) less.hyps [of a] by (cases "slot cs x") (auto simp: found_def)
    qed
  qed (use less.prems in \<open>auto simp: found_def\<close>)
qed

end
