(* ===== verification/Trie_Removal.thy ===== *)
theory Trie_Removal
  imports Trie_Ops
begin

text \<open>
  Removal of a key and of all keys with a prefix: the functions \<^verbatim>\<open>deleteNode\<close>, \<^verbatim>\<open>handleDeletion\<close> and
  \<^verbatim>\<open>detachNode\<close> of the trie remove exactly the entries they are asked to, as far as the key can be
  resolved, and keep the trie well-formed.
\<close>

unbundle bit_operations_syntax

section \<open>Removal\<close>

lemma only_child_loop_exp: "i < n \<Longrightarrow> i < 16 \<Longrightarrow> only_child_loop n idx (2 ^ i) = idx + i"
proof (induction n arbitrary: i idx)
  case (Suc n)
  show ?case
  proof (cases i)
    case 0
    then show ?thesis
      by simp
  next
    case (Suc j)
    have "drop_bit 1 (2 ^ i :: u16) = 2 ^ j"
      using Suc.prems by (intro bit_eqI) (auto simp: Suc bit_drop_bit_eq bit_exp_iff simp del: power_Suc)
    moreover have "(2 :: u16) ^ j \<noteq> 0"
      using Suc.prems Suc by simp
    ultimately show ?thesis
      using Suc.IH [of j] Suc.prems Suc by simp
  qed
qed simp

lemma childrenBitmap_zero:
  assumes "length cs = 16"
  shows "childrenBitmap cs = 0 \<longleftrightarrow> childrenNum cs = 0"
  using assms by (auto simp: bitmap_zero bit_childrenBitmap childrenNum_card)

lemma only_child:
  assumes "length cs = 16" "childrenNum cs = 1"
  obtains i where "i < 16" "cs ! i \<noteq> None" "\<And>j. j < 16 \<Longrightarrow> j \<noteq> i \<Longrightarrow> cs ! j = None"
    "only_child_loop 16 0 (childrenBitmap cs) = i"
proof -
  obtain i where i: "{j. j < length cs \<and> cs ! j \<noteq> None} = {i}"
    using assms(2) unfolding childrenNum_card by (auto simp: card_1_singleton_iff)
  have iff: "j < 16 \<and> cs ! j \<noteq> None \<longleftrightarrow> j = i" for j
    using i assms(1) by (metis (mono_tags, lifting) mem_Collect_eq singleton_iff)
  then have i16: "i < 16" "cs ! i \<noteq> None"
    by blast+
  have "childrenBitmap cs = 2 ^ i"
    using i16 iff by (intro bit_eqI) (auto simp: bit_childrenBitmap bit_exp_iff)
  moreover have "\<And>j. j < 16 \<Longrightarrow> j \<noteq> i \<Longrightarrow> cs ! j = None"
    using iff by blast
  ultimately show ?thesis
    using that i16 only_child_loop_exp [of i 16 0] by simp
qed

lemma merge_lookup:
  assumes "slot cs x = Some c" "\<And>y. y \<noteq> x \<Longrightarrow> slot cs y = None" "\<not> isDummy c"
  shows "lookup (set_key (pk @ x # key_nibbles c) c) = lookup (BranchNode pk None cs)"
proof
  fix q
  have c: "set_key (key_nibbles c) c = c"
    using assms(3) by (cases c) auto
  show "lookup (set_key (pk @ x # key_nibbles c) c) q = lookup (BranchNode pk None cs) q"
  proof (cases pk q rule: prefix_cases)
    case other
    then have "\<not> prefix (pk @ x # key_nibbles c) q"
      by (auto dest: append_prefixD)
    then show ?thesis
      using other assms(3) by (simp add: lookup_branch(3) lookup_no_prefix)
  next
    case same
    then show ?thesis
      using assms(3) by (auto simp: lookup_branch lookup_no_prefix dest: prefix_length_le)
  next
    case (longer z r)
    then show ?thesis
      using assms lookup_set_key [of c "pk @ [x]" "key_nibbles c" r] c
      by (cases "z = x") (auto simp: lookup_branch lookup_no_prefix)
  qed
qed

lemma list_all_canonical_slot:
  "list_all (\<lambda>c. case c of None \<Rightarrow> True | Some c \<Rightarrow> P c) cs \<longleftrightarrow> (\<forall>i < length cs. \<forall>c. cs ! i = Some c \<longrightarrow> P c)"
  by (auto simp: list_all_length split: option.splits)

lemma canonical_set_key [simp]: "canonical (set_key q c) = canonical c"
  by (cases c) simp_all

lemma trie_wf_set_key [simp]: "nibbles q \<Longrightarrow> trie_wf c \<Longrightarrow> trie_wf (set_key q c)"
  by (cases c) simp_all

lemma trie_wf_key: "trie_wf c \<Longrightarrow> nibbles (key_nibbles c) \<and> \<not> isDummy c"
  by (cases c) simp_all

lemma handleDeletion_ok:
  assumes wf: "trie_wf (BranchNode pk pv cs)" and "pv \<noteq> None \<longrightarrow> prefix pk k"
  obtains t' where "handleDeletion defaultChildRetriever pk pv cs (BranchNode pk pv cs) k = Inr t'"
    "trie_wf t'" "lookup t' = lookup (BranchNode pk pv cs)"
    "list_all (\<lambda>c. case c of None \<Rightarrow> True | Some c \<Rightarrow> canonical c) cs \<Longrightarrow>
       pv \<noteq> None \<or> 1 \<le> childrenNum cs \<Longrightarrow> canonical t'"
proof -
  have len: "length cs = 16" "nibbles pk"
    using wf by simp_all
  consider (leaf) "childrenNum cs = 0" "pv \<noteq> None" | (merge) "childrenNum cs = 1" "pv = None"
    | (keep) "childrenNum cs \<noteq> 0 \<or> pv = None" "childrenNum cs \<noteq> 1 \<or> pv \<noteq> None"
    by blast
  then show ?thesis
  proof cases
    case leaf
    then obtain r where k: "k = pk @ r"
      using assms(2) by (auto simp: prefix_def)
    have none: "slot cs x = None" for x
      using leaf(1) len(1) by (auto simp: childrenNum_card slot_def)
    have "lookup (LeafNode pk pv) = lookup (BranchNode pk pv cs)"
    proof
      fix q show "lookup (LeafNode pk pv) q = lookup (BranchNode pk pv cs) q"
        by (cases pk q rule: prefix_cases) (auto simp: lookup_branch none)
    qed
    then show ?thesis
      using that [of "LeafNode pk pv"] leaf k len childrenBitmap_zero [of cs]
      by (simp add: handleDeletion_def)
  next
    case merge
    obtain i where i: "i < 16" "cs ! i \<noteq> None" "\<And>j. j < 16 \<Longrightarrow> j \<noteq> i \<Longrightarrow> cs ! j = None"
        "only_child_loop 16 0 (childrenBitmap cs) = i"
      using only_child [OF len(1) merge(1)] by blast
    define x :: byte where "x = of_nat i"
    have x: "unat x = i" "x < 16"
      using i(1) by (simp_all add: x_def unat_of_nat_eq word_less_nat_alt)
    obtain c where c: "slot cs x = Some c"
      using i(1,2) x len by (auto simp: slot_def)
    have others: "slot cs y = None" if "y \<noteq> x" for y
      using that i(3) [of "unat y"] x(1) len by (auto simp: slot_def word_unat_eq_iff)
    have wfc: "trie_wf c" "nibbles (key_nibbles c)" "\<not> isDummy c"
      using trie_wf_child [OF wf c] trie_wf_key [of c] by simp_all
    have "handleDeletion defaultChildRetriever pk pv cs (BranchNode pk pv cs) k =
        Inr (set_key (pk @ x # key_nibbles c) c)"
      using merge c wfc(3) len x i(4) by (cases c) (simp_all add: handleDeletion_def Let_def flip: x_def)
    then show ?thesis
      using that [of "set_key (pk @ x # key_nibbles c) c"] wfc len x c merge(2)
        merge_lookup [OF c others wfc(3)] list_all_slot [of canonical cs x c] by auto
  next
    case keep
    then have "handleDeletion defaultChildRetriever pk pv cs (BranchNode pk pv cs) k = Inr (BranchNode pk pv cs)"
      using childrenBitmap_zero [OF len(1)] by (auto simp: handleDeletion_def Let_def)
    then show ?thesis
      using that [of "BranchNode pk pv cs"] wf keep by auto
  qed
qed

lemma childrenNum_update: "childrenNum cs \<le> Suc (childrenNum (cs[i := c]))"
proof (cases "i < length cs")
  case True
  have "{j. j < length cs \<and> cs ! j \<noteq> None} \<subseteq> insert i {j. j < length cs \<and> cs[i := c] ! j \<noteq> None}"
    by (auto simp: nth_list_update_neq)
  then have "childrenNum cs \<le> card (insert i {j. j < length cs \<and> cs[i := c] ! j \<noteq> None})"
    by (simp add: childrenNum_card card_mono)
  also have "\<dots> \<le> Suc (childrenNum (cs[i := c]))"
    by (simp add: childrenNum_card card_insert_le_m1 card_insert_if)
  finally show ?thesis .
next
  case False
  then show ?thesis
    by (simp add: list_update_beyond)
qed

definition opt_all :: "(node \<Rightarrow> bool) \<Rightarrow> node option \<Rightarrow> bool" where
  "opt_all P n \<longleftrightarrow> (case n of None \<Rightarrow> True | Some n \<Rightarrow> P n)"

lemma opt_all_simps [simp]: "opt_all P None" "opt_all P (Some n) \<longleftrightarrow> P n"
  by (simp_all add: opt_all_def)

text \<open>What a removal must give, dual to \<open>inserted\<close>.\<close>

definition deleted :: "node \<Rightarrow> bytes \<Rightarrow> trie_error + node option \<Rightarrow> bool" where
  "deleted t k res \<longleftrightarrow>
     (\<exists>t'. res = Inr t' \<and> opt_all trie_wf t' \<and> opt_lookup t' = (lookup t)(k := None) \<and>
       (canonical t \<longrightarrow> opt_all canonical t'))"

lemma deletedI:
  assumes "res = Inr t'" "opt_all trie_wf t'" "\<And>q. opt_lookup t' q = (if q = k then None else lookup t q)"
    "canonical t \<Longrightarrow> opt_all canonical t'"
  shows "deleted t k res"
  using assms by (auto simp: deleted_def)

lemma delete_value:
  assumes "trie_wf (BranchNode pk pv cs)"
  shows "deleted (BranchNode pk pv cs) pk (deleteNode defaultChildRetriever (Some (BranchNode pk pv cs)) pk)"
proof -
  have wf: "trie_wf (BranchNode pk None cs)"
    using assms by simp
  obtain t' where t': "handleDeletion defaultChildRetriever pk None cs (BranchNode pk None cs) pk = Inr t'"
      "trie_wf t'" "lookup t' = lookup (BranchNode pk None cs)"
      "list_all (\<lambda>c. case c of None \<Rightarrow> True | Some c \<Rightarrow> canonical c) cs \<Longrightarrow>
         1 \<le> childrenNum cs \<Longrightarrow> canonical t'"
    using handleDeletion_ok [OF wf, of pk] by auto
  have "lookup (BranchNode pk None cs) q = (if q = pk then None else lookup (BranchNode pk pv cs) q)" for q
    by (cases pk q rule: prefix_cases) (auto simp: lookup_branch)
  then show ?thesis
    using t' by (intro deletedI [of _ "Some t'"]) (auto split: if_splits)
qed

lemma delete_below:
  assumes "trie_wf (BranchNode pk pv cs)" "nibbles k" "resolves (BranchNode pk pv cs) k" "k \<noteq> pk"
    and IH: "\<And>a c. \<lbrakk>length a < length k; trie_wf c; nibbles a; resolves c a\<rbrakk> \<Longrightarrow>
      deleted c a (deleteNode defaultChildRetriever (Some c) a)"
  shows "deleted (BranchNode pk pv cs) k (deleteNode defaultChildRetriever (Some (BranchNode pk pv cs)) k)"
proof -
  let ?t = "BranchNode pk pv cs"
  obtain p x a where s: "k = p @ x # a" "prefix p pk" "getCommonPrefixLength k pk = length p" "x < 16" "nibbles a"
      "lookup ?t k = opt_lookup (slot cs x) a" "\<And>c. slot cs x = Some c \<Longrightarrow> trie_wf c \<and> resolves c a"
      "p = pk \<or> pv = None \<and> lookup ?t k = None"
    using branch_step [OF assms(1-4)] by blast
  have len: "length cs = 16"
    using assms(1) by simp
  obtain c' where c': "deleteNode defaultChildRetriever (slot cs x) a = Inr c'" "opt_all trie_wf c'"
      "opt_lookup c' = (opt_lookup (slot cs x))(a := None)" "canonical ?t \<Longrightarrow> opt_all canonical c'"
  proof (cases "slot cs x")
    case None
    then show ?thesis
      using that [of None] by (simp add: fun_eq_iff)
  next
    case (Some c)
    then have "deleted c a (deleteNode defaultChildRetriever (Some c) a)"
      using s by (intro IH) auto
    then obtain c' where "deleteNode defaultChildRetriever (Some c) a = Inr c'" "opt_all trie_wf c'"
        "opt_lookup c' = (lookup c)(a := None)" "canonical c \<longrightarrow> opt_all canonical c'"
      unfolding deleted_def by blast
    then show ?thesis
      using that [of c'] Some canonical_child [of pk pv cs x c] by (simp add: fun_eq_iff)
  qed
  let ?cs = "cs[unat x := c']"
  have wf: "trie_wf (BranchNode pk pv ?cs)"
    using assms(1) c'(2) by (auto simp: opt_all_def intro!: list_all_update)
  have "pv \<noteq> None \<longrightarrow> prefix pk k"
    using s(1,8) by auto
  then obtain t' where t': "handleDeletion defaultChildRetriever pk pv ?cs (BranchNode pk pv ?cs) k = Inr t'"
      "trie_wf t'" "lookup t' = lookup (BranchNode pk pv ?cs)"
      "list_all (\<lambda>c. case c of None \<Rightarrow> True | Some c \<Rightarrow> canonical c) ?cs \<Longrightarrow>
         pv \<noteq> None \<or> 1 \<le> childrenNum ?cs \<Longrightarrow> canonical t'"
    using handleDeletion_ok [OF wf, of k] by blast
  have res: "deleteNode defaultChildRetriever (Some ?t) k = Inr (Some t')"
    using s(1,3,4) assms(4) c'(1) t'(1) len
    by (auto simp: Let_def nibble_at_def gcpl_commute [of pk])
  have "lookup (BranchNode pk pv ?cs) q = (if q = pk @ x # a then None else lookup ?t q)" for q
    using s(4) len c'(3) by (intro branch_update_lookup) (auto simp: fun_eq_iff)
  moreover have "lookup ?t (pk @ x # a) = None" if "p \<noteq> pk"
    using that s(6,8) by (simp add: lookup_branch)
  ultimately have "lookup t' q = (if q = k then None else lookup ?t q)" for q
    using t'(3) s(1,8) by auto
  moreover have "canonical t'" if "canonical ?t"
    using that c'(4) childrenNum_update [of cs "unat x" c']
    by (intro t'(4)) (auto simp: opt_all_def intro!: list_all_update split: if_splits)
  ultimately show ?thesis
    using t'(2) by (intro deletedI [OF res]) auto
qed

text \<open>
  Removing a key that the trie can resolve always succeeds, removes exactly that key and
  keeps a canonical trie canonical.
\<close>

lemma deleteNode_deleted:
  assumes "trie_wf t" "nibbles k" "resolves t k"
  shows "deleted t k (deleteNode defaultChildRetriever (Some t) k)"
  using assms
proof (induction "length k" arbitrary: t k rule: less_induct)
  case less
  show ?case
  proof (cases t)
    case (LeafNode pk pv)
    then have "k = [] \<longrightarrow> pk = []"
      using less.prems(3) by (auto simp: resolves_def split: if_splits)
    then show ?thesis
      using less.prems LeafNode by (intro deletedI) auto
  next
    case (BranchNode pk pv cs)
    then show ?thesis
      using less delete_value [of pk pv cs] delete_below [of pk pv cs k] by (cases "k = pk") simp_all
  qed (use less.prems in simp)
qed

section \<open>Clearing a prefix\<close>

text \<open>What clearing a prefix must give: the entries without the prefix, in a well-formed trie.\<close>

definition cleared :: "node \<Rightarrow> bytes \<Rightarrow> trie_error + node option \<Rightarrow> bool" where
  "cleared t p res \<longleftrightarrow>
     (\<exists>t'. res = Inr t' \<and> opt_all trie_wf t' \<and> (\<forall>q. opt_lookup t' q = (if prefix p q then None else lookup t q)))"

lemma cleared_keep:
  assumes "trie_wf t" "\<And>q. prefix p q \<Longrightarrow> lookup t q = None"
  shows "cleared t p (Inr (Some t))"
  using assms by (auto simp: cleared_def)

lemma detach_below:
  assumes "trie_wf (BranchNode pk pv cs)" "nibbles (pk @ x # a)"
    and IH: "\<And>c. slot cs x = Some c \<Longrightarrow> cleared c a (detachNode defaultChildRetriever (Some c) a)"
  shows "cleared (BranchNode pk pv cs) (pk @ x # a)
      (detachNode defaultChildRetriever (Some (BranchNode pk pv cs)) (pk @ x # a))"
proof (cases "slot cs x")
  case None
  then have "lookup (BranchNode pk pv cs) q = None" if "prefix (pk @ x # a) q" for q
    using that by (auto simp: prefix_def lookup_branch)
  then have "cleared (BranchNode pk pv cs) (pk @ x # a) (Inr (Some (BranchNode pk pv cs)))"
    using assms(1) by (intro cleared_keep) auto
  then show ?thesis
    using assms None by (simp add: Let_def)
next
  case (Some c)
  then obtain c' where c': "detachNode defaultChildRetriever (Some c) a = Inr c'" "opt_all trie_wf c'"
      "\<And>q. opt_lookup c' q = (if prefix a q then None else lookup c q)"
    using IH unfolding cleared_def by blast
  let ?t = "BranchNode pk pv (cs[unat x := c'])"
  have x: "x < 16" "length cs = 16"
    using assms by simp_all
  have "lookup ?t q = (if prefix (pk @ x # a) q then None else lookup (BranchNode pk pv cs) q)" for q
  proof (cases pk q rule: prefix_cases)
    case (longer z r)
    then show ?thesis
      using x c'(3) Some by (auto simp: lookup_branch slot_nibble_update)
  qed (auto simp: lookup_branch dest: append_prefixD prefix_length_le)
  moreover have "trie_wf ?t"
    using assms(1) c'(2) by (auto simp: opt_all_def intro!: list_all_update)
  moreover have "detachNode defaultChildRetriever (Some (BranchNode pk pv cs)) (pk @ x # a) = Inr (Some ?t)"
    using x Some c'(1) by (simp add: Let_def)
  ultimately show ?thesis
    unfolding cleared_def by auto
qed

lemma detachNode_cleared:
  assumes "trie_wf t" "nibbles p"
  shows "cleared t p (detachNode defaultChildRetriever (Some t) p)"
  using assms
proof (induction "length p" arbitrary: t p rule: less_induct)
  case less
  let ?pk = "key_nibbles t"
  consider (gone) "prefix p ?pk" | (other) "\<not> prefix p ?pk" "\<not> prefix ?pk p" | (below) x a where "p = ?pk @ x # a"
    by (cases ?pk p rule: prefix_cases) auto
  then show ?case
  proof cases
    case gone
    then have "lookup t q = None" if "\<not> prefix p q" for q
      using that lookup_no_prefix [of t q] prefix_order.trans by blast
    then have "cleared t p (Inr None)"
      by (auto simp: cleared_def)
    then show ?thesis
      using gone by (auto simp: Let_def prefix_def)
  next
    case other
    then have "lookup t q = None" if "prefix p q" for q
      using that prefix_same_cases lookup_no_prefix by blast
    then have "cleared t p (Inr (Some t))"
      using less.prems by (intro cleared_keep) auto
    then show ?thesis
      using other by (auto simp: Let_def prefix_def) (metis append_take_drop_id)+
  next
    case below
    show ?thesis
    proof (cases t)
      case (LeafNode pk pv)
      have "cleared t p (Inr (Some t))"
        using less.prems below LeafNode by (intro cleared_keep) (auto dest: prefix_length_le)
      then show ?thesis
        using below LeafNode by (simp add: Let_def)
    next
      case (BranchNode pk pv cs)
      have "cleared c a (detachNode defaultChildRetriever (Some c) a)" if "slot cs x = Some c" for c
        using less below BranchNode trie_wf_child [of pk pv cs x c] that by (intro less.hyps) auto
      then show ?thesis
        using less.prems below BranchNode detach_below [of pk pv cs x a] by simp
    qed (use less.prems in simp)
  qed
qed

end
