(* ===== verification/Byte_Store.thy ===== *)
theory Byte_Store
  imports Prelude "HOL-Library.AList"
begin

text \<open>
  The interface of the key-value stores and its first provider, the in-memory storage of
  \<^verbatim>\<open>src/storage/in_memory\<close>. The storage keeps its entries under the hexadecimal text of the key;
  the conversion to and from that text is done by the Boost library and is an argument, \<open>hex\<close>
  and \<open>unhex\<close>. A \<^verbatim>\<open>std::map\<close> is an association list with distinct keys.
\<close>

section \<open>Maps as an interface\<close>

text \<open>
  A store of byte strings: what its clients may rely on for the keys in \<open>valid\<close>. The abstract
  state is a finite map; a lookup of an absent key is the error \<open>absent\<close>.
\<close>

datatype map_op = Put bytes bytes | Remove bytes

fun op_key :: "map_op \<Rightarrow> bytes" where
  "op_key (Put k v) = k"
| "op_key (Remove k) = k"

fun apply_op :: "map_op \<Rightarrow> (bytes \<Rightarrow> bytes option) \<Rightarrow> bytes \<Rightarrow> bytes option" where
  "apply_op (Put k v) m = m(k \<mapsto> v)"
| "apply_op (Remove k) m = m(k := None)"

fun run_ops :: "('s \<Rightarrow> bytes \<Rightarrow> bytes \<Rightarrow> 'e + 's) \<Rightarrow> ('s \<Rightarrow> bytes \<Rightarrow> 'e + 's) \<Rightarrow> map_op list \<Rightarrow> 's \<Rightarrow> 'e + 's" where
  "run_ops put rem [] s = Inr s"
| "run_ops put rem (Put k v # ops) s = rbind (put s k v) (run_ops put rem ops)"
| "run_ops put rem (Remove k # ops) s = rbind (rem s k) (run_ops put rem ops)"

locale byte_store =
  fixes put :: "'s \<Rightarrow> bytes \<Rightarrow> bytes \<Rightarrow> 'e + 's"
    and get :: "'s \<Rightarrow> bytes \<Rightarrow> 'e + bytes"
    and rem :: "'s \<Rightarrow> bytes \<Rightarrow> 'e + 's"
    and absent :: 'e
    and valid :: "bytes \<Rightarrow> bool"
    and inv :: "'s \<Rightarrow> bool"
    and abs :: "'s \<Rightarrow> bytes \<Rightarrow> bytes option"
  assumes put_abs: "inv s \<Longrightarrow> valid k \<Longrightarrow> \<exists>s'. put s k v = Inr s' \<and> inv s' \<and> abs s' = (abs s)(k \<mapsto> v)"
    and get_abs: "inv s \<Longrightarrow> valid k \<Longrightarrow> get s k = (case abs s k of None \<Rightarrow> Inl absent | Some v \<Rightarrow> Inr v)"
    and rem_abs: "inv s \<Longrightarrow> valid k \<Longrightarrow> \<exists>s'. rem s k = Inr s' \<and> inv s' \<and> abs s' = (abs s)(k := None)"
begin

lemma get_put: "\<lbrakk>inv s; valid k; valid k'\<rbrakk> \<Longrightarrow>
    \<exists>s'. put s k v = Inr s' \<and> get s' k' = (if k' = k then Inr v else get s k')"
  using put_abs [of s k v] by (auto simp: get_abs)

lemma get_rem: "\<lbrakk>inv s; valid k; valid k'\<rbrakk> \<Longrightarrow>
    \<exists>s'. rem s k = Inr s' \<and> get s' k' = (if k' = k then Inl absent else get s k')"
  using rem_abs [of s k] by (auto simp: get_abs)

lemma run_ops_abs:
  "\<lbrakk>inv s; list_all (\<lambda>p. valid (op_key p)) ops\<rbrakk> \<Longrightarrow>
   \<exists>s'. run_ops put rem ops s = Inr s' \<and> inv s' \<and> abs s' = fold apply_op ops (abs s)"
proof (induction ops arbitrary: s)
  case (Cons p ops)
  show ?case
  proof (cases p)
    case (Put k v)
    then obtain s' where s': "put s k v = Inr s'" "inv s'" "abs s' = (abs s)(k \<mapsto> v)"
      using put_abs [of s k v] Cons.prems by auto
    obtain s'' where "run_ops put rem ops s' = Inr s''" "inv s''" "abs s'' = fold apply_op ops (abs s')"
      using Cons.IH [of s'] s'(2) Cons.prems(2) by auto
    then show ?thesis
      using Put s'(1) unfolding s'(3) by simp
  next
    case (Remove k)
    then obtain s' where s': "rem s k = Inr s'" "inv s'" "abs s' = (abs s)(k := None)"
      using rem_abs [of s k] Cons.prems by auto
    obtain s'' where "run_ops put rem ops s' = Inr s''" "inv s''" "abs s'' = fold apply_op ops (abs s')"
      using Cons.IH [of s'] s'(2) Cons.prems(2) by auto
    then show ?thesis
      using Remove s'(1) unfolding s'(3) by simp
  qed
qed simp

lemma get_run_ops:
  assumes "inv s" "list_all (\<lambda>p. valid (op_key p)) ops" "valid k"
  shows "\<exists>s'. run_ops put rem ops s = Inr s' \<and>
    get s' k = (case fold apply_op ops (abs s) k of None \<Rightarrow> Inl absent | Some v \<Rightarrow> Inr v)"
  using run_ops_abs [OF assms(1,2)] assms(3) by (auto simp: get_abs)

end

section \<open>The in-memory storage\<close>

datatype db_error = NOT_FOUND

type_synonym mem_storage = "(string \<times> bytes) list"

definition mem_get :: "(bytes \<Rightarrow> string) \<Rightarrow> mem_storage \<Rightarrow> bytes \<Rightarrow> db_error + bytes" where
  "mem_get hex st key = (case map_of st (hex key) of Some v \<Rightarrow> Inr v | None \<Rightarrow> Inl NOT_FOUND)"

definition mem_put :: "(bytes \<Rightarrow> string) \<Rightarrow> mem_storage \<Rightarrow> bytes \<Rightarrow> bytes \<Rightarrow> db_error + mem_storage" where
  "mem_put hex st key v = Inr (AList.update (hex key) v st)"

definition mem_contains :: "(bytes \<Rightarrow> string) \<Rightarrow> mem_storage \<Rightarrow> bytes \<Rightarrow> bool" where
  "mem_contains hex st key \<longleftrightarrow> map_of st (hex key) \<noteq> None"

definition mem_empty :: "mem_storage \<Rightarrow> bool" where
  "mem_empty st \<longleftrightarrow> st = []"

definition mem_remove :: "(bytes \<Rightarrow> string) \<Rightarrow> mem_storage \<Rightarrow> bytes \<Rightarrow> db_error + mem_storage" where
  "mem_remove hex st key = Inr (AList.delete (hex key) st)"

text \<open>The write batch collects entries and writes them on commit.\<close>

definition mem_batch_put :: "(bytes \<Rightarrow> string) \<Rightarrow> mem_storage \<Rightarrow> bytes \<Rightarrow> bytes \<Rightarrow> db_error + mem_storage" where
  "mem_batch_put hex batch key v = Inr (AList.update (hex key) v batch)"

definition mem_batch_remove :: "(bytes \<Rightarrow> string) \<Rightarrow> mem_storage \<Rightarrow> bytes \<Rightarrow> db_error + mem_storage" where
  "mem_batch_remove hex batch key = Inr (AList.delete (hex key) batch)"

fun mem_batch_commit :: "(bytes \<Rightarrow> string) \<Rightarrow> (string \<Rightarrow> bytes) \<Rightarrow> mem_storage \<Rightarrow> mem_storage \<Rightarrow> db_error + mem_storage" where
  "mem_batch_commit hex unhex [] st = Inr st"
| "mem_batch_commit hex unhex (e # batch) st =
     rbind (mem_put hex st (unhex (fst e)) (snd e)) (mem_batch_commit hex unhex batch)"

definition mem_abs :: "(bytes \<Rightarrow> string) \<Rightarrow> mem_storage \<Rightarrow> bytes \<Rightarrow> bytes option" where
  "mem_abs hex st key = map_of st (hex key)"

text \<open>What the hexadecimal conversion is relied on for: decoding inverts encoding.\<close>

definition hex_ok :: "(bytes \<Rightarrow> string) \<Rightarrow> (string \<Rightarrow> bytes) \<Rightarrow> bool" where
  "hex_ok hex unhex \<longleftrightarrow> (\<forall>b. unhex (hex b) = b)"

lemma hex_ok_inj: "hex_ok hex unhex \<Longrightarrow> hex a = hex b \<longleftrightarrow> a = b"
  by (metis hex_ok_def)

text \<open>Every conversion that can be inverted makes the storage a byte store.\<close>

lemma mem_byte_store:
  assumes "hex_ok hex unhex"
  shows "byte_store (mem_put hex) (mem_get hex) (mem_remove hex) NOT_FOUND (\<lambda>_. True) (\<lambda>st. distinct (map fst st)) (mem_abs hex)"
proof
  fix st :: mem_storage and k v assume "distinct (map fst st)"
  then show "\<exists>s'. mem_put hex st k v = Inr s' \<and> distinct (map fst s') \<and> mem_abs hex s' = (mem_abs hex st)(k \<mapsto> v)"
    by (auto simp: mem_put_def mem_abs_def update_conv' distinct_update hex_ok_inj [OF assms])
next
  fix st :: mem_storage and k
  show "mem_get hex st k = (case mem_abs hex st k of None \<Rightarrow> Inl NOT_FOUND | Some v \<Rightarrow> Inr v)"
    by (auto simp: mem_get_def mem_abs_def)
next
  fix st :: mem_storage and k assume "distinct (map fst st)"
  then show "\<exists>s'. mem_remove hex st k = Inr s' \<and> distinct (map fst s') \<and> mem_abs hex s' = (mem_abs hex st)(k := None)"
    by (auto simp: mem_remove_def mem_abs_def delete_conv' distinct_delete hex_ok_inj [OF assms])
qed

definition batch_ok :: "(bytes \<Rightarrow> string) \<Rightarrow> mem_storage \<Rightarrow> bool" where
  "batch_ok hex batch \<longleftrightarrow> distinct (map fst batch) \<and> fst ` set batch \<subseteq> range hex"

lemma batch_ok_ops:
  assumes "batch_ok hex batch"
  shows "\<exists>b. mem_batch_put hex batch k v = Inr b \<and> batch_ok hex b"
    and "\<exists>b. mem_batch_remove hex batch k = Inr b \<and> batch_ok hex b"
  using assms dom_delete_subset [of "hex k" batch]
  by (auto simp: batch_ok_def mem_batch_put_def mem_batch_remove_def distinct_update distinct_delete dom_update)

lemma commit_abs:
  assumes "hex_ok hex unhex"
  shows "batch_ok hex batch \<Longrightarrow>
    \<exists>st'. mem_batch_commit hex unhex batch st = Inr st' \<and> mem_abs hex st' = mem_abs hex st ++ mem_abs hex batch"
proof (induction batch arbitrary: st)
  case (Cons e batch)
  then obtain key where key: "fst e = hex key"
    by (auto simp: batch_ok_def)
  have "batch_ok hex batch" "hex key \<notin> fst ` set batch"
    using Cons.prems key by (auto simp: batch_ok_def)
  then obtain st' where "mem_batch_commit hex unhex batch (AList.update (hex key) (snd e) st) = Inr st'"
      "mem_abs hex st' = mem_abs hex (AList.update (hex key) (snd e) st) ++ mem_abs hex batch"
    using Cons.IH by blast
  moreover have "map_of batch (hex key) = None"
    using \<open>hex key \<notin> fst ` set batch\<close> by (simp add: map_of_eq_None_iff)
  ultimately show ?case
    using assms key
    by (auto simp: mem_put_def hex_ok_def mem_abs_def update_conv' map_add_def fun_eq_iff split: option.splits)
qed (simp add: mem_abs_def fun_eq_iff map_add_def)

section \<open>Properties\<close>

text \<open>
  The in-memory storage refines a map: any sequence of insertions and removals on an empty
  storage succeeds, and every lookup returns what the same sequence on a map gives, for every
  conversion of keys to text that can be inverted.
\<close>

lemma mem_storage_refines_map:
  assumes "hex_ok hex unhex"
  shows "\<exists>st. run_ops (mem_put hex) (mem_remove hex) ops [] = Inr st \<and>
           mem_get hex st key = (case fold apply_op ops Map.empty key of None \<Rightarrow> Inl NOT_FOUND | Some v \<Rightarrow> Inr v)"
proof -
  have "mem_abs hex [] = Map.empty"
    by (simp add: mem_abs_def fun_eq_iff)
  then show ?thesis
    using byte_store.get_run_ops [OF mem_byte_store [OF assms], of "[]" ops key] by (simp add: list_all_iff)
qed

text \<open>
  Committing a batch overrides the storage with the entries put into the batch and touches
  nothing else; in particular removing a stored key through a batch has no effect on the
  storage.
\<close>

lemma mem_batch_commit_overrides:
  assumes "hex_ok hex unhex" "batch_ok hex batch"
  shows "(\<exists>st'. mem_batch_commit hex unhex batch st = Inr st' \<and>
            (\<forall>key. mem_abs hex st' key = (case mem_abs hex batch key of Some v \<Rightarrow> Some v | None \<Rightarrow> mem_abs hex st key))) \<and>
         (\<exists>st'. rbind (mem_batch_remove hex batch key) (\<lambda>b. mem_batch_commit hex unhex b st) = Inr st' \<and>
            mem_abs hex st' key = mem_abs hex st key)"
proof -
  obtain b where b: "mem_batch_remove hex batch key = Inr b" "batch_ok hex b"
    using batch_ok_ops(2) [OF assms(2)] by blast
  then have "mem_abs hex b key = None"
    using assms(2) by (auto simp: mem_batch_remove_def mem_abs_def delete_conv')
  then show ?thesis
    using commit_abs [OF assms(1,2), of st] commit_abs [OF assms(1) b(2), of st] b(1)
    by (auto simp: map_add_def)
qed

end
