(* ===== verification/Trie_Map.thy ===== *)
theory Trie_Map
  imports Trie_Removal Byte_Store
begin

text \<open>
  The trie as a map: tries whose branches all distinguish something are determined by their
  contents, and the operations of the trie refine the operations of a finite map.
\<close>

section \<open>Canonical tries are unique\<close>

lemma trie_wf_slot: "trie_wf (BranchNode pk pv cs) \<Longrightarrow> slot cs x = (if x < 16 then cs ! unat x else None)"
  by (auto simp: slot_def word_less_nat_alt)

lemma slot_in_set: "slot cs x = Some c \<Longrightarrow> Some c \<in> set cs"
  by (auto simp: slot_def split: if_splits) (metis nth_mem)

lemma childrenNum_slot:
  assumes "1 \<le> childrenNum cs" "length cs = 16"
  obtains x c where "slot cs x = Some c"
proof -
  have "{i. i < length cs \<and> cs ! i \<noteq> None} \<noteq> {}"
    using assms(1) by (auto simp: childrenNum_card card_gt_0_iff Suc_le_eq)
  then obtain i c where "i < 16" "cs ! i = Some c"
    using assms(2) by auto
  then have "slot cs (of_nat i) = Some c"
    using assms(2) by (simp add: slot_def unat_of_nat_eq)
  then show ?thesis
    by (rule that)
qed

lemma childrenNum_two_slots:
  assumes "2 \<le> childrenNum cs" "length cs = 16"
  obtains x y c d where "slot cs x = Some c" "slot cs y = Some d" "x \<noteq> y"
proof -
  obtain i j where ij: "i \<in> {i. i < length cs \<and> cs ! i \<noteq> None}" "j \<in> {i. i < length cs \<and> cs ! i \<noteq> None}" "i \<noteq> j"
    using assms(1) unfolding childrenNum_card
    by (metis (no_types, lifting) One_nat_def Suc_1 card_le_Suc0_iff_eq finite_nat_set_iff_bounded
        mem_Collect_eq not_less_eq_eq)
  then have "slot cs (of_nat i) = cs ! i" "slot cs (of_nat j) = cs ! j" "(of_nat i :: byte) \<noteq> of_nat j"
    using assms(2) by (auto simp: slot_def unat_of_nat_eq word_unat_eq_iff)
  then show ?thesis
    using ij that by auto
qed

lemma canonical_nonempty: "\<lbrakk>trie_wf n; canonical n\<rbrakk> \<Longrightarrow> \<exists>k v. lookup n k = Some v"
proof (induction n)
  case (BranchNode pk pv cs)
  have "1 \<le> childrenNum cs" "length cs = 16"
    using BranchNode.prems by (auto split: if_splits)
  then obtain x c where c: "slot cs x = Some c"
    by (rule childrenNum_slot)
  have "\<exists>k v. lookup c k = Some v"
    using BranchNode.IH [of "Some c" c] slot_in_set [OF c] trie_wf_child [OF BranchNode.prems(1) c]
      canonical_child [OF BranchNode.prems(2) c] by simp
  then obtain k v where "lookup c k = Some v"
    by blast
  then have "lookup (BranchNode pk pv cs) (pk @ x # k) = Some v"
    using c by (simp add: lookup_branch)
  then show ?case
    by blast
qed auto

text \<open>The key of a canonical node is the longest common prefix of the keys below it.\<close>

lemma canonical_key_longest:
  assumes "trie_wf n" "canonical n" "\<And>k v. lookup n k = Some v \<Longrightarrow> prefix p k"
  shows "prefix p (key_nibbles n)"
proof (cases n)
  case (BranchNode pk pv cs)
  show ?thesis
  proof (cases pv)
    case (Some v)
    then show ?thesis
      using assms(3) [of pk v] BranchNode by (simp add: lookup_branch)
  next
    case None
    obtain x y c d where s: "slot cs x = Some c" "slot cs y = Some d" "x \<noteq> y"
      using assms(1,2) BranchNode None by (auto elim: childrenNum_two_slots)
    obtain j u k v where jk: "lookup c j = Some u" "lookup d k = Some v"
      using canonical_nonempty [of c] canonical_nonempty [of d] s assms(1,2) BranchNode
        trie_wf_child [of pk pv cs] canonical_child [of pk pv cs] by blast
    have "prefix p (pk @ x # j)" "prefix p (pk @ y # k)"
      using assms(3) [of _ u] assms(3) [of _ v] jk s BranchNode by (simp_all add: lookup_branch)
    then have "prefix p pk"
      using s(3) by (auto simp: prefix_append prefix_Cons)
    then show ?thesis
      using BranchNode by simp
  qed
next
  case (LeafNode pk pv)
  then show ?thesis
    using assms by auto
qed (use assms in simp)

lemma canonical_key_unique:
  assumes "trie_wf a" "canonical a" "trie_wf b" "canonical b" "lookup a = lookup b"
  shows "key_nibbles a = key_nibbles b"
proof (rule prefix_order.antisym)
  show "prefix (key_nibbles a) (key_nibbles b)"
    using assms lookup_prefix [of a] by (intro canonical_key_longest) auto
  show "prefix (key_nibbles b) (key_nibbles a)"
    using assms lookup_prefix [of b] by (intro canonical_key_longest) auto
qed

text \<open>A leaf holds a single key, a canonical branch at least one longer key.\<close>

lemma canonical_branch_longer:
  assumes "trie_wf (BranchNode pk pv cs)" "canonical (BranchNode pk pv cs)"
  obtains x r v where "lookup (BranchNode pk pv cs) (pk @ x # r) = Some v"
proof -
  have "1 \<le> childrenNum cs" "length cs = 16"
    using assms by (auto split: if_splits)
  then obtain x c where c: "slot cs x = Some c"
    by (rule childrenNum_slot)
  obtain r v where "lookup c r = Some v"
    using canonical_nonempty trie_wf_child [OF assms(1) c] canonical_child [OF assms(2) c] by blast
  then show ?thesis
    using that [of x r v] c by (simp add: lookup_branch)
qed

lemma leaf_not_branch:
  assumes "trie_wf (BranchNode pk pv cs)" "canonical (BranchNode pk pv cs)"
  shows "lookup (LeafNode pk v) \<noteq> lookup (BranchNode pk pv cs)"
proof
  assume e: "lookup (LeafNode pk v) = lookup (BranchNode pk pv cs)"
  obtain x r u where "lookup (BranchNode pk pv cs) (pk @ x # r) = Some u"
    using assms by (rule canonical_branch_longer)
  then show False
    using fun_cong [OF e, of "pk @ x # r"] by simp
qed

lemma slots_ext:
  assumes "length cs = 16" "length ds = 16" "\<And>x. slot cs x = slot ds x"
  shows "cs = ds"
proof (intro nth_equalityI)
  fix i assume "i < length cs"
  then show "cs ! i = ds ! i"
    using assms(3) [of "of_nat i"] assms(1,2) by (simp add: slot_def unat_of_nat_eq)
qed (use assms in simp)

lemma canonical_unique:
  "\<lbrakk>trie_wf a; canonical a; trie_wf b; canonical b; lookup a = lookup b\<rbrakk> \<Longrightarrow> a = b"
proof (induction a arbitrary: b)
  case (LeafNode pk pv)
  have "key_nibbles (LeafNode pk pv) = key_nibbles b"
    using LeafNode.prems by (rule canonical_key_unique)
  then have k: "key_nibbles b = pk"
    by simp
  show ?case
  proof (cases b)
    case (LeafNode qk qv)
    then show ?thesis
      using k fun_cong [OF LeafNode.prems(5), of pk] by simp
  next
    case (BranchNode qk qv ds)
    then show ?thesis
      using k LeafNode.prems(3-5) leaf_not_branch [of pk qv ds pv] by (metis key_nibbles.simps(2))
  qed (use LeafNode.prems in simp)
next
  case (BranchNode pk pv cs)
  have "key_nibbles (BranchNode pk pv cs) = key_nibbles b"
    using BranchNode.prems by (rule canonical_key_unique)
  then have k: "key_nibbles b = pk"
    by simp
  show ?case
  proof (cases b)
    case (LeafNode qk qv)
    then show ?thesis
      using k BranchNode.prems(1,2,5) leaf_not_branch [of pk pv cs qv] by (metis key_nibbles.simps(1))
  next
    case b: (BranchNode qk qv ds)
    have eq: "opt_lookup (slot cs x) r = opt_lookup (slot ds x) r" for x r
      using fun_cong [OF BranchNode.prems(5), of "pk @ x # r"] b k by (simp add: lookup_branch)
    have "slot cs x = slot ds x" for x
    proof (cases "slot cs x")
      case None
      show ?thesis
      proof (cases "slot ds x")
        case (Some d)
        then have "\<exists>r v. lookup d r = Some v"
          using BranchNode.prems(3,4) b trie_wf_child canonical_child by (intro canonical_nonempty) blast+
        then show ?thesis
          using eq [of x] None Some by auto
      qed (use None in simp)
    next
      case (Some c)
      have c: "trie_wf c" "canonical c"
        using BranchNode.prems(1,2) Some trie_wf_child canonical_child by blast+
      then obtain d where d: "slot ds x = Some d"
        using canonical_nonempty [of c] eq [of x] Some by (cases "slot ds x") auto
      have "c = d"
        using BranchNode.IH [of "Some c" c d] slot_in_set [OF Some] c d eq [of x] Some
          BranchNode.prems(3,4) b trie_wf_child [of qk qv ds x d] canonical_child [of qk qv ds x d]
        by (simp add: fun_eq_iff)
      then show ?thesis
        using Some d by simp
    qed
    then have "cs = ds"
      using BranchNode.prems b by (intro slots_ext) auto
    moreover have "pv = qv"
      using fun_cong [OF BranchNode.prems(5), of pk] b k by (simp add: lookup_branch)
    ultimately show ?thesis
      using b k by simp
  qed (use BranchNode.prems in simp)
qed simp

section \<open>The trie refines a map\<close>

definition entries :: "node option \<Rightarrow> bytes \<Rightarrow> bytes option" where
  "entries root key = opt_lookup root (keyToNibbles key)"

definition trie_inv :: "node option \<Rightarrow> bool" where
  "trie_inv root \<longleftrightarrow>
     opt_all trie_wf root \<and> opt_all canonical root \<and> (\<forall>k. opt_lookup root k \<noteq> None \<longrightarrow> k \<in> range keyToNibbles)"

definition key_lengths :: "nat \<Rightarrow> node option \<Rightarrow> bool" where
  "key_lengths n root \<longleftrightarrow> (\<forall>key \<in> dom (entries root). length key = n)"

lemma trie_inv_empty [simp]: "trie_inv None" "entries None = Map.empty" "key_lengths n None"
  by (auto simp: trie_inv_def entries_def key_lengths_def fun_eq_iff)

lemma canonical_uniform:
  "\<lbrakk>trie_wf t; canonical t; \<And>k v. lookup t k = Some v \<Longrightarrow> length k = m\<rbrakk> \<Longrightarrow> uniform m t"
proof (induction t arbitrary: m)
  case (BranchNode pk pv cs)
  obtain x r v where l: "lookup (BranchNode pk pv cs) (pk @ x # r) = Some v"
    using BranchNode.prems(1,2) by (rule canonical_branch_longer)
  then have len: "length pk < m"
    using BranchNode.prems(3) by fastforce
  then have "pv = None"
    using BranchNode.prems(3) [of pk] by (cases pv) (auto simp: lookup_branch)
  moreover have "uniform (m - Suc (length pk)) c" if "cs ! i = Some c" "i < length cs" for i c
  proof -
    have c: "slot cs (of_nat i) = Some c"
      using that BranchNode.prems(1) by (simp add: slot_def unat_of_nat_eq)
    have "length k = m - Suc (length pk)" if "lookup c k = Some v" for k v
      using BranchNode.prems(3) [of "pk @ of_nat i # k" v] that c by (simp add: lookup_branch)
    then show ?thesis
      using BranchNode.IH [of "Some c" c] slot_in_set [OF c] trie_wf_child [OF BranchNode.prems(1) c]
        canonical_child [OF BranchNode.prems(2) c] by simp
  qed
  ultimately show ?case
    using len by (simp add: list_all_canonical_slot)
qed auto

lemma trie_inv_resolves:
  assumes "trie_inv (Some t)" "entries (Some t) key \<noteq> None \<or> key_lengths (length key) (Some t)"
  shows "resolves t (keyToNibbles key)"
proof (cases "entries (Some t) key = None")
  case True
  have "length k = 2 * length key" if l: "lookup t k = Some v" for k v
  proof -
    obtain q where "k = keyToNibbles q"
      using assms(1) l by (auto simp: trie_inv_def)
    then have "q \<in> dom (entries (Some t))"
      using l by (auto simp: entries_def)
    then show ?thesis
      using assms(2) True \<open>k = keyToNibbles q\<close> by (auto simp: key_lengths_def)
  qed
  then have "uniform (2 * length key) t"
    using assms(1) by (intro canonical_uniform) (auto simp: trie_inv_def)
  then show ?thesis
    unfolding resolves_def by auto
qed (simp add: resolves_def entries_def)

lemma trie_put_ok:
  assumes "trie_inv root"
  obtains root' where "trie_put defaultChildRetriever root key v = Inr root'" "trie_inv root'"
    "entries root' = (entries root)(key \<mapsto> v)" "root' \<noteq> None"
proof (cases root)
  case None
  let ?t = "LeafNode (keyToNibbles key) (Some v)"
  have "entries (Some ?t) = (entries root)(key \<mapsto> v)"
    by (auto simp: entries_def None keyToNibbles_inj)
  moreover have "trie_inv (Some ?t)"
    by (auto simp: trie_inv_def)
  ultimately show ?thesis
    using that [of "Some ?t"] by (simp add: trie_put_def None)
next
  case (Some t)
  have "inserted t (keyToNibbles key) v
      (insert_node defaultChildRetriever (Some t) (keyToNibbles key) (LeafNode (keyToNibbles key) (Some v)))"
    using assms Some by (intro insert_node_inserted) (auto simp: trie_inv_def)
  then obtain t' where t': "insert_node defaultChildRetriever (Some t) (keyToNibbles key) (LeafNode (keyToNibbles key) (Some v)) = Inr t'"
      "trie_wf t'" "lookup t' = (lookup t)(keyToNibbles key \<mapsto> v)" "canonical t \<longrightarrow> canonical t'"
    unfolding inserted_def by blast
  have "entries (Some t') = (entries root)(key \<mapsto> v)"
    by (auto simp: entries_def Some t'(3) keyToNibbles_inj)
  moreover have "trie_inv (Some t')"
    using assms t'(2-4) by (auto simp: trie_inv_def Some)
  ultimately show ?thesis
    using that [of "Some t'"] t'(1) by (simp add: trie_put_def Some)
qed

lemma trie_get_ok:
  assumes "trie_inv root" "entries root key \<noteq> None \<or> key_lengths (length key) root"
  shows "trie_get defaultChildRetriever root key = (case entries root key of None \<Rightarrow> Inl NO_VALUE | Some v \<Rightarrow> Inr v)"
proof (cases root)
  case (Some t)
  have "\<exists>n. getNode defaultChildRetriever (Some t) (keyToNibbles key) = Inr n \<and> found n = lookup t (keyToNibbles key)"
    using assms Some trie_inv_resolves [of t key] by (intro getNode_lookup) (auto simp: trie_inv_def)
  then obtain n where "getNode defaultChildRetriever (Some t) (keyToNibbles key) = Inr n"
      "found n = entries root key"
    by (auto simp: entries_def Some)
  then show ?thesis
    by (cases "entries root key"; cases n) (auto simp: trie_get_def Some found_def)
qed (simp add: trie_get_def)

lemma trie_remove_ok:
  assumes "trie_inv root" "entries root key \<noteq> None \<or> key_lengths (length key) root"
  obtains root' where "trie_remove defaultChildRetriever root key = Inr root'" "trie_inv root'"
    "entries root' = (entries root)(key := None)"
proof (cases root)
  case (Some t)
  have "deleted t (keyToNibbles key) (deleteNode defaultChildRetriever (Some t) (keyToNibbles key))"
    using assms Some trie_inv_resolves [of t key] by (intro deleteNode_deleted) (auto simp: trie_inv_def)
  then obtain t' where t': "deleteNode defaultChildRetriever (Some t) (keyToNibbles key) = Inr t'"
      "opt_all trie_wf t'" "opt_lookup t' = (lookup t)(keyToNibbles key := None)"
      "canonical t \<longrightarrow> opt_all canonical t'"
    unfolding deleted_def by blast
  have "entries t' = (entries root)(key := None)"
    by (auto simp: entries_def Some t'(3) keyToNibbles_inj)
  moreover have "trie_inv t'"
    using assms t'(2-4) by (auto simp: trie_inv_def Some)
  ultimately show ?thesis
    using that [of t'] t'(1) by (simp add: trie_remove_def Some)
qed (use that [of None] in \<open>auto simp: trie_remove_def\<close>)

lemma prefix_keyToNibbles: "prefix (keyToNibbles p) (keyToNibbles k) \<longleftrightarrow> prefix p k"
proof (induction p arbitrary: k)
  case (Cons a p)
  have inj: "drop_bit 4 a = drop_bit 4 b \<and> a AND 15 = b AND 15 \<longleftrightarrow> a = b" for b :: byte
    by (metis byteFromNibbles_split)
  show ?case
    using Cons inj by (cases k) (auto simp: keyToNibbles_Cons)
qed simp

lemma trie_clearPrefix_ok:
  assumes "opt_all trie_wf root"
  obtains root' where "trie_clearPrefix defaultChildRetriever root p = Inr root'" "opt_all trie_wf root'"
    "\<And>key. entries root' key = (if prefix p key then None else entries root key)"
proof (cases root)
  case (Some t)
  have "cleared t (keyToNibbles p) (detachNode defaultChildRetriever (Some t) (keyToNibbles p))"
    using assms Some by (intro detachNode_cleared) auto
  then obtain t' where t': "detachNode defaultChildRetriever (Some t) (keyToNibbles p) = Inr t'"
      "opt_all trie_wf t'" "\<And>q. opt_lookup t' q = (if prefix (keyToNibbles p) q then None else lookup t q)"
    unfolding cleared_def by blast
  then show ?thesis
    using that [of t'] by (simp add: trie_clearPrefix_def Some entries_def prefix_keyToNibbles)
qed (use that [of None] in \<open>auto simp: trie_clearPrefix_def\<close>)

lemma trie_inv_unique:
  assumes "trie_inv r" "trie_inv s" "entries r = entries s"
  shows "r = s"
proof -
  have eq: "opt_lookup r k = opt_lookup s k" for k
  proof (cases "k \<in> range keyToNibbles")
    case True
    then show ?thesis
      using fun_cong [OF assms(3)] by (auto simp: entries_def)
  next
    case False
    then show ?thesis
      using assms(1,2) unfolding trie_inv_def by metis
  qed
  show ?thesis
  proof (cases r)
    case None
    then show ?thesis
      using eq assms(2) canonical_nonempty by (cases s) (fastforce simp: trie_inv_def)+
  next
    case (Some a)
    then obtain b where b: "s = Some b"
      using eq assms(1) canonical_nonempty [of a] by (cases s) (auto simp: trie_inv_def)
    then show ?thesis
      using Some eq assms(1,2) canonical_unique [of a b] by (auto simp: trie_inv_def fun_eq_iff)
  qed
qed

text \<open>For keys of one length the trie provides the interface of a byte store.\<close>

definition trie_store_inv :: "nat \<Rightarrow> node option \<Rightarrow> bool" where
  "trie_store_inv n root \<longleftrightarrow> trie_inv root \<and> key_lengths n root"

interpretation trie_store: byte_store "trie_put defaultChildRetriever" "trie_get defaultChildRetriever"
  "trie_remove defaultChildRetriever" NO_VALUE "\<lambda>k. length k = n" "trie_store_inv n" entries for n
proof
  fix s and k v :: bytes assume a: "trie_store_inv n s" "length k = n"
  obtain s' where "trie_put defaultChildRetriever s k v = Inr s'" "trie_inv s'" "entries s' = (entries s)(k \<mapsto> v)"
    using a trie_put_ok [of s k v] by (auto simp: trie_store_inv_def)
  then show "\<exists>s'. trie_put defaultChildRetriever s k v = Inr s' \<and> trie_store_inv n s' \<and> entries s' = (entries s)(k \<mapsto> v)"
    using a by (auto simp: trie_store_inv_def key_lengths_def)
next
  fix s and k :: bytes assume "trie_store_inv n s" "length k = n"
  then show "trie_get defaultChildRetriever s k = (case entries s k of None \<Rightarrow> Inl NO_VALUE | Some v \<Rightarrow> Inr v)"
    using trie_get_ok [of s k] by (simp add: trie_store_inv_def)
next
  fix s and k :: bytes assume a: "trie_store_inv n s" "length k = n"
  obtain s' where "trie_remove defaultChildRetriever s k = Inr s'" "trie_inv s'" "entries s' = (entries s)(k := None)"
    using a trie_remove_ok [of s k] by (auto simp: trie_store_inv_def)
  then show "\<exists>s'. trie_remove defaultChildRetriever s k = Inr s' \<and> trie_store_inv n s' \<and> entries s' = (entries s)(k := None)"
    using a by (auto simp: trie_store_inv_def key_lengths_def split: if_splits)
qed

section \<open>Properties\<close>

text \<open>
  C2. Storing a value in a trie that the operations have built always succeeds, whatever the
  lengths of the keys: afterwards the trie holds the old entries with that one updated, it is
  again canonical, and reading the key returns the value.
\<close>

theorem put_refines_map:
  assumes "trie_inv root"
  shows "\<exists>root'. trie_put defaultChildRetriever root key v = Inr root' \<and> trie_inv root' \<and>
           entries root' = (entries root)(key \<mapsto> v) \<and> trie_get defaultChildRetriever root' key = Inr v"
proof -
  obtain root' where r: "trie_put defaultChildRetriever root key v = Inr root'" "trie_inv root'"
      "entries root' = (entries root)(key \<mapsto> v)"
    using trie_put_ok [OF assms] by metis
  then have "trie_get defaultChildRetriever root' key = Inr v"
    using trie_get_ok [of root' key] by simp
  then show ?thesis
    using r by blast
qed

theorem put_refines_map_witness:
  "trie_inv None \<and> (\<exists>root'. trie_put defaultChildRetriever None [0x12] [1] = Inr root' \<and> trie_inv root' \<and>
     entries root' = (entries None)([0x12] \<mapsto> [1]) \<and> trie_get defaultChildRetriever root' [0x12] = Inr [1])"
  using put_refines_map [of None "[0x12]" "[1]"] by simp

text \<open>
  C29. A stored key can always be read and removed: reading returns its value, and removing it
  leaves exactly the other entries in a canonical trie.
\<close>

theorem stored_key_get_remove:
  assumes "trie_inv root" "entries root key = Some v"
  shows "trie_get defaultChildRetriever root key = Inr v \<and> trie_contains defaultChildRetriever root key \<and>
         (\<exists>root'. trie_remove defaultChildRetriever root key = Inr root' \<and> trie_inv root' \<and>
            entries root' = (entries root)(key := None))"
proof -
  have g: "trie_get defaultChildRetriever root key = Inr v"
    using assms trie_get_ok [of root key] by simp
  then have "trie_contains defaultChildRetriever root key"
    by (auto simp: trie_get_def trie_contains_def split: if_splits option.splits elim!: rbind_InrE)
  then show ?thesis
    using g assms trie_remove_ok [of root key] by auto
qed

theorem stored_key_get_remove_witness:
  "\<exists>root. trie_inv root \<and> entries root [0x12] = Some [1] \<and> trie_get defaultChildRetriever root [0x12] = Inr [1]"
proof -
  obtain root where r: "trie_inv root" "entries root = (entries None)([0x12] \<mapsto> [1])"
    using trie_put_ok [of None "[0x12]" "[1]"] by auto
  then have "entries root [0x12] = Some [1]"
    by simp
  then show ?thesis
    using r(1) stored_key_get_remove [of root "[0x12]" "[1]"] by blast
qed

text \<open>
  C1. For keys of one length the trie refines a map: any sequence of insertions and removals
  on an empty trie succeeds and gives a well-formed, canonical trie whose entries are those that the
  same sequence gives on a map, and every lookup of a key of that length returns what that map has,
  absent keys included.
\<close>

theorem trie_refines_map:
  assumes "list_all (\<lambda>p. length (op_key p) = n) ops"
  shows "\<exists>root. run_ops (trie_put defaultChildRetriever) (trie_remove defaultChildRetriever) ops None = Inr root \<and>
           trie_inv root \<and> entries root = fold apply_op ops Map.empty \<and>
           (\<forall>key. length key = n \<longrightarrow> trie_get defaultChildRetriever root key =
             (case fold apply_op ops Map.empty key of None \<Rightarrow> Inl NO_VALUE | Some v \<Rightarrow> Inr v))"
proof -
  obtain root where root: "run_ops (trie_put defaultChildRetriever) (trie_remove defaultChildRetriever) ops None = Inr root"
      "trie_store_inv n root" "entries root = fold apply_op ops Map.empty"
    using trie_store.run_ops_abs [of n None ops] assms by (auto simp: trie_store_inv_def)
  then show ?thesis
    using trie_store.get_abs [OF root(2)] by (simp add: trie_store_inv_def)
qed

theorem trie_refines_map_witness:
  "list_all (\<lambda>p. length (op_key p) = 1) [Put [1] [5], Put [2] [6], Remove [1]] \<and>
   (\<exists>root. run_ops (trie_put defaultChildRetriever) (trie_remove defaultChildRetriever)
       [Put [1] [5], Put [2] [6], Remove [1]] None = Inr root \<and> trie_inv root \<and>
       trie_get defaultChildRetriever root [2] = Inr [6] \<and> trie_get defaultChildRetriever root [1] = Inl NO_VALUE)"
  using trie_refines_map [of 1 "[Put [1] [5], Put [2] [6], Remove [1]]"] by force

text \<open>
  C5. The trie depends only on its contents: two sequences of insertions and removals on keys
  of one length that leave the same map build the same trie, and so the same state root,
  whatever the order and the history.
\<close>

theorem trie_history_independent:
  assumes "list_all (\<lambda>p. length (op_key p) = n) ops" "list_all (\<lambda>p. length (op_key p) = n) ops'"
    and "fold apply_op ops Map.empty = fold apply_op ops' Map.empty"
  shows "\<exists>root. run_ops (trie_put defaultChildRetriever) (trie_remove defaultChildRetriever) ops None = Inr root \<and>
           run_ops (trie_put defaultChildRetriever) (trie_remove defaultChildRetriever) ops' None = Inr root"
proof -
  obtain r where r: "run_ops (trie_put defaultChildRetriever) (trie_remove defaultChildRetriever) ops None = Inr r"
      "trie_inv r" "entries r = fold apply_op ops Map.empty"
    using trie_store.run_ops_abs [of n None ops] assms(1) by (auto simp: trie_store_inv_def)
  obtain s where s: "run_ops (trie_put defaultChildRetriever) (trie_remove defaultChildRetriever) ops' None = Inr s"
      "trie_inv s" "entries s = fold apply_op ops' Map.empty"
    using trie_store.run_ops_abs [of n None ops'] assms(2) by (auto simp: trie_store_inv_def)
  have "r = s"
    using r s assms(3) by (intro trie_inv_unique) simp_all
  then show ?thesis
    using r(1) s(1) by blast
qed

theorem trie_history_independent_witness:
  "fold apply_op [Put [1] [5], Put [2] [6]] Map.empty = fold apply_op [Put [2] [7], Put [2] [6], Put [1] [5]] Map.empty \<and>
   (\<exists>root. run_ops (trie_put defaultChildRetriever) (trie_remove defaultChildRetriever) [Put [1] [5], Put [2] [6]] None = Inr root \<and>
      run_ops (trie_put defaultChildRetriever) (trie_remove defaultChildRetriever) [Put [2] [7], Put [2] [6], Put [1] [5]] None = Inr root)"
proof -
  have e: "fold apply_op [Put [1] [5], Put [2] [6]] Map.empty = fold apply_op [Put [2] [7], Put [2] [6], Put [1] [5]] Map.empty"
    by (auto simp: fun_eq_iff)
  then show ?thesis
    using trie_history_independent [of 1 "[Put [1] [5], Put [2] [6]]" "[Put [2] [7], Put [2] [6], Put [1] [5]]"] by simp
qed

text \<open>
  C30. Clearing a prefix removes exactly the entries whose key starts with it; it does not
  restore the canonical form, so a trie emptied this way still has a root node and is not
  reported as empty.
\<close>

theorem clearPrefix_exact:
  assumes "opt_all trie_wf root"
  shows "\<exists>root'. trie_clearPrefix defaultChildRetriever root p = Inr root' \<and> opt_all trie_wf root' \<and>
           (\<forall>key. entries root' key = (if prefix p key then None else entries root key))"
  using trie_clearPrefix_ok [OF assms, of p] by metis

theorem clearPrefix_exact_witness:
  "rbind (run_ops (trie_put defaultChildRetriever) (trie_remove defaultChildRetriever) [Put [0x12] [7], Put [0x34] [8]] None)
     (\<lambda>r. rbind (trie_clearPrefix defaultChildRetriever r [0x12]) (\<lambda>r. trie_clearPrefix defaultChildRetriever r [0x34]))
   = Inr (Some (BranchNode [] None no_children)) \<and>
   (\<exists>root'. trie_clearPrefix defaultChildRetriever (Some (BranchNode [] None no_children)) [0x34] = Inr root')"
proof -
  have "opt_all trie_wf (Some (BranchNode [] None no_children))"
    by simp
  moreover have "rbind (run_ops (trie_put defaultChildRetriever) (trie_remove defaultChildRetriever) [Put [0x12] [7], Put [0x34] [8]] None)
     (\<lambda>r. rbind (trie_clearPrefix defaultChildRetriever r [0x12]) (\<lambda>r. trie_clearPrefix defaultChildRetriever r [0x34]))
   = Inr (Some (BranchNode [] None no_children))"
    by code_simp
  ultimately show ?thesis
    using clearPrefix_exact [of "Some (BranchNode [] None no_children)" "[0x34]"] by blast
qed

text \<open>
  Keys shorter than the stored ones are not told apart: in a trie that holds the keys
  \<open>1293\<close> and \<open>1294\<close> only, reading \<open>13\<close> returns the value of \<open>1293\<close> and removing \<open>13\<close> removes
  \<open>1293\<close>; and in a trie that holds \<open>123456\<close> and \<open>123478\<close>, removing \<open>12\<close> reads the key behind
  its end.
\<close>

lemma short_keys_confused:
  "(\<exists>root root'. run_ops (trie_put defaultChildRetriever) (trie_remove defaultChildRetriever)
        [Put [0x12, 0x93] [1], Put [0x12, 0x94] [2]] None = Inr root \<and>
      entries root [0x13] = None \<and> trie_get defaultChildRetriever root [0x13] = Inr [1] \<and>
      trie_remove defaultChildRetriever root [0x13] = Inr root' \<and> entries root' [0x12, 0x93] = None) \<and>
   rbind (run_ops (trie_put defaultChildRetriever) (trie_remove defaultChildRetriever)
        [Put [0x12, 0x34, 0x56] [1], Put [0x12, 0x34, 0x78] [2]] None)
     (\<lambda>root. trie_remove defaultChildRetriever root [0x12]) = Inl OUT_OF_RANGE"
proof -
  let ?root = "Some (BranchNode [1, 2, 9] None
    (no_children[3 := Some (LeafNode [] (Some [1])), 4 := Some (LeafNode [] (Some [2]))]))"
  have "run_ops (trie_put defaultChildRetriever) (trie_remove defaultChildRetriever)
        [Put [0x12, 0x93] [1], Put [0x12, 0x94] [2]] None = Inr ?root"
    by code_simp
  moreover have "entries ?root [0x13] = None" "trie_get defaultChildRetriever ?root [0x13] = Inr [1]"
    by code_simp+
  moreover have "trie_remove defaultChildRetriever ?root [0x13] = Inr (Some (LeafNode [1, 2, 9, 4] (Some [2])))"
    by code_simp
  moreover have "entries (Some (LeafNode [1, 2, 9, 4] (Some [2]))) [0x12, 0x93] = None"
    by code_simp
  moreover have "rbind (run_ops (trie_put defaultChildRetriever) (trie_remove defaultChildRetriever)
        [Put [0x12, 0x34, 0x56] [1], Put [0x12, 0x34, 0x78] [2]] None)
     (\<lambda>root. trie_remove defaultChildRetriever root [0x12]) = Inl OUT_OF_RANGE"
    by code_simp
  ultimately show ?thesis
    by blast
qed

end
