(* ===== verification/Trie_Storage.thy ===== *)
theory Trie_Storage
  imports Trie_Map
begin

text \<open>
  Tries in a database: \<^verbatim>\<open>src/storage/trie/serialization/trie_serializer_impl.cpp\<close> and the backend in
  \<^verbatim>\<open>src/storage/trie/impl\<close>. The database behind the backend is a map from keys to values, the
  interface \<^verbatim>\<open>BufferStorage\<close>; the backend puts the node prefix in front of every key. A trie
  opened from its root hash holds dummies for the nodes that have not been read; the operations
  load them on the way.
\<close>

section \<open>Definitions\<close>

type_synonym db = "bytes \<Rightarrow> bytes option"

definition prefixKey :: "bytes \<Rightarrow> bytes \<Rightarrow> bytes" where
  "prefixKey node_prefix key = node_prefix @ key"

definition backend_get :: "bytes \<Rightarrow> db \<Rightarrow> bytes \<Rightarrow> trie_error + bytes" where
  "backend_get node_prefix db key =
     (case db (prefixKey node_prefix key) of None \<Rightarrow> Inl DB_ERROR | Some v \<Rightarrow> Inr v)"

definition backend_contains :: "bytes \<Rightarrow> db \<Rightarrow> bytes \<Rightarrow> bool" where
  "backend_contains node_prefix db key \<longleftrightarrow> db (prefixKey node_prefix key) \<noteq> None"

definition backend_put :: "bytes \<Rightarrow> db \<Rightarrow> bytes \<Rightarrow> bytes \<Rightarrow> db" where
  "backend_put node_prefix db key v = db(prefixKey node_prefix key \<mapsto> v)"

definition backend_remove :: "bytes \<Rightarrow> db \<Rightarrow> bytes \<Rightarrow> db" where
  "backend_remove node_prefix db key = db(prefixKey node_prefix key := None)"

text \<open>A write batch of the backend: the pending puts in order, applied on commit.\<close>

type_synonym put_batch = "(bytes \<times> bytes) list"

definition backend_batch_put :: "bytes \<Rightarrow> put_batch \<Rightarrow> bytes \<Rightarrow> bytes \<Rightarrow> put_batch" where
  "backend_batch_put node_prefix batch key v = batch @ [(prefixKey node_prefix key, v)]"

definition backend_batch_commit :: "put_batch \<Rightarrow> db \<Rightarrow> db" where
  "backend_batch_commit batch db = fold (\<lambda>(k, v) db. db(k \<mapsto> v)) batch db"

definition getEmptyRootHash :: "(bytes \<Rightarrow> bytes) \<Rightarrow> bytes" where
  "getEmptyRootHash h = h [0]"

fun storeNode :: "(bytes \<Rightarrow> bytes) \<Rightarrow> bytes \<Rightarrow> node \<Rightarrow> put_batch \<Rightarrow> trie_error + (bytes \<times> put_batch)"
  and storeChildren :: "(bytes \<Rightarrow> bytes) \<Rightarrow> bytes \<Rightarrow> node option list \<Rightarrow> put_batch \<Rightarrow> trie_error + (node option list \<times> put_batch)"
  where
  "storeNode h np (BranchNode k v cs) batch =
     rbind (storeChildren h np cs batch) (\<lambda>(cs, batch).
     rbind (encodeNode h (BranchNode k v cs)) (\<lambda>enc.
       Inr (merkleValue h enc, backend_batch_put np batch (merkleValue h enc) enc)))"
| "storeNode h np (LeafNode k v) batch =
     rbind (encodeNode h (LeafNode k v)) (\<lambda>enc.
       Inr (merkleValue h enc, backend_batch_put np batch (merkleValue h enc) enc))"
| "storeNode h np (DummyNode d) batch =
     rbind (encodeNode h (DummyNode d)) (\<lambda>enc.
       Inr (merkleValue h enc, backend_batch_put np batch (merkleValue h enc) enc))"
| "storeChildren h np [] batch = Inr ([], batch)"
| "storeChildren h np (None # cs) batch =
     rbind (storeChildren h np cs batch) (\<lambda>(cs, batch). Inr (None # cs, batch))"
| "storeChildren h np (Some child # cs) batch =
     (if isDummy child
      then rbind (storeChildren h np cs batch) (\<lambda>(cs, batch). Inr (Some child # cs, batch))
      else
        rbind (storeNode h np child batch) (\<lambda>(hash, batch).
        rbind (storeChildren h np cs batch) (\<lambda>(cs, batch).
          Inr (Some (DummyNode hash) # cs, batch))))"

text \<open>The root is stored under its full hash; the node in memory keeps the dummies.\<close>

definition storeRootNode :: "(bytes \<Rightarrow> bytes) \<Rightarrow> bytes \<Rightarrow> db \<Rightarrow> node \<Rightarrow> trie_error + (bytes \<times> node \<times> db)" where
  "storeRootNode h np db n =
     rbind
       (case n of
          BranchNode k v cs \<Rightarrow> rmap (\<lambda>(cs, batch). (BranchNode k v cs, batch)) (storeChildren h np cs [])
        | _ \<Rightarrow> Inr (n, []))
       (\<lambda>(n, batch).
         rbind (encodeNode h n) (\<lambda>enc.
           let key = h enc;
               batch = backend_batch_put np batch key enc
           in Inr (key, n, backend_batch_commit batch db)))"

definition storeTrie :: "(bytes \<Rightarrow> bytes) \<Rightarrow> bytes \<Rightarrow> db \<Rightarrow> node option \<Rightarrow> trie_error + (bytes \<times> node option \<times> db)" where
  "storeTrie h np db root =
     (case root of
        None \<Rightarrow> Inr (getEmptyRootHash h, None, db)
      | Some n \<Rightarrow> rmap (\<lambda>(key, n, db). (key, Some n, db)) (storeRootNode h np db n))"

definition retrieveNode :: "(bytes \<Rightarrow> bytes) \<Rightarrow> bytes \<Rightarrow> db \<Rightarrow> bytes \<Rightarrow> trie_error + node option" where
  "retrieveNode h np db key =
     (if key = [] \<or> key = getEmptyRootHash h then Inr None
      else rbind (backend_get np db key) (\<lambda>enc. rmap Some (decodeNode enc)))"

text \<open>The child retriever of a trie opened from the database.\<close>

definition storage_retriever :: "(bytes \<Rightarrow> bytes) \<Rightarrow> bytes \<Rightarrow> db \<Rightarrow> retriever" where
  "storage_retriever h np db c = (if isDummy c then retrieveNode h np db (db_key c) else Inr (Some c))"

definition retrieveTrie :: "(bytes \<Rightarrow> bytes) \<Rightarrow> bytes \<Rightarrow> db \<Rightarrow> bytes \<Rightarrow> trie_error + node option" where
  "retrieveTrie h np db key = (if key = getEmptyRootHash h then Inr None else retrieveNode h np db key)"

section \<open>Lazily loaded tries\<close>

text \<open>
  A node \<open>n\<close> with dummies stands for the fully loaded node \<open>t\<close> when every child, once
  retrieved, stands for the corresponding child of \<open>t\<close>.
\<close>

inductive loads :: "retriever \<Rightarrow> node \<Rightarrow> node \<Rightarrow> bool" for ret where
  leaf: "loads ret (LeafNode k v) (LeafNode k v)"
| branch: "loads ret (BranchNode k v cs) (BranchNode k v ds)"
    if "length cs = length ds"
      "\<And>i. i < length cs \<Longrightarrow> cs ! i = None \<longleftrightarrow> ds ! i = None"
      "\<And>i c d. i < length cs \<Longrightarrow> cs ! i = Some c \<Longrightarrow> ds ! i = Some d \<Longrightarrow> \<exists>c'. ret c = Inr (Some c') \<and> loads ret c' d"

inductive_cases loads_leafE: "loads ret (LeafNode k v) t"
inductive_cases loads_branchE: "loads ret (BranchNode k v cs) t"
inductive_cases loads_dummyE [elim!]: "loads ret (DummyNode d) t"

definition child_rel :: "retriever \<Rightarrow> node \<Rightarrow> node \<Rightarrow> bool" where
  "child_rel ret c d \<longleftrightarrow> (\<exists>c'. ret c = Inr (Some c') \<and> loads ret c' d)"

definition retriever_ok :: "retriever \<Rightarrow> bool" where
  "retriever_ok ret \<longleftrightarrow> (\<forall>n. \<not> isDummy n \<longrightarrow> ret n = Inr (Some n))"

lemma retriever_ok_storage [simp]: "retriever_ok (storage_retriever h np db)"
  by (simp add: retriever_ok_def storage_retriever_def)

lemma loads_leaf_iff [simp]: "loads ret (LeafNode k v) t \<longleftrightarrow> t = LeafNode k v" "loads ret n (LeafNode k v) \<longleftrightarrow> n = LeafNode k v"
  by (auto intro: loads.leaf elim: loads.cases)

lemma loads_branch_iff:
  "loads ret (BranchNode k v cs) t \<longleftrightarrow> (\<exists>ds. t = BranchNode k v ds \<and> list_all2 (rel_option (child_rel ret)) cs ds)"
proof
  assume "loads ret (BranchNode k v cs) t"
  then obtain ds where ds: "t = BranchNode k v ds" "length cs = length ds"
      "\<And>i. i < length cs \<Longrightarrow> cs ! i = None \<longleftrightarrow> ds ! i = None"
      "\<And>i c d. i < length cs \<Longrightarrow> cs ! i = Some c \<Longrightarrow> ds ! i = Some d \<Longrightarrow> \<exists>c'. ret c = Inr (Some c') \<and> loads ret c' d"
    by (auto elim: loads_branchE)
  have "rel_option (child_rel ret) (cs ! i) (ds ! i)" if "i < length cs" for i
    using ds(3) [OF that] ds(4) [OF that] by (cases "cs ! i"; cases "ds ! i") (auto simp: child_rel_def)
  then show "\<exists>ds. t = BranchNode k v ds \<and> list_all2 (rel_option (child_rel ret)) cs ds"
    using ds(1,2) by (auto simp: list_all2_conv_all_nth)
next
  assume "\<exists>ds. t = BranchNode k v ds \<and> list_all2 (rel_option (child_rel ret)) cs ds"
  then show "loads ret (BranchNode k v cs) t"
    by (fastforce simp: list_all2_conv_all_nth child_rel_def option_rel_Some1 option_rel_Some2 intro!: loads.branch
        dest: spec)
qed

lemma loads_not_dummy: "loads ret n t \<Longrightarrow> \<not> isDummy n \<and> \<not> isDummy t"
  by (auto elim: loads.cases)

lemma loads_key: "loads ret n t \<Longrightarrow> key_nibbles n = key_nibbles t \<and> node_value n = node_value t"
  by (auto elim: loads.cases)

lemma loads_child_rel: "retriever_ok ret \<Longrightarrow> loads ret n t \<Longrightarrow> child_rel ret n t"
  using loads_not_dummy by (auto simp: child_rel_def retriever_ok_def)

lemma rbind_rel:
  assumes "rel_sum (=) A m m'" "\<And>x y. A x y \<Longrightarrow> m' = Inr y \<Longrightarrow> rel_sum (=) B (f x) (g y)"
  shows "rel_sum (=) B (rbind m f) (rbind m' g)"
  using assms by (cases m; cases m') auto

lemma rbind_rel_same: "(\<And>x. m = Inr x \<Longrightarrow> rel_sum (=) B (f x) (g x)) \<Longrightarrow> rel_sum (=) B (rbind m f) (rbind m g)"
  by (cases m) auto

lemma rmap_rel:
  assumes "rel_sum (=) A m m'" "\<And>x y. A x y \<Longrightarrow> B (f x) (g y)"
  shows "rel_sum (=) B (rmap f m) (rmap g m')"
  using assms by (cases m; cases m') auto

lemma rel_sum_refl [simp]: "rel_sum (=) (=) x x"
  by (simp add: sum.rel_eq)

lemma retrieveChild_rel:
  assumes "list_all2 (rel_option (child_rel ret)) cs ds"
  shows "rel_sum (=) (rel_option (loads ret)) (retrieveChild ret cs x) (retrieveChild defaultChildRetriever ds x)"
proof (cases "unat x < length cs")
  case True
  then have "rel_option (child_rel ret) (cs ! unat x) (ds ! unat x)" "length ds = length cs"
    using assms by (auto simp: list_all2_conv_all_nth)
  then show ?thesis
    using True by (cases "cs ! unat x"; cases "ds ! unat x")
      (auto simp: retrieveChild_def children_at_def child_rel_def defaultChildRetriever_def)
qed (use assms in \<open>auto simp: retrieveChild_def children_at_def dest: list_all2_lengthD\<close>)

lemma set_child_rel:
  assumes "list_all2 (rel_option (child_rel ret)) cs ds" "rel_option (loads ret) n t" "retriever_ok ret"
  shows "rel_sum (=) (list_all2 (rel_option (child_rel ret))) (set_child cs x n) (set_child ds x t)"
proof -
  have "rel_option (child_rel ret) n t"
    using assms(2,3) loads_child_rel by (cases n; cases t) auto
  then show ?thesis
    using assms(1) by (auto simp: set_child_def list_all2_update_cong dest: list_all2_lengthD)
qed

lemma no_children_rel [simp]: "list_all2 (rel_option (child_rel ret)) no_children no_children"
  by (simp add: no_children_def list_all2_conv_all_nth)

lemma bitmap_rel:
  assumes "list_all2 (rel_option (child_rel ret)) cs ds" "length cs = 16"
  shows "childrenBitmap cs = childrenBitmap ds" "childrenNum cs = childrenNum ds"
proof -
  have n: "cs ! i = None \<longleftrightarrow> ds ! i = None" "length ds = length cs" if "i < length cs" for i
    using assms(1) that by (auto simp: list_all2_conv_all_nth)
  show "childrenBitmap cs = childrenBitmap ds"
    using n assms(2) by (intro bit_eqI) (auto simp: bit_childrenBitmap)
  show "childrenNum cs = childrenNum ds"
    using n(1) list_all2_lengthD [OF assms(1)] unfolding childrenNum_card
    by (intro arg_cong [where f = card] Collect_cong) metis
qed

text \<open>Every operation on a lazily loaded trie does what it does on the loaded one.\<close>

lemma getNode_rel:
  "rel_option (loads ret) n t \<Longrightarrow>
   rel_sum (=) (rel_option (loads ret)) (getNode ret n k) (getNode defaultChildRetriever t k)"
proof (induction "length k" arbitrary: n t k rule: less_induct)
  case less
  show ?case
  proof (cases n)
    case None
    then show ?thesis
      using less.prems by simp
  next
    case (Some m)
    then obtain u where u: "t = Some u" "loads ret m u"
      using less.prems by (auto simp: option_rel_Some1)
    show ?thesis
    proof (cases m)
      case (BranchNode pk pv cs)
      then obtain ds where d: "u = BranchNode pk pv ds" "list_all2 (rel_option (child_rel ret)) cs ds"
        using u by (auto simp: loads_branch_iff)
      let ?len = "getCommonPrefixLength pk k"
      have "k \<noteq> [] \<Longrightarrow> rel_sum (=) (rel_option (loads ret))
          (rbind (nibble_at k ?len) (\<lambda>idx. rbind (retrieveChild ret cs idx) (\<lambda>n. getNode ret n (drop (?len + 1) k))))
          (rbind (nibble_at k ?len) (\<lambda>idx. rbind (retrieveChild defaultChildRetriever ds idx)
             (\<lambda>n. getNode defaultChildRetriever n (drop (?len + 1) k))))"
        by (intro rbind_rel_same rbind_rel [OF retrieveChild_rel [OF d(2)]] less.hyps) simp_all
      then show ?thesis
        using u d Some BranchNode by (auto simp: Let_def)
    qed (use Some u in auto)
  qed
qed

lemma insert_leaf_rel: "retriever_ok ret \<Longrightarrow> n = LeafNode k0 v \<Longrightarrow>
  rel_sum (=) (loads ret) (insert_leaf pk pv k n) (insert_leaf pk pv k n)"
proof -
  assume a: "retriever_ok ret" "n = LeafNode k0 v"
  have s: "rel_sum (=) (list_all2 (rel_option (child_rel ret)))
      (set_child cs x (Some (LeafNode q w))) (set_child ds x (Some (LeafNode q w)))"
    if "list_all2 (rel_option (child_rel ret)) cs ds" for cs ds x q w
    using that a(1) by (intro set_child_rel) simp_all
  show ?thesis
    unfolding insert_leaf_def a(2) Let_def
    by (auto intro!: rmap_rel [OF s] rbind_rel [OF s] simp: loads_branch_iff)
qed

lemma insert_node_rel:
  assumes "retriever_ok ret" "loads ret n t"
  shows "rel_sum (=) (loads ret) (insert_node ret (Some n) k (LeafNode k0 v))
    (insert_node defaultChildRetriever (Some t) k (LeafNode k0 v))"
  using assms(2)
proof (induction "length k" arbitrary: n t k rule: less_induct)
  case less
  let ?l = "LeafNode k0 v"
  show ?case
  proof (cases n)
    case (LeafNode pk pv)
    then show ?thesis
      using less.prems insert_leaf_rel [OF assms(1)] by auto
  next
    case (BranchNode pk pv cs)
    then obtain ds where d: "t = BranchNode pk pv ds" "list_all2 (rel_option (child_rel ret)) cs ds"
      using less.prems by (auto simp: loads_branch_iff)
    let ?len = "getCommonPrefixLength k pk"
    have step: "rel_sum (=) (loads ret)
        (rbind (retrieveChild ret cs (k ! ?len)) (\<lambda>child. case child of
             Some c \<Rightarrow> rbind (insert_node ret (Some c) (drop (?len + 1) k) ?l) (\<lambda>n.
               rmap (BranchNode pk pv) (set_child cs (k ! ?len) (Some n)))
           | None \<Rightarrow> rmap (BranchNode pk pv) (set_child cs (k ! ?len) (Some (set_key (drop (?len + 1) k) ?l)))))
        (rbind (retrieveChild defaultChildRetriever ds (k ! ?len)) (\<lambda>child. case child of
             Some c \<Rightarrow> rbind (insert_node defaultChildRetriever (Some c) (drop (?len + 1) k) ?l) (\<lambda>n.
               rmap (BranchNode pk pv) (set_child ds (k ! ?len) (Some n)))
           | None \<Rightarrow> rmap (BranchNode pk pv) (set_child ds (k ! ?len) (Some (set_key (drop (?len + 1) k) ?l)))))"
      if "k \<noteq> pk" "?len = length pk"
    proof (intro rbind_rel [OF retrieveChild_rel [OF d(2)]], goal_cases)
      case (1 x y)
      have "length (drop (?len + 1) k) < length k"
        using drop_common_less that by force
      then show ?case
        using 1 assms(1) d(2)
        by (auto simp: loads_branch_iff intro!: rmap_rel [OF set_child_rel] rbind_rel [OF less.hyps]
            elim!: option.rel_cases)
    qed
    have split: "rel_sum (=) (loads ret)
        (rbind (set_child no_children (pk ! ?len) (Some (BranchNode (drop (?len + 1) pk) pv cs))) (\<lambda>bs.
          if length k \<le> ?len then Inr (BranchNode (take ?len k) (node_value ?l) bs)
          else rmap (BranchNode (take ?len k) None) (set_child bs (k ! ?len) (Some (set_key (drop (?len + 1) k) ?l)))))
        (rbind (set_child no_children (pk ! ?len) (Some (BranchNode (drop (?len + 1) pk) pv ds))) (\<lambda>bs.
          if length k \<le> ?len then Inr (BranchNode (take ?len k) (node_value ?l) bs)
          else rmap (BranchNode (take ?len k) None) (set_child bs (k ! ?len) (Some (set_key (drop (?len + 1) k) ?l)))))"
      using assms(1) d(2)
      by (intro rbind_rel [OF set_child_rel]) (auto simp: loads_branch_iff intro!: rmap_rel [OF set_child_rel])
    show ?thesis
      using d step split BranchNode by (auto simp: updateBranch.simps Let_def loads_branch_iff)
  qed (use less.prems in auto)
qed

lemma handleDeletion_rel:
  assumes "retriever_ok ret" "list_all2 (rel_option (child_rel ret)) cs ds" "length cs = 16"
  shows "rel_sum (=) (loads ret) (handleDeletion ret pk pv cs (BranchNode pk pv cs) k)
    (handleDeletion defaultChildRetriever pk pv ds (BranchNode pk pv ds) k)"
proof -
  let ?idx = "of_nat (only_child_loop 16 0 (childrenBitmap ds)) :: byte"
  have "rel_sum (=) (loads ret)
      (rbind (retrieveChild ret cs ?idx) (\<lambda>child. case child of
            None \<Rightarrow> Inl OUT_OF_RANGE
          | Some (LeafNode ck cv) \<Rightarrow> Inr (LeafNode (pk @ ?idx # ck) cv)
          | Some (BranchNode ck cv ccs) \<Rightarrow> Inr (BranchNode (pk @ ?idx # ck) cv ccs)
          | Some (DummyNode d) \<Rightarrow> Inr (BranchNode pk pv cs)))
      (rbind (retrieveChild defaultChildRetriever ds ?idx) (\<lambda>child. case child of
            None \<Rightarrow> Inl OUT_OF_RANGE
          | Some (LeafNode ck cv) \<Rightarrow> Inr (LeafNode (pk @ ?idx # ck) cv)
          | Some (BranchNode ck cv ccs) \<Rightarrow> Inr (BranchNode (pk @ ?idx # ck) cv ccs)
          | Some (DummyNode d) \<Rightarrow> Inr (BranchNode pk pv ds)))"
    by (intro rbind_rel [OF retrieveChild_rel [OF assms(2)]])
      (auto elim!: option.rel_cases simp: loads_branch_iff split: node.splits dest: loads_not_dummy)
  then show ?thesis
    using assms bitmap_rel [OF assms(2,3)] by (auto simp: handleDeletion_def Let_def loads_branch_iff)
qed

lemma deleteNode_rel:
  assumes "retriever_ok ret"
  shows "rel_option (loads ret) n t \<Longrightarrow> opt_all trie_wf t \<Longrightarrow>
    rel_sum (=) (rel_option (loads ret)) (deleteNode ret n k) (deleteNode defaultChildRetriever t k)"
proof (induction "length k" arbitrary: n t k rule: less_induct)
  case less
  show ?case
  proof (cases n)
    case None
    then show ?thesis
      using less.prems by simp
  next
    case (Some m)
    then obtain u where u: "t = Some u" "loads ret m u" "trie_wf u"
      using less.prems by (auto simp: option_rel_Some1)
    show ?thesis
    proof (cases m)
      case (BranchNode pk pv cs)
      then obtain ds where d: "u = BranchNode pk pv ds" "list_all2 (rel_option (child_rel ret)) cs ds"
        using u by (auto simp: loads_branch_iff)
      have len: "length cs = 16"
        using d u(3) list_all2_lengthD [OF d(2)] by simp
      let ?len = "getCommonPrefixLength pk k"
      have wf: "opt_all trie_wf c" if "retrieveChild defaultChildRetriever ds x = Inr c" for x c
        using that u(3) d(1) list_all_slot [of trie_wf ds x]
        by (auto simp: retrieveChild_def children_at_def defaultChildRetriever_def slot_def opt_all_def
            split: if_splits option.splits)
      have step: "rel_sum (=) (rel_option (loads ret))
          (rbind (retrieveChild ret cs idx) (\<lambda>child. rbind (deleteNode ret child (drop (?len + 1) k)) (\<lambda>n.
             rbind (set_child cs idx n) (\<lambda>cs. rmap Some (handleDeletion ret pk pv cs (BranchNode pk pv cs) k)))))
          (rbind (retrieveChild defaultChildRetriever ds idx) (\<lambda>child. rbind (deleteNode defaultChildRetriever child (drop (?len + 1) k)) (\<lambda>n.
             rbind (set_child ds idx n) (\<lambda>cs. rmap Some (handleDeletion defaultChildRetriever pk pv cs (BranchNode pk pv cs) k)))))"
        if "k \<noteq> []" for idx
      proof (intro rbind_rel [OF retrieveChild_rel [OF d(2)]], goal_cases)
        case (1 c e)
        have del: "rel_sum (=) (rel_option (loads ret)) (deleteNode ret c (drop (?len + 1) k))
            (deleteNode defaultChildRetriever e (drop (?len + 1) k))"
          using that 1 wf by (intro less.hyps) simp_all
        show ?case
        proof (intro rbind_rel [OF del], goal_cases)
          case (1 n' t')
          then show ?case
            using d(2) len assms
            by (intro rbind_rel [OF set_child_rel] rmap_rel [OF handleDeletion_rel])
              (auto simp: set_child_def split: if_splits, metis length_list_update list_all2_lengthD)
        qed
      qed
      show ?thesis
      proof (cases "pk = k \<or> k = []")
        case True
        then show ?thesis
          using u d len Some BranchNode assms by (auto simp: Let_def intro!: rmap_rel [OF handleDeletion_rel])
      next
        case False
        then show ?thesis
          using u d Some BranchNode step by (auto simp: Let_def intro!: rbind_rel_same)
      qed
    qed (use Some u in auto)
  qed
qed

lemma detachNode_rel:
  assumes "retriever_ok ret"
  shows "rel_option (loads ret) n t \<Longrightarrow>
    rel_sum (=) (rel_option (loads ret)) (detachNode ret n p) (detachNode defaultChildRetriever t p)"
proof (induction "length p" arbitrary: n t p rule: less_induct)
  case less
  show ?case
  proof (cases n)
    case None
    then show ?thesis
      using less.prems by simp
  next
    case (Some m)
    then obtain u where u: "t = Some u" "loads ret m u"
      using less.prems by (auto simp: option_rel_Some1)
    show ?thesis
    proof (cases m)
      case (BranchNode pk pv cs)
      then obtain ds where d: "u = BranchNode pk pv ds" "list_all2 (rel_option (child_rel ret)) cs ds"
        using u by (auto simp: loads_branch_iff)
      let ?len = "getCommonPrefixLength pk p"
      have "rel_sum (=) (rel_option (loads ret))
          (rbind (retrieveChild ret cs (p ! ?len)) (\<lambda>child.
              if child = None then Inr (Some m)
              else rbind (detachNode ret child (drop (?len + 1) p)) (\<lambda>n.
                  rmap (\<lambda>cs. Some (BranchNode pk pv cs)) (set_child cs (p ! ?len) n))))
          (rbind (retrieveChild defaultChildRetriever ds (p ! ?len)) (\<lambda>child.
              if child = None then Inr (Some u)
              else rbind (detachNode defaultChildRetriever child (drop (?len + 1) p)) (\<lambda>n.
                  rmap (\<lambda>cs. Some (BranchNode pk pv cs)) (set_child ds (p ! ?len) n))))"
        if "p \<noteq> []"
      proof (intro rbind_rel [OF retrieveChild_rel [OF d(2)]], goal_cases)
        case (1 c e)
        have "rel_sum (=) (rel_option (loads ret)) (detachNode ret c (drop (?len + 1) p))
            (detachNode defaultChildRetriever e (drop (?len + 1) p))"
          using that 1 by (intro less.hyps) simp_all
        then have "rel_sum (=) (rel_option (loads ret))
            (rbind (detachNode ret c (drop (?len + 1) p)) (\<lambda>n.
                  rmap (\<lambda>cs. Some (BranchNode pk pv cs)) (set_child cs (p ! ?len) n)))
            (rbind (detachNode defaultChildRetriever e (drop (?len + 1) p)) (\<lambda>n.
                  rmap (\<lambda>cs. Some (BranchNode pk pv cs)) (set_child ds (p ! ?len) n)))"
          by (rule rbind_rel) (use d(2) assms in \<open>auto intro!: rmap_rel [OF set_child_rel] simp: loads_branch_iff\<close>)
        then show ?case
          using 1 u by (auto elim!: option.rel_cases)
      qed
      then show ?thesis
        using u d Some BranchNode by (cases "p = []") (auto simp: Let_def)
    qed (use Some u in auto)
  qed
qed

text \<open>The operations on a trie opened from a database, against the loaded trie.\<close>

lemma trie_get_rel:
  "rel_option (loads ret) n t \<Longrightarrow> trie_get ret n key = trie_get defaultChildRetriever t key"
proof -
  assume a: "rel_option (loads ret) n t"
  have "(n = None) = (t = None)"
    using a by (cases n; cases t) auto
  moreover have "rel_sum (=) (=)
      (rbind (getNode ret n (keyToNibbles key)) (\<lambda>n. case n of None \<Rightarrow> Inl NO_VALUE
        | Some n \<Rightarrow> (case node_value n of Some v \<Rightarrow> Inr v | None \<Rightarrow> Inl NO_VALUE)))
      (rbind (getNode defaultChildRetriever t (keyToNibbles key)) (\<lambda>n. case n of None \<Rightarrow> Inl NO_VALUE
        | Some n \<Rightarrow> (case node_value n of Some v \<Rightarrow> Inr v | None \<Rightarrow> Inl NO_VALUE)))"
    by (intro rbind_rel [OF getNode_rel [OF a]]) (auto elim!: option.rel_cases dest: loads_key split: option.splits)
  ultimately show ?thesis
    by (simp add: trie_get_def sum.rel_eq)
qed

lemma trie_put_rel:
  assumes "retriever_ok ret" "rel_option (loads ret) n t"
  shows "rel_sum (=) (rel_option (loads ret)) (trie_put ret n key v) (trie_put defaultChildRetriever t key v)"
  using assms insert_node_rel [OF assms(1)]
  by (cases n; cases t) (auto simp: trie_put_def Let_def intro!: rbind_rel)

lemma trie_remove_rel:
  assumes "retriever_ok ret" "rel_option (loads ret) n t" "opt_all trie_wf t"
  shows "rel_sum (=) (rel_option (loads ret)) (trie_remove ret n key) (trie_remove defaultChildRetriever t key)"
  using deleteNode_rel [OF assms] assms(2) by (cases n; cases t) (auto simp: trie_remove_def)

lemma trie_clearPrefix_rel:
  assumes "retriever_ok ret" "rel_option (loads ret) n t"
  shows "rel_sum (=) (rel_option (loads ret)) (trie_clearPrefix ret n p) (trie_clearPrefix defaultChildRetriever t p)"
  using detachNode_rel [OF assms] assms(2)
  by (cases n; cases t) (auto simp: trie_clearPrefix_def simp del: detachNode.simps)

end
