(* ===== verification/Trie_Commit.thy ===== *)
theory Trie_Commit
  imports Trie_Storage
begin

text \<open>
  Committing a trie to the database and opening it again: what the serializer writes can be read
  back, node by node, and the tries stored before stay readable.
\<close>

section \<open>Storing\<close>

fun subnodes :: "node \<Rightarrow> node set" where
  "subnodes (BranchNode k v cs) =
     insert (BranchNode k v cs) (\<Union>c \<in> set cs. case c of None \<Rightarrow> {} | Some c \<Rightarrow> subnodes c)"
| "subnodes n = {n}"

definition encodings :: "(bytes \<Rightarrow> bytes) \<Rightarrow> node \<Rightarrow> bytes set" where
  "encodings h t = {enc. \<exists>s \<in> subnodes t. encodeNode h s = Inr enc}"

text \<open>The entries that a batch adds are values under their Merkle values.\<close>

definition merkle_entries :: "(bytes \<Rightarrow> bytes) \<Rightarrow> bytes \<Rightarrow> put_batch \<Rightarrow> bool" where
  "merkle_entries h np new \<longleftrightarrow> (\<forall>(k, v) \<in> set new. k = np @ merkleValue h v)"

definition holds :: "db \<Rightarrow> put_batch \<Rightarrow> bool" where
  "holds db new \<longleftrightarrow> (\<forall>(k, v) \<in> set new. db k = Some v)"

definition not_empty_hash :: "(bytes \<Rightarrow> bytes) \<Rightarrow> put_batch \<Rightarrow> bool" where
  "not_empty_hash h new \<longleftrightarrow> (\<forall>(k, v) \<in> set new. h v \<noteq> h [0])"

lemma entries_append [simp]:
  "merkle_entries h np (a @ b) \<longleftrightarrow> merkle_entries h np a \<and> merkle_entries h np b"
  "holds db (a @ b) \<longleftrightarrow> holds db a \<and> holds db b"
  "not_empty_hash h (a @ b) \<longleftrightarrow> not_empty_hash h a \<and> not_empty_hash h b"
  "merkle_entries h np []" "holds db []" "not_empty_hash h []"
  by (auto simp: merkle_entries_def holds_def not_empty_hash_def)

lemma encodeNode_nonempty: "encodeNode h n = Inr enc \<Longrightarrow> enc \<noteq> []"
proof -
  assume e: "encodeNode h n = Inr enc"
  have hd: "hb \<noteq> []" if "encodeHeader m = Inr hb" for m hb
    using that by (auto simp: encodeHeader_def Let_def split: if_splits)
  have ext: "\<exists>r. res = acc @ r" if "encodeChildren h cs acc = Inr res" for cs acc res
    using that
  proof (induction cs arbitrary: acc)
    case (Cons c cs)
    show ?case
    proof (cases c)
      case None
      then show ?thesis
        using Cons by simp
    next
      case (Some m)
      then obtain e where "encodeChildren h cs (acc @ e) = Inr res"
        using Cons.prems by (auto split: if_splits elim!: rbind_InrE)
      then show ?thesis
        using Cons.IH by fastforce
    qed
  qed simp
  show ?thesis
    using e
    by (cases n) (auto simp: encodeLeaf_def encodeBranch_head_def Let_def split: option.splits
        elim!: rbind_InrE dest!: ext dest: hd)
qed

text \<open>Replacing children by dummies with their stored keys does not change the encoding.\<close>

lemma stored_key_dummy [simp]: "stored_key h (DummyNode d) = d"
  by (simp add: stored_key_def)

definition dummies :: "(bytes \<Rightarrow> bytes) \<Rightarrow> node option list \<Rightarrow> node option list" where
  "dummies h cs = map (map_option (\<lambda>c. DummyNode (stored_key h c))) cs"

lemma dummies_bitmap: "length cs = 16 \<Longrightarrow> childrenBitmap (dummies h cs) = childrenBitmap cs"
  by (intro bit_eqI) (auto simp: bit_childrenBitmap dummies_def)

lemma dummies_wire: "map (child_wire (stored_key h)) (dummies h cs) = map (child_wire (stored_key h)) cs"
  by (auto simp: dummies_def child_wire_def split: option.splits)

definition hash32 :: "(bytes \<Rightarrow> bytes) \<Rightarrow> bool" where
  "hash32 h \<longleftrightarrow> (\<forall>x. length (h x) = 32)"

lemma encodeNode_dummies:
  assumes "hash32 h" "node_fits (BranchNode k v cs)"
  shows "\<exists>enc. encodeNode h (BranchNode k v cs) = Inr enc \<and> encodeNode h (BranchNode k v (dummies h cs)) = Inr enc"
    and "node_fits (BranchNode k v (dummies h cs))"
proof -
  have sk: "length (stored_key h c) < 2 ^ 64" if "Some c \<in> set cs" for c
    using assms that stored_key_length [of h c] by (auto simp: hash32_def list_all_iff)
  show fits: "node_fits (BranchNode k v (dummies h cs))"
    using assms(2) sk by (auto simp: dummies_def list_all_iff split: option.splits)
  obtain enc where e: "encodeNode h (BranchNode k v cs) = Inr enc"
    using encodeNode_total(1) [of h "BranchNode k v cs"] assms by (auto simp: hash32_def)
  obtain enc' where e': "encodeNode h (BranchNode k v (dummies h cs)) = Inr enc'"
    using encodeNode_total(1) [of h "BranchNode k v (dummies h cs)"] assms fits by (auto simp: hash32_def)
  have ok: "node_ok h (BranchNode k v cs)" "node_ok h (BranchNode k v (dummies h cs))"
    using assms fits by (intro node_fits_ok; simp add: hash32_def)+
  have len: "length cs = 16"
    using assms(2) by simp
  have hd: "encodeHeader (BranchNode k v (dummies h cs)) = encodeHeader (BranchNode k v cs)"
    by (simp add: encodeHeader_def)
  have "enc = enc'"
    by (rule encode_branch_form [OF e ok(1)], rule encode_branch_form [OF e' ok(2)])
       (simp add: hd dummies_wire dummies_bitmap [OF len])
  then show "\<exists>enc. encodeNode h (BranchNode k v cs) = Inr enc \<and> encodeNode h (BranchNode k v (dummies h cs)) = Inr enc"
    using e e' by blast
qed

lemma hash32_ok: "hash32 h \<Longrightarrow> node_fits n \<Longrightarrow> \<not> isDummy n \<Longrightarrow> node_ok h n"
  by (rule node_fits_ok) (auto simp: hash32_def)

lemma retrieve_stored:
  assumes "hash32 h" "encodeNode h m = Inr enc" "node_ok h m" "h enc \<noteq> h [0]"
    and "key = merkleValue h enc \<or> key = h enc" "db (np @ key) = Some enc"
  shows "retrieveNode h np db key = Inr (Some (shallow h m))"
proof -
  have hash: "h x \<noteq> []" "length (h x) = 32" for x
    using assms(1) by (metis hash32_def list.size(3) zero_neq_numeral, simp add: hash32_def)
  have "key \<noteq> []" "key \<noteq> h [0]"
    using assms(4,5) encodeNode_nonempty [OF assms(2)] hash hash(1) [symmetric]
    by (auto simp: merkleValue_def split: if_splits)
  then show ?thesis
    using decodeNode_encodeNode [OF assms(2,3)] assms(6)
    by (simp add: retrieveNode_def getEmptyRootHash_def backend_get_def prefixKey_def)
qed

lemma shallow_dummies:
  "map (map_option (\<lambda>c. DummyNode (stored_key h c))) (dummies h cs) = dummies h cs"
  by (simp add: dummies_def option.map_comp comp_def)

definition all_children :: "(node \<Rightarrow> bool) \<Rightarrow> node option list \<Rightarrow> bool" where
  "all_children P cs \<longleftrightarrow> (\<forall>c. Some c \<in> set cs \<longrightarrow> P c)"

lemma all_children_simps [simp]:
  "all_children P []"
  "all_children P (None # cs) = all_children P cs"
  "all_children P (Some c # cs) \<longleftrightarrow> P c \<and> all_children P cs"
  by (auto simp: all_children_def)

lemma all_children_list_all: "list_all (case_option True P) cs = all_children P cs"
  by (auto simp: list_all_iff all_children_def split: option.splits)

lemma loads_mono:
  assumes "loads (storage_retriever h np db) n t" "db \<subseteq>\<^sub>m db'"
  shows "loads (storage_retriever h np db') n t"
  using assms(1)
proof induction
  case (branch cs ds k v)
  have "retrieveNode h np db' k = Inr (Some c)" if "retrieveNode h np db k = Inr (Some c)" for k c
    using that assms(2)
    by (auto simp: retrieveNode_def backend_get_def map_le_def dom_def split: if_splits option.splits)
  then have "storage_retriever h np db' c = Inr (Some c')" if "storage_retriever h np db c = Inr (Some c')" for c c'
    using that by (simp add: storage_retriever_def split: if_splits)
  then show ?case
    using branch by (intro loads.branch) blast+
qed (rule loads.leaf)

lemma child_rel_mono:
  assumes "child_rel (storage_retriever h np db) c t" "db \<subseteq>\<^sub>m db'"
  shows "child_rel (storage_retriever h np db') c t"
proof -
  have "retrieveNode h np db' k = Inr (Some c)" if "retrieveNode h np db k = Inr (Some c)" for k c
    using that assms(2)
    by (auto simp: retrieveNode_def backend_get_def map_le_def dom_def split: if_splits option.splits)
  then show ?thesis
    using assms loads_mono by (auto simp: child_rel_def storage_retriever_def split: if_splits)
qed

text \<open>
  What storing a node achieves: in every database that extends \<open>db0\<close> and holds the entries
  written, the key leads to an image of the node.
\<close>

definition leads_to :: "(bytes \<Rightarrow> bytes) \<Rightarrow> bytes \<Rightarrow> db \<Rightarrow> put_batch \<Rightarrow> node \<Rightarrow> node \<Rightarrow> bool" where
  "leads_to h np db0 new d t \<longleftrightarrow>
     (\<forall>db. db0 \<subseteq>\<^sub>m db \<longrightarrow> holds db new \<longrightarrow> not_empty_hash h new \<longrightarrow> child_rel (storage_retriever h np db) d t)"

lemma leads_to_append:
  "leads_to h np db0 new d t \<Longrightarrow> leads_to h np db0 (new @ new') d t"
  "leads_to h np db0 new' d t \<Longrightarrow> leads_to h np db0 (new @ new') d t"
  by (auto simp: leads_to_def)

definition stores_children :: "(bytes \<Rightarrow> bytes) \<Rightarrow> bytes \<Rightarrow> db \<Rightarrow> node option list \<Rightarrow> node option list \<Rightarrow> put_batch \<Rightarrow> bool" where
  "stores_children h np db0 cs ds new \<longleftrightarrow>
     snd ` set new \<subseteq> (\<Union>c \<in> {c. Some c \<in> set cs}. encodings h c) \<and> merkle_entries h np new \<and>
     list_all2 (rel_option (leads_to h np db0 new)) (dummies h cs) ds"

lemma stores_children_loads:
  assumes "stores_children h np db0 cs ds new" "db0 \<subseteq>\<^sub>m db" "holds db new" "not_empty_hash h new"
  shows "loads (storage_retriever h np db) (BranchNode k v (dummies h cs)) (BranchNode k v ds)"
  using assms
  by (auto simp: stores_children_def loads_branch_iff leads_to_def
      elim!: list_all2_mono option.rel_mono_strong)

lemma storeNode_stores:
  shows "hash32 h \<Longrightarrow> node_fits n \<Longrightarrow> loads (storage_retriever h np db0) n t \<Longrightarrow>
      \<exists>new enc. storeNode h np n batch = Inr (merkleValue h enc, batch @ new) \<and> encodeNode h n = Inr enc \<and>
        snd ` set new \<subseteq> encodings h n \<and> merkle_entries h np new \<and>
        leads_to h np db0 new (DummyNode (merkleValue h enc)) t"
    and "hash32 h \<Longrightarrow> all_children node_fits cs \<Longrightarrow>
      list_all2 (rel_option (child_rel (storage_retriever h np db0))) cs ds \<Longrightarrow>
      \<exists>new. storeChildren h np cs batch = Inr (dummies h cs, batch @ new) \<and> stores_children h np db0 cs ds new"
proof (induction h np n batch and h np cs batch arbitrary: t and ds rule: storeNode_storeChildren.induct)
  case (1 h np k v cs batch)
  obtain ds where ds: "t = BranchNode k v ds" "list_all2 (rel_option (child_rel (storage_retriever h np db0))) cs ds"
    using "1.prems"(3) by (auto simp: loads_branch_iff)
  have ch: "all_children node_fits cs"
    using "1.prems"(2) by (auto simp: all_children_list_all)
  obtain new where new: "storeChildren h np cs batch = Inr (dummies h cs, batch @ new)"
      "stores_children h np db0 cs ds new"
    using "1.IH"(1) [OF "1.prems"(1) ch ds(2)] by blast
  obtain enc where enc: "encodeNode h (BranchNode k v cs) = Inr enc"
      "encodeNode h (BranchNode k v (dummies h cs)) = Inr enc"
    using encodeNode_dummies(1) [OF "1.prems"(1,2)] by blast
  let ?e = "(np @ merkleValue h enc, enc)"
  have "child_rel (storage_retriever h np db) (DummyNode (merkleValue h enc)) t"
    if "db0 \<subseteq>\<^sub>m db" "holds db (new @ [?e])" "not_empty_hash h (new @ [?e])" for db
  proof -
    have "retrieveNode h np db (merkleValue h enc) = Inr (Some (BranchNode k v (dummies h cs)))"
      using retrieve_stored [OF "1.prems"(1) enc(2), of "merkleValue h enc" db np]
        hash32_ok [OF "1.prems"(1) encodeNode_dummies(2) [OF "1.prems"(1,2)]] that
      by (simp add: shallow_dummies holds_def not_empty_hash_def)
    then show ?thesis
      using stores_children_loads [OF new(2) that(1)] that(2,3)
      by (simp add: child_rel_def storage_retriever_def ds(1))
  qed
  moreover have "snd ` set (new @ [?e]) \<subseteq> encodings h (BranchNode k v cs)"
    using new(2) enc(1) by (force simp: encodings_def stores_children_def)
  ultimately show ?case
    using new enc
    by (intro exI [of _ "new @ [?e]"] exI [of _ enc])
       (simp add: backend_batch_put_def prefixKey_def merkle_entries_def stores_children_def leads_to_def)
next
  case (2 h np k v batch)
  obtain enc where enc: "encodeNode h (LeafNode k v) = Inr enc"
    using encodeNode_total(1) [of h "LeafNode k v"] 2 by (auto simp: hash32_def)
  have ok: "node_ok h (LeafNode k v)"
    using hash32_ok [OF "2.prems"(1,2)] by simp
  show ?case
    using enc retrieve_stored [OF "2.prems"(1) enc ok] "2.prems"(3)
    by (intro exI [of _ "[(np @ merkleValue h enc, enc)]"] exI [of _ enc])
       (auto simp: backend_batch_put_def prefixKey_def merkle_entries_def encodings_def holds_def
         not_empty_hash_def child_rel_def storage_retriever_def leads_to_def)
next
  case (3 h np d batch)
  then show ?case by blast
next
  case (4 h np batch)
  then show ?case by (auto simp: dummies_def stores_children_def)
next
  case (5 h np cs batch)
  obtain ds' where ds: "ds = None # ds'" "list_all2 (rel_option (child_rel (storage_retriever h np db0))) cs ds'"
    using "5.prems"(3) by (auto simp: list_all2_Cons1)
  obtain new where "storeChildren h np cs batch = Inr (dummies h cs, batch @ new)" "stores_children h np db0 cs ds' new"
    using "5.IH" [OF "5.prems"(1) _ ds(2)] "5.prems"(2) by auto
  then show ?case
    by (intro exI [of _ new]) (simp add: dummies_def stores_children_def ds(1))
next
  case (6 h np child cs batch)
  obtain u ds' where ds: "ds = Some u # ds'" "child_rel (storage_retriever h np db0) child u"
      "list_all2 (rel_option (child_rel (storage_retriever h np db0))) cs ds'"
    using "6.prems"(3) by (auto simp: list_all2_Cons1 option_rel_Some1)
  have fits: "node_fits child" "all_children node_fits cs"
    using "6.prems"(2) by simp_all
  show ?case
  proof (cases "isDummy child")
    case True
    then obtain d where d: "child = DummyNode d"
      by (cases child) auto
    obtain new where new: "storeChildren h np cs batch = Inr (dummies h cs, batch @ new)" "stores_children h np db0 cs ds' new"
      using "6.IH"(1) [OF True "6.prems"(1) fits(2) ds(3)] by blast
    have "leads_to h np db0 new (DummyNode d) u"
      using ds(2) child_rel_mono d by (auto simp: leads_to_def)
    then show ?thesis
      using new d by (intro exI [of _ new]) (auto simp: dummies_def stores_children_def ds(1))
  next
    case False
    have "loads (storage_retriever h np db0) child u"
      using ds(2) False by (simp add: child_rel_def storage_retriever_def)
    then obtain new enc where new: "storeNode h np child batch = Inr (merkleValue h enc, batch @ new)"
        "encodeNode h child = Inr enc" "snd ` set new \<subseteq> encodings h child" "merkle_entries h np new"
        "leads_to h np db0 new (DummyNode (merkleValue h enc)) u"
      using "6.IH"(2) [OF False "6.prems"(1) fits(1)] by blast
    obtain new' where new': "storeChildren h np cs (batch @ new) = Inr (dummies h cs, (batch @ new) @ new')"
        "stores_children h np db0 cs ds' new'"
      using "6.IH"(3) [OF False new(1) refl "6.prems"(1) fits(2) ds(3)] by blast
    have "stored_key h child = merkleValue h enc"
      using False new(2) by (cases child) (simp_all add: stored_key_def)
    then have d: "dummies h (Some child # cs) = Some (DummyNode (merkleValue h enc)) # dummies h cs"
      by (simp add: dummies_def)
    have "list_all2 (rel_option (leads_to h np db0 (new @ new'))) (dummies h cs) ds'"
      using new'(2) leads_to_append(2)
      by (auto simp: stores_children_def elim!: list_all2_mono option.rel_mono_strong)
    then have "stores_children h np db0 (Some child # cs) ds (new @ new')"
      using new(3-5) new'(2) leads_to_append(1) by (auto simp: stores_children_def d ds(1))
    moreover have "storeChildren h np (Some child # cs) batch = Inr (dummies h (Some child # cs), batch @ new @ new')"
      unfolding d using False new(1) new'(1) by simp
    ultimately show ?thesis
      by blast
  qed
qed

section \<open>The content-addressed database\<close>

text \<open>
  Every entry of the node database stands under the Merkle value of its value or, for a root,
  under the hash of it. Two keys of this kind meet only when the hash collides: a short encoding
  is its own key and has fewer than 32 bytes.
\<close>

definition merkle_key :: "(bytes \<Rightarrow> bytes) \<Rightarrow> bytes \<Rightarrow> bytes \<Rightarrow> bool" where
  "merkle_key h k v \<longleftrightarrow> k = merkleValue h v \<or> k = h v"

definition merkle_db :: "(bytes \<Rightarrow> bytes) \<Rightarrow> bytes \<Rightarrow> db \<Rightarrow> bytes set \<Rightarrow> bool" where
  "merkle_db h np db S \<longleftrightarrow> (\<forall>k v. db (np @ k) = Some v \<longrightarrow> v \<in> S \<and> merkle_key h k v)"

lemma merkle_key_inj:
  assumes "hash32 h" "inj_on h S" "v \<in> S" "w \<in> S" "merkle_key h k v" "merkle_key h k w"
  shows "v = w"
proof -
  have "length (h v) = 32" "length (h w) = 32"
    using assms(1) by (simp_all add: hash32_def)
  then have "v = w \<or> h v = h w"
    using assms(5,6) by (auto simp: merkle_key_def merkleValue_def split: if_splits)
  then show ?thesis
    using inj_onD [OF assms(2) _ assms(3,4)] by blast
qed

lemma commit_lookup:
  assumes "\<And>k v w. (k, v) \<in> set batch \<Longrightarrow> (k, w) \<in> set batch \<Longrightarrow> v = w"
  shows "backend_batch_commit batch db k = (if k \<in> fst ` set batch then map_of batch k else db k)"
  using assms
proof (induction batch arbitrary: db)
  case (Cons e batch)
  obtain k' v' where e: "e = (k', v')"
    by fastforce
  have step: "backend_batch_commit (e # batch) db = backend_batch_commit batch (db(k' \<mapsto> v'))"
    by (simp add: backend_batch_commit_def e)
  have IH: "backend_batch_commit batch (db(k' \<mapsto> v')) k =
      (if k \<in> fst ` set batch then map_of batch k else (db(k' \<mapsto> v')) k)"
    using Cons.prems by (intro Cons.IH) (meson list.set_intros(2))
  have "map_of batch k = Some v'" if "k \<in> fst ` set batch" "k = k'"
  proof -
    have "map_of batch k \<noteq> None"
      using that(1) by (simp add: map_of_eq_None_iff)
    then obtain w where w: "map_of batch k = Some w"
      by blast
    have "w = v'"
      by (rule Cons.prems [of k]) (use map_of_SomeD [OF w] that(2) e in simp_all)
    then show ?thesis
      using w by simp
  qed
  then show ?case
    unfolding step IH by (auto simp: e)
qed (simp add: backend_batch_commit_def)

lemma holds_commit:
  assumes "\<And>k v w. (k, v) \<in> set batch \<Longrightarrow> (k, w) \<in> set batch \<Longrightarrow> v = w"
  shows "holds (backend_batch_commit batch db) batch"
  unfolding holds_def
proof (intro ballI, clarify)
  fix k v assume kv: "(k, v) \<in> set batch"
  then obtain w where w: "map_of batch k = Some w"
    using weak_map_of_SomeI by fast
  have "k \<in> fst ` set batch" "w = v"
    using kv assms [OF map_of_SomeD [OF w] kv] by (simp_all add: rev_image_eqI)
  then show "backend_batch_commit batch db k = Some v"
    using w commit_lookup [of batch db k, OF assms] by simp
qed

lemma encode_not_zero:
  assumes "encodeNode h n = Inr enc" "node_ok h n"
  shows "enc \<noteq> [0]"
proof
  assume "enc = [0]"
  then have "decodeNode [0] = Inr (shallow h n)"
    using decodeNode_encodeNode [OF assms] by simp
  then show False
    by (auto simp: decodeNode_def decodeHeader_def stream_hasMore_def Let_def)
qed

lemma subnodes_fits: "node_fits t \<Longrightarrow> s \<in> subnodes t \<Longrightarrow> node_fits s"
  by (induction t rule: subnodes.induct)
     (fastforce simp: all_children_list_all all_children_def split: option.splits)+

lemma encodings_not_zero:
  assumes "hash32 h" "node_fits t"
  shows "[0] \<notin> encodings h t"
proof
  assume "[0] \<in> encodings h t"
  then obtain s where s: "s \<in> subnodes t" "encodeNode h s = Inr [0]"
    by (auto simp: encodings_def)
  then have "\<not> isDummy s"
    by (cases s) auto
  then show False
    using encode_not_zero [OF s(2)] hash32_ok [OF assms(1) subnodes_fits [OF assms(2) s(1)]] by simp
qed

lemma subnodes_self [simp]: "t \<in> subnodes t"
  by (cases t) simp_all

lemma root_batch:
  assumes "hash32 h" "node_fits n" "loads (storage_retriever h np db0) n t"
  shows "\<exists>new n' enc. (case n of BranchNode k v cs \<Rightarrow>
        rmap (\<lambda>(cs, batch). (BranchNode k v cs, batch)) (storeChildren h np cs []) | _ \<Rightarrow> Inr (n, [])) = Inr (n', new) \<and>
      encodeNode h n' = Inr enc \<and> encodeNode h n = Inr enc \<and> snd ` set new \<subseteq> encodings h n \<and>
      merkle_entries h np new \<and> node_ok h n' \<and> shallow h n' = n' \<and>
      (\<forall>db. db0 \<subseteq>\<^sub>m db \<longrightarrow> holds db new \<longrightarrow> not_empty_hash h new \<longrightarrow> loads (storage_retriever h np db) n' t)"
proof (cases n)
  case (LeafNode k v)
  obtain enc where "encodeNode h n = Inr enc"
    using assms encodeNode_total(1) [of h n] LeafNode by (auto simp: hash32_def)
  moreover have "node_ok h n"
    using hash32_ok [OF assms(1,2)] LeafNode by simp
  ultimately show ?thesis
    using LeafNode assms(3) by (intro exI [of _ "[]"] exI [of _ n] exI [of _ enc]) simp
next
  case (BranchNode k v cs)
  obtain ds where ds: "t = BranchNode k v ds" "list_all2 (rel_option (child_rel (storage_retriever h np db0))) cs ds"
    using assms(3) by (auto simp: BranchNode loads_branch_iff)
  have ch: "all_children node_fits cs" and fits: "node_fits (BranchNode k v cs)"
    using assms(2) by (auto simp: BranchNode all_children_list_all)
  obtain new where new: "storeChildren h np cs [] = Inr (dummies h cs, new)" "stores_children h np db0 cs ds new"
    using storeNode_stores(2) [OF assms(1) ch ds(2), of "[]"] by auto
  obtain enc where enc: "encodeNode h (BranchNode k v cs) = Inr enc"
      "encodeNode h (BranchNode k v (dummies h cs)) = Inr enc"
    using encodeNode_dummies(1) [OF assms(1) fits] by blast
  have "snd ` set new \<subseteq> encodings h n"
    using new(2) by (force simp: encodings_def BranchNode stores_children_def)
  moreover have "node_ok h (BranchNode k v (dummies h cs))"
    using hash32_ok [OF assms(1) encodeNode_dummies(2) [OF assms(1) fits]] by simp
  ultimately show ?thesis
    using new enc stores_children_loads [OF new(2)]
    by (intro exI [of _ new] exI [of _ "BranchNode k v (dummies h cs)"] exI [of _ enc])
       (simp add: BranchNode shallow_dummies ds(1) stores_children_def)
qed (use assms in auto)

text \<open>
  Everything that storing a root writes, and the state of the database afterwards.
\<close>

lemma storeRootNode_stores:
  assumes "hash32 h" "node_fits n" "loads (storage_retriever h np db0) n t" "inj_on h (insert [0] (encodings h n))"
  shows "\<exists>n' batch enc. storeRootNode h np db n = Inr (h enc, n', backend_batch_commit batch db) \<and>
     encodeNode h n = Inr enc \<and>
     (\<forall>k v. (k, v) \<in> set batch \<longrightarrow> (\<exists>k'. k = np @ k' \<and> v \<in> encodings h n \<and> merkle_key h k' v)) \<and>
     (db0 \<subseteq>\<^sub>m backend_batch_commit batch db \<longrightarrow> loads (storage_retriever h np (backend_batch_commit batch db)) n' t) \<and>
     retrieveTrie h np (backend_batch_commit batch db) (h enc) = Inr (Some n')"
proof -
  have neq: "h v \<noteq> h [0]" if "v \<in> encodings h n" for v
    using inj_onD [OF assms(4), of v "[0]"] that encodings_not_zero [OF assms(1,2)] by auto
  obtain new n' enc where new: "(case n of BranchNode k v cs \<Rightarrow>
        rmap (\<lambda>(cs, batch). (BranchNode k v cs, batch)) (storeChildren h np cs []) | _ \<Rightarrow> Inr (n, [])) = Inr (n', new)"
      "encodeNode h n' = Inr enc" "encodeNode h n = Inr enc" "snd ` set new \<subseteq> encodings h n"
      "merkle_entries h np new" "node_ok h n'" "shallow h n' = n'"
      "\<And>db. db0 \<subseteq>\<^sub>m db \<Longrightarrow> holds db new \<Longrightarrow> not_empty_hash h new \<Longrightarrow> loads (storage_retriever h np db) n' t"
    using root_batch [OF assms(1-3)] by blast
  let ?batch = "new @ [(np @ h enc, enc)]"
  let ?db = "backend_batch_commit ?batch db"
  have enc_in: "enc \<in> encodings h n"
    using new(3) by (auto simp: encodings_def intro: subnodes_self)
  have entries: "\<exists>k'. k = np @ k' \<and> v \<in> encodings h n \<and> merkle_key h k' v" if "(k, v) \<in> set ?batch" for k v
    using that new(4,5) enc_in by (force simp: merkle_entries_def merkle_key_def)
  have inj: "inj_on h (encodings h n)"
    using assms(4) by (rule inj_on_subset) auto
  have "v = w" if vw: "(k, v) \<in> set ?batch" "(k, w) \<in> set ?batch" for k v w
    using entries [OF vw(1)] entries [OF vw(2)] merkle_key_inj [OF assms(1) inj] by auto
  then have holds: "holds ?db ?batch"
    by (rule holds_commit)
  have ne: "not_empty_hash h new"
    using new(4) neq by (force simp: not_empty_hash_def)
  have "retrieveNode h np ?db (h enc) = Inr (Some n')"
    using retrieve_stored [OF assms(1) new(2,6) neq [OF enc_in]] holds new(7) by (simp add: holds_def)
  then have "retrieveTrie h np ?db (h enc) = Inr (Some n')"
    using neq [OF enc_in] by (simp add: retrieveTrie_def getEmptyRootHash_def)
  moreover have "storeRootNode h np db n = Inr (h enc, n', ?db)"
    using new(1,2) by (simp add: storeRootNode_def Let_def backend_batch_put_def prefixKey_def)
  ultimately show ?thesis
    using new(3,8) holds ne entries by (intro exI [of _ n'] exI [of _ ?batch] exI [of _ enc]) simp
qed

text \<open>
  A root hash \<open>key\<close> stands for the trie \<open>t\<close> in a database when opening it yields a lazily
  loaded image of \<open>t\<close>.
\<close>

definition stored :: "(bytes \<Rightarrow> bytes) \<Rightarrow> bytes \<Rightarrow> db \<Rightarrow> bytes \<Rightarrow> node option \<Rightarrow> bool" where
  "stored h np db key t \<longleftrightarrow>
     (\<exists>n. retrieveTrie h np db key = Inr n \<and> rel_option (loads (storage_retriever h np db)) n t)"

lemma stored_empty: "stored h np db (getEmptyRootHash h) None"
  by (simp add: stored_def retrieveTrie_def)

lemma retrieveTrie_mono:
  "retrieveTrie h np db key = Inr n \<Longrightarrow> db \<subseteq>\<^sub>m db' \<Longrightarrow> retrieveTrie h np db' key = Inr n"
  by (auto simp: retrieveTrie_def retrieveNode_def backend_get_def map_le_def dom_def
      split: if_splits option.splits)

lemma stored_mono:
  assumes "stored h np db key t" "db \<subseteq>\<^sub>m db'"
  shows "stored h np db' key t"
proof -
  obtain n where n: "retrieveTrie h np db key = Inr n" "rel_option (loads (storage_retriever h np db)) n t"
    using assms(1) by (auto simp: stored_def)
  have "rel_option (loads (storage_retriever h np db')) n t"
    using n(2) loads_mono [OF _ assms(2)] by (cases n; cases t) auto
  then show ?thesis
    using retrieveTrie_mono [OF n(1) assms(2)] by (auto simp: stored_def)
qed

lemma storeTrie_grows:
  assumes "hash32 h" "opt_all node_fits n" "rel_option (loads (storage_retriever h np db)) n t" "merkle_db h np db S"
    and "inj_on h (insert [0] (S \<union> (\<Union>n \<in> set_option n. encodings h n)))"
  shows "\<exists>key n' db'. storeTrie h np db n = Inr (key, n', db') \<and> stored h np db' key t \<and> db \<subseteq>\<^sub>m db' \<and>
     merkle_db h np db' (S \<union> (\<Union>n \<in> set_option n. encodings h n)) \<and>
     rel_option (loads (storage_retriever h np db')) n' t"
proof (cases n)
  case None
  then show ?thesis
    using assms(3,4) by (simp add: storeTrie_def stored_empty)
next
  case (Some m)
  then obtain u where u: "t = Some u" "loads (storage_retriever h np db) m u" "node_fits m"
    using assms(2,3) by (auto simp: option_rel_Some1)
  have inj: "inj_on h (insert [0] (encodings h m))"
    using assms(5) by (rule inj_on_subset) (auto simp: Some)
  obtain m' batch enc where r: "storeRootNode h np db m = Inr (h enc, m', backend_batch_commit batch db)"
      "\<And>k v. (k, v) \<in> set batch \<Longrightarrow> \<exists>k'. k = np @ k' \<and> v \<in> encodings h m \<and> merkle_key h k' v"
      "db \<subseteq>\<^sub>m backend_batch_commit batch db \<Longrightarrow> loads (storage_retriever h np (backend_batch_commit batch db)) m' u"
      "retrieveTrie h np (backend_batch_commit batch db) (h enc) = Inr (Some m')"
    using storeRootNode_stores [OF assms(1) u(3,2) inj, of db] by blast
  let ?db = "backend_batch_commit batch db"
  let ?S = "S \<union> encodings h m"
  have injS: "inj_on h ?S"
    using assms(5) by (rule inj_on_subset) (auto simp: Some)
  have "v = w" if "(k, v) \<in> set batch" "(k, w) \<in> set batch" for k v w
    using r(2) [OF that(1)] r(2) [OF that(2)] merkle_key_inj [OF assms(1) injS] by auto
  note look = commit_lookup [of batch db, OF this]
  have dbv: "v = w" if "db k = Some w" "(k, v) \<in> set batch" for k v w
    using r(2) [OF that(2)] that(1) assms(4) merkle_key_inj [OF assms(1) injS, of v w]
    by (auto simp: merkle_db_def)
  have "db \<subseteq>\<^sub>m ?db"
    by (auto simp: map_le_def look dest: dbv [OF _ map_of_SomeD] split: option.splits)
       (metis dbv map_of_SomeD weak_map_of_SomeI)
  moreover have "merkle_db h np ?db ?S"
    unfolding merkle_db_def
  proof (intro allI impI)
    fix k v assume "?db (np @ k) = Some v"
    then show "v \<in> ?S \<and> merkle_key h k v"
      using assms(4) r(2) [of "np @ k" v]
      by (auto simp: look merkle_db_def dest: map_of_SomeD split: if_splits)
  qed
  ultimately show ?thesis
    using r(1,3,4) u(1) by (auto simp: Some storeTrie_def stored_def)
qed

text \<open>A trie without dummies is its own image.\<close>

lemma loads_refl: "retriever_ok ret \<Longrightarrow> trie_wf t \<Longrightarrow> loads ret t t"
proof (induction t)
  case (BranchNode k v cs)
  have "child_rel ret c c" if "Some c \<in> set cs" for c
  proof -
    have "trie_wf c"
      using BranchNode.prems(2) that by (auto simp: all_children_list_all all_children_def)
    then show ?thesis
      using BranchNode.IH [of "Some c" c] that BranchNode.prems(1) loads_child_rel by simp
  qed
  then have "list_all2 (rel_option (child_rel ret)) cs cs"
    by (auto simp: list_all2_conv_all_nth rel_option_iff split: option.splits dest: nth_mem)
  then show ?case
    by (simp add: loads_branch_iff)
qed auto

text \<open>For the examples: a function that tells the empty trie from all other encodings.\<close>

definition toy_hash :: "bytes \<Rightarrow> bytes" where
  "toy_hash x = (if x = [0] then replicate 32 0 else replicate 32 1)"

lemma toy_hash_facts:
  "\<forall>x. length (toy_hash x) = 32"
  "node_fits (LeafNode k v) \<Longrightarrow> inj_on toy_hash (insert [0] (encodings toy_hash (LeafNode k v)))"
proof -
  show "\<forall>x. length (toy_hash x) = 32"
    by (simp add: toy_hash_def)
  then have "hash32 toy_hash"
    by (simp add: hash32_def)
  moreover assume "node_fits (LeafNode k v)"
  ultimately have "[0] \<notin> encodings toy_hash (LeafNode k v)"
    by (intro encodings_not_zero)
  moreover have "e = e'" if "e \<in> encodings toy_hash (LeafNode k v)" "e' \<in> encodings toy_hash (LeafNode k v)" for e e'
    using that by (auto simp: encodings_def)
  moreover have "replicate 32 (0 :: byte) \<noteq> replicate 32 1"
    by (metis replicate_eq_replicate zero_neq_numeral zero_neq_one)
  ultimately show "inj_on toy_hash (insert [0] (encodings toy_hash (LeafNode k v)))"
    by (auto simp: inj_on_def toy_hash_def)
qed

section \<open>Properties\<close>

text \<open>
  C3. Committing a trie and opening it again. For a hash of 32 bytes without a collision among the
  encodings of the nodes of the trie, storing the trie succeeds and yields a root hash; the trie
  that is opened from this root hash holds dummies for its nodes, and still answers \<open>get\<close> for every
  key as the trie in memory did, before and after a further \<open>put\<close>.
\<close>

theorem trie_commit_reopen:
  assumes "\<forall>x. length (h x) = 32" "trie_wf t" "node_fits t" "inj_on h (insert [0] (encodings h t))"
  shows "\<exists>root_hash n' db' n.
     storeTrie h np db (Some t) = Inr (root_hash, n', db') \<and> retrieveTrie h np db' root_hash = Inr (Some n) \<and>
     (\<forall>key. trie_get (storage_retriever h np db') (Some n) key = trie_get defaultChildRetriever (Some t) key) \<and>
     (\<forall>key v. rel_sum (=) (rel_option (loads (storage_retriever h np db')))
        (trie_put (storage_retriever h np db') (Some n) key v) (trie_put defaultChildRetriever (Some t) key v))"
proof -
  obtain n' batch enc where r: "storeRootNode h np db t = Inr (h enc, n', backend_batch_commit batch db)"
      "loads (storage_retriever h np (backend_batch_commit batch db)) n' t"
      "retrieveTrie h np (backend_batch_commit batch db) (h enc) = Inr (Some n')"
    using storeRootNode_stores [OF _ assms(3) loads_refl [OF retriever_ok_storage assms(2)] assms(4),
        of np db Map.empty] assms(1) by (auto simp: hash32_def)
  then show ?thesis
    using trie_get_rel [of _ "Some n'" "Some t"] trie_put_rel [OF retriever_ok_storage, of h np _ "Some n'" "Some t"]
    by (intro exI [of _ "h enc"] exI [of _ "Some n'"] exI [of _ "backend_batch_commit batch db"] exI [of _ n'])
       (simp add: storeTrie_def)
qed

theorem trie_commit_reopen_witness:
  "\<exists>root_hash n' db' n.
     storeTrie toy_hash [7] Map.empty (Some (LeafNode [1, 2] (Some [5]))) = Inr (root_hash, n', db') \<and>
     retrieveTrie toy_hash [7] db' root_hash = Inr (Some n) \<and>
     trie_get (storage_retriever toy_hash [7] db') (Some n) [0x12] = Inr [5]"
proof -
  let ?t = "LeafNode [1, 2] (Some [5])"
  have fits: "trie_wf ?t" "node_fits ?t"
    by (simp_all add: nibbles_def)
  obtain root_hash n' db' n where
      "storeTrie toy_hash [7] Map.empty (Some ?t) = Inr (root_hash, n', db')"
      "retrieveTrie toy_hash [7] db' root_hash = Inr (Some n)"
      "trie_get (storage_retriever toy_hash [7] db') (Some n) [0x12] = trie_get defaultChildRetriever (Some ?t) [0x12]"
    using trie_commit_reopen [OF toy_hash_facts(1) fits toy_hash_facts(2) [OF fits(2)], of "[7]" Map.empty] by blast
  moreover have "trie_get defaultChildRetriever (Some ?t) [0x12] = Inr [5]"
    by code_simp
  ultimately show ?thesis by metis
qed

text \<open>
  C4. Tries stored earlier stay readable. Storing a trie only adds entries to the node database, as
  long as the hash does not collide on the old and the new encodings: every root hash that stood for
  a trie still stands for it, the new root hash stands for the new trie, and every entry of
  the database still stands under a key that its value determines.
\<close>

theorem old_roots_survive:
  assumes "\<forall>x. length (h x) = 32" "trie_wf t" "node_fits t"
    and "merkle_db h np db S" "inj_on h (insert [0] (S \<union> encodings h t))"
    and "stored h np db old_root u"
  shows "\<exists>root_hash n' db'. storeTrie h np db (Some t) = Inr (root_hash, n', db') \<and>
     stored h np db' old_root u \<and> stored h np db' root_hash (Some t) \<and>
     merkle_db h np db' (S \<union> encodings h t)"
  using storeTrie_grows [of h "Some t" np db "Some t" S] stored_mono [OF assms(6)] assms(1-5)
    loads_refl [OF retriever_ok_storage assms(2)]
  by (auto simp: hash32_def)

theorem old_roots_survive_witness:
  "\<exists>root_hash n' db'. storeTrie toy_hash [7] Map.empty (Some (LeafNode [1, 2] (Some [5]))) = Inr (root_hash, n', db') \<and>
     stored toy_hash [7] db' (getEmptyRootHash toy_hash) None \<and>
     stored toy_hash [7] db' root_hash (Some (LeafNode [1, 2] (Some [5]))) \<and>
     merkle_db toy_hash [7] db' ({} \<union> encodings toy_hash (LeafNode [1, 2] (Some [5])))"
proof -
  let ?t = "LeafNode [1, 2] (Some [5])"
  have fits: "trie_wf ?t" "node_fits ?t"
    by (simp_all add: nibbles_def)
  have "merkle_db toy_hash [7] Map.empty {}"
    by (simp add: merkle_db_def)
  then show ?thesis
    using old_roots_survive [OF toy_hash_facts(1) fits _ _ stored_empty, of "[7]" Map.empty "{}"]
      toy_hash_facts(2) [OF fits(2)] by simp
qed

end
