(* ===== verification/Std_Map.thy ===== *)
theory Std_Map
  imports Prelude "HOL-Library.List_Lexorder" "HOL-Library.Char_ord"
begin

text \<open>
  The ordered containers of the C++ standard library: a \<^verbatim>\<open>std::map\<close> is an association list in
  strictly increasing order of the keys, which is the order of iteration; a \<^verbatim>\<open>std::set\<close> is a
  strictly increasing list. Byte strings are ordered lexicographically, as \<^verbatim>\<open>Buffer::operator<\<close>
  orders them.
\<close>

section \<open>Definitions\<close>

fun smap_put :: "'k::linorder \<Rightarrow> 'v \<Rightarrow> ('k \<times> 'v) list \<Rightarrow> ('k \<times> 'v) list" where
  "smap_put k v [] = [(k, v)]"
| "smap_put k v ((k', v') # m) =
     (if k < k' then (k, v) # (k', v') # m
      else if k = k' then (k, v) # m
      else (k', v') # smap_put k v m)"

definition smap_erase :: "'k \<Rightarrow> ('k \<times> 'v) list \<Rightarrow> ('k \<times> 'v) list" where
  "smap_erase k m = filter (\<lambda>(k', v). k' \<noteq> k) m"

definition smap_ok :: "('k::linorder \<times> 'v) list \<Rightarrow> bool" where
  "smap_ok m \<longleftrightarrow> sorted_wrt (<) (map fst m)"

fun sset_insert :: "'k::linorder \<Rightarrow> 'k list \<Rightarrow> 'k list" where
  "sset_insert k [] = [k]"
| "sset_insert k (k' # s) = (if k < k' then k # k' # s else if k = k' then k' # s else k' # sset_insert k s)"

definition sset_erase :: "'k \<Rightarrow> 'k list \<Rightarrow> 'k list" where
  "sset_erase k s = filter (\<lambda>k'. k' \<noteq> k) s"

section \<open>Lemmas\<close>

lemma map_of_smap_put [simp]: "map_of (smap_put k v m) = (map_of m)(k \<mapsto> v)"
  by (induction m) auto

lemma keys_smap_put [simp]: "fst ` set (smap_put k v m) = insert k (fst ` set m)"
  using dom_map_of_conv_image_fst [of "smap_put k v m"] dom_map_of_conv_image_fst [of m] by simp

lemma smap_ok_Nil [simp]: "smap_ok []"
  by (simp add: smap_ok_def)

lemma smap_ok_Cons: "smap_ok ((k, v) # m) \<longleftrightarrow> (\<forall>k' \<in> fst ` set m. k < k') \<and> smap_ok m"
  by (auto simp: smap_ok_def)

lemma smap_ok_put [intro]: "smap_ok m \<Longrightarrow> smap_ok (smap_put k v m)"
proof (induction m)
  case (Cons e m)
  then show ?case
    by (cases e) (auto simp: smap_ok_Cons)
qed (simp add: smap_ok_Cons)

lemma map_of_smap_erase [simp]: "map_of (smap_erase k m) = (map_of m)(k := None)"
  by (induction m) (auto simp: smap_erase_def)

lemma smap_ok_erase [intro]: "smap_ok m \<Longrightarrow> smap_ok (smap_erase k m)"
  by (induction m) (auto simp: smap_erase_def smap_ok_Cons)

lemma smap_ok_distinct: "smap_ok m \<Longrightarrow> distinct (map fst m)"
  by (simp add: smap_ok_def strict_sorted_iff)

lemma map_of_smap: "smap_ok m \<Longrightarrow> map_of m k = Some v \<longleftrightarrow> (k, v) \<in> set m"
  by (simp add: smap_ok_distinct)

lemma smap_ok_map: "smap_ok (map (\<lambda>(k, v). (k, f k v)) m) \<longleftrightarrow> smap_ok m"
  by (simp add: smap_ok_def comp_def case_prod_unfold)

lemma smap_ok_filter: "smap_ok m \<Longrightarrow> smap_ok (filter P m)"
  by (induction m) (auto simp: smap_ok_Cons)

lemma set_sset_insert [simp]: "set (sset_insert k s) = insert k (set s)"
  by (induction s) auto

lemma set_sset_erase [simp]: "set (sset_erase k s) = set s - {k}"
  by (auto simp: sset_erase_def)

lemma sorted_sset_insert [intro]: "sorted_wrt (<) s \<Longrightarrow> sorted_wrt (<) (sset_insert k s)"
  by (induction s) auto

lemma sorted_sset_erase [intro]: "sorted_wrt (<) s \<Longrightarrow> sorted_wrt (<) (sset_erase k s)"
  by (simp add: sset_erase_def sorted_wrt_filter)

end
