(* ===== verification/Trie_Batch.thy ===== *)
theory Trie_Batch
  imports Trie_Commit Std_Map
begin

text \<open>
  The batches on a trie, \<^verbatim>\<open>src/storage/trie/impl\<close>: the topper batch keeps its writes in a cache and
  applies them to its parent on \<^verbatim>\<open>writeBack\<close>; the persistent batch writes to a trie, reports to the
  changes tracker and stores the trie on \<^verbatim>\<open>commit\<close>; the ephemeral batch only writes to its trie.
  \<^verbatim>\<open>TrieStorageImpl\<close> opens the batches at a root hash and follows the root on a commit.
\<close>

section \<open>The topper batch\<close>

datatype topper_error = ParentError trie_error | PARENT_EXPIRED | TOPPER_OUT_OF_RANGE

record topper_batch =
  t_cache :: "(bytes \<times> bytes option) list"
  t_cleared_prefixes :: "bytes list"

definition TopperTrieBatchImpl :: topper_batch where
  "TopperTrieBatchImpl = \<lparr>t_cache = [], t_cleared_prefixes = []\<rparr>"

text \<open>
  The parent is held by a weak pointer: \<open>None\<close> is the expired parent. Advancing the iterator by
  \<open>min - 1\<close> in front of the first byte, for an empty key or prefix, is undefined and an error here.
\<close>

fun wasClearedByPrefix :: "bytes list \<Rightarrow> bytes \<Rightarrow> topper_error + bool" where
  "wasClearedByPrefix [] key = Inr False"
| "wasClearedByPrefix (pre # pres) key =
     (let n = min (length key) (length pre) in
      if n = 0 then Inl TOPPER_OUT_OF_RANGE
      else if take (n - 1) key = take (n - 1) pre then Inr True
      else wasClearedByPrefix pres key)"

definition lift_parent :: "trie_error + 'a \<Rightarrow> topper_error + 'a" where
  "lift_parent r = (case r of Inl e \<Rightarrow> Inl (ParentError e) | Inr x \<Rightarrow> Inr x)"

definition topper_get :: "('p \<Rightarrow> bytes \<Rightarrow> trie_error + bytes) \<Rightarrow> 'p option \<Rightarrow> topper_batch \<Rightarrow> bytes \<Rightarrow> topper_error + bytes" where
  "topper_get p_get parent b key =
     (case map_of (t_cache b) key of
        Some (Some v) \<Rightarrow> Inr v
      | Some None \<Rightarrow> Inl (ParentError NO_VALUE)
      | None \<Rightarrow>
          rbind (wasClearedByPrefix (t_cleared_prefixes b) key) (\<lambda>was_cleared.
            if was_cleared then Inl (ParentError NO_VALUE)
            else (case parent of Some p \<Rightarrow> lift_parent (p_get p key) | None \<Rightarrow> Inl PARENT_EXPIRED)))"

definition topper_contains :: "('p \<Rightarrow> bytes \<Rightarrow> bool) \<Rightarrow> 'p option \<Rightarrow> topper_batch \<Rightarrow> bytes \<Rightarrow> topper_error + bool" where
  "topper_contains p_contains parent b key =
     (case map_of (t_cache b) key of
        Some v \<Rightarrow> Inr (v \<noteq> None)
      | None \<Rightarrow>
          rbind (wasClearedByPrefix (t_cleared_prefixes b) key) (\<lambda>was_cleared.
            if was_cleared then Inr False
            else (case parent of Some p \<Rightarrow> Inr (p_contains p key) | None \<Rightarrow> Inr False)))"

definition topper_empty :: "('p \<Rightarrow> bool) \<Rightarrow> 'p option \<Rightarrow> topper_batch \<Rightarrow> bool" where
  "topper_empty p_empty parent b \<longleftrightarrow>
     (if t_cache b \<noteq> [] \<and> list_ex (\<lambda>(k, v). v \<noteq> None) (t_cache b) then False
      else (case parent of Some p \<Rightarrow> p_empty p | None \<Rightarrow> True))"

definition topper_put :: "topper_batch \<Rightarrow> bytes \<Rightarrow> bytes \<Rightarrow> topper_error + topper_batch" where
  "topper_put b key v = Inr (b\<lparr>t_cache := smap_put key (Some v) (t_cache b)\<rparr>)"

definition topper_remove :: "topper_batch \<Rightarrow> bytes \<Rightarrow> topper_error + topper_batch" where
  "topper_remove b key = Inr (b\<lparr>t_cache := smap_put key None (t_cache b)\<rparr>)"

text \<open>The loop over the cache; a cached key shorter than the prefix makes \<^verbatim>\<open>subbuffer\<close> fail.\<close>

fun clear_cache_loop :: "bytes \<Rightarrow> (bytes \<times> bytes option) list \<Rightarrow> topper_error + (bytes \<times> bytes option) list" where
  "clear_cache_loop pre [] = Inr []"
| "clear_cache_loop pre ((k, v) # cache) =
     (if length k < length pre then Inl TOPPER_OUT_OF_RANGE
      else rmap (\<lambda>cache. (k, if take (length pre) k = pre then None else v) # cache) (clear_cache_loop pre cache))"

definition topper_clearPrefix :: "'p option \<Rightarrow> topper_batch \<Rightarrow> bytes \<Rightarrow> topper_error + topper_batch" where
  "topper_clearPrefix parent b pre =
     rbind (clear_cache_loop pre (t_cache b)) (\<lambda>cache.
       if parent \<noteq> None
       then Inr (b\<lparr>t_cache := cache, t_cleared_prefixes := t_cleared_prefixes b @ [pre]\<rparr>)
       else Inl PARENT_EXPIRED)"

fun clear_prefixes_loop :: "('p \<Rightarrow> bytes \<Rightarrow> trie_error + 'p) \<Rightarrow> bytes list \<Rightarrow> 'p \<Rightarrow> trie_error + 'p" where
  "clear_prefixes_loop p_clear [] p = Inr p"
| "clear_prefixes_loop p_clear (pre # pres) p = rbind (p_clear p pre) (clear_prefixes_loop p_clear pres)"

fun write_cache_loop :: "('p \<Rightarrow> bytes \<Rightarrow> bytes \<Rightarrow> trie_error + 'p) \<Rightarrow> ('p \<Rightarrow> bytes \<Rightarrow> trie_error + 'p) \<Rightarrow>
    (bytes \<times> bytes option) list \<Rightarrow> 'p \<Rightarrow> trie_error + 'p" where
  "write_cache_loop p_put p_remove [] p = Inr p"
| "write_cache_loop p_put p_remove ((k, Some v) # cache) p = rbind (p_put p k v) (write_cache_loop p_put p_remove cache)"
| "write_cache_loop p_put p_remove ((k, None) # cache) p = rbind (p_remove p k) (write_cache_loop p_put p_remove cache)"

definition topper_writeBack :: "('p \<Rightarrow> bytes \<Rightarrow> bytes \<Rightarrow> trie_error + 'p) \<Rightarrow> ('p \<Rightarrow> bytes \<Rightarrow> trie_error + 'p) \<Rightarrow>
    ('p \<Rightarrow> bytes \<Rightarrow> trie_error + 'p) \<Rightarrow> 'p option \<Rightarrow> topper_batch \<Rightarrow> topper_error + 'p" where
  "topper_writeBack p_put p_remove p_clear parent b =
     (case parent of
        None \<Rightarrow> Inl PARENT_EXPIRED
      | Some p \<Rightarrow>
          lift_parent (rbind (clear_prefixes_loop p_clear (t_cleared_prefixes b) p)
            (write_cache_loop p_put p_remove (t_cache b))))"

section \<open>The changes tracker\<close>

datatype batch_error =
    BatchTrie trie_error
  | BatchDecode DecodeError
  | EXTRINSIC_IDX_GETTER_UNINITIALIZED
  | INVALID_PARENT_HASH
  | BatchEncode EncodeError

record changes_tracker =
  parent_hash :: bytes
  parent_number :: u64
  extrinsics_changes :: "(bytes \<times> u32 list) list"
  new_entries :: "bytes set"
  notifications :: "(bytes \<times> bytes \<times> bytes) list"

text \<open>The subscribers that are notified are not part of the tracker; it records what it sends.\<close>

definition StorageChangesTrackerImpl :: changes_tracker where
  "StorageChangesTrackerImpl = \<lparr>parent_hash = replicate 32 0, parent_number = - 1,
     extrinsics_changes = [], new_entries = {}, notifications = []\<rparr>"

definition onBlockChange :: "bytes \<Rightarrow> u64 \<Rightarrow> changes_tracker \<Rightarrow> changes_tracker" where
  "onBlockChange new_parent_hash new_parent_number c =
     c\<lparr>parent_hash := new_parent_hash, parent_number := new_parent_number,
       extrinsics_changes := [], new_entries := {}\<rparr>"

definition decode_index :: "batch_error + bytes \<Rightarrow> batch_error + u32" where
  "decode_index idx_bytes =
     rbind idx_bytes (\<lambda>bs. case decode (decodeInteger True) bs of Inl e \<Rightarrow> Inl (BatchDecode e) | Inr idx \<Rightarrow> Inr idx)"

definition onPut :: "batch_error + bytes \<Rightarrow> bytes \<Rightarrow> bytes \<Rightarrow> bool \<Rightarrow> changes_tracker \<Rightarrow> batch_error + changes_tracker" where
  "onPut extrinsic_index key v is_new_entry c =
     rbind (decode_index extrinsic_index) (\<lambda>idx.
       let c = (case map_of (extrinsics_changes c) key of
                  Some changers \<Rightarrow> c\<lparr>extrinsics_changes := smap_put key (changers @ [idx]) (extrinsics_changes c)\<rparr>
                | None \<Rightarrow>
                    c\<lparr>extrinsics_changes := smap_put key [idx] (extrinsics_changes c),
                      new_entries := (if is_new_entry then insert key (new_entries c) else new_entries c)\<rparr>)
       in Inr (c\<lparr>notifications := notifications c @ [(key, v, parent_hash c)]\<rparr>))"

definition onRemove :: "batch_error + bytes \<Rightarrow> bytes \<Rightarrow> changes_tracker \<Rightarrow> batch_error + changes_tracker" where
  "onRemove extrinsic_index key c =
     rbind (decode_index extrinsic_index) (\<lambda>idx.
       Inr (case map_of (extrinsics_changes c) key of
              Some changers \<Rightarrow>
                if key \<in> new_entries c
                then c\<lparr>extrinsics_changes := smap_erase key (extrinsics_changes c), new_entries := new_entries c - {key}\<rparr>
                else c\<lparr>extrinsics_changes := smap_put key (changers @ [idx]) (extrinsics_changes c)\<rparr>
            | None \<Rightarrow> c\<lparr>extrinsics_changes := smap_put key [idx] (extrinsics_changes c)\<rparr>))"

text \<open>A key of the changes trie is a variant with index 1 for extrinsics, then block number and key.\<close>

definition encode_changes_key :: "u64 \<Rightarrow> bytes \<Rightarrow> EncodeError + bytes" where
  "encode_changes_key block key = encode (\<lambda>_ out. rbind (encodeByte 1 out) (\<lambda>out. rbind (encodeInteger block out) (encodeBuffer key))) ()"

fun changes_loop :: "u64 \<Rightarrow> (bytes \<times> u32 list) list \<Rightarrow> node option \<Rightarrow> batch_error + node option" where
  "changes_loop number [] root = Inr root"
| "changes_loop number ((key, changers) # changes) root =
     (case encode_changes_key (number + 1) key of
        Inl e \<Rightarrow> Inl (BatchEncode e)
      | Inr key_enc \<Rightarrow>
          (case encode (encodeCollection encodeInteger) changers of
             Inl e \<Rightarrow> Inl (BatchEncode e)
           | Inr value_enc \<Rightarrow>
               (case trie_put defaultChildRetriever root key_enc value_enc of
                  Inl e \<Rightarrow> Inl (BatchTrie e)
                | Inr root \<Rightarrow> changes_loop number changes root)))"

definition changes_hash :: "(bytes \<Rightarrow> bytes) \<Rightarrow> node option \<Rightarrow> bytes" where
  "changes_hash h root =
     (case root of
        None \<Rightarrow> h [0]
      | Some n \<Rightarrow> (case encodeNode h n of Inl e \<Rightarrow> replicate 32 0 | Inr enc \<Rightarrow> h enc))"

definition constructChangesTrie :: "(bytes \<Rightarrow> bytes) \<Rightarrow> bytes \<Rightarrow> changes_tracker \<Rightarrow> batch_error + bytes" where
  "constructChangesTrie h parent c =
     (if parent \<noteq> parent_hash c then Inl INVALID_PARENT_HASH
      else rbind (changes_loop (parent_number c) (extrinsics_changes c) None) (\<lambda>root. Inr (changes_hash h root)))"

section \<open>Persistent and ephemeral batches and the trie storage\<close>

record persistent_batch =
  pb_trie :: "node option"
  pb_changes :: "changes_tracker option"

definition EXTRINSIC_INDEX_KEY :: bytes where
  "EXTRINSIC_INDEX_KEY = map of_char '':extrinsic_index''"

definition NO_EXTRINSIC_INDEX_VALUE :: bytes where
  "NO_EXTRINSIC_INDEX_VALUE = [0xFF, 0xFF, 0xFF, 0xFF]"

definition get_extrinsic_index :: "retriever \<Rightarrow> node option \<Rightarrow> batch_error + bytes" where
  "get_extrinsic_index ret root =
     (case trie_get ret root EXTRINSIC_INDEX_KEY of
        Inl e \<Rightarrow> if e = NO_VALUE then Inr NO_EXTRINSIC_INDEX_VALUE else Inl (BatchTrie e)
      | Inr v \<Rightarrow> Inr v)"

text \<open>An operation returns its error, if any, beside the batch: the trie may have changed before the tracker failed.\<close>

definition pbatch_put :: "retriever \<Rightarrow> persistent_batch \<Rightarrow> bytes \<Rightarrow> bytes \<Rightarrow> batch_error option \<times> persistent_batch" where
  "pbatch_put ret b key v =
     (let is_new_entry = \<not> trie_contains ret (pb_trie b) key in
      case trie_put ret (pb_trie b) key v of
        Inl e \<Rightarrow> (Some (BatchTrie e), b)
      | Inr root \<Rightarrow>
          (case pb_changes b of
             None \<Rightarrow> (None, b\<lparr>pb_trie := root\<rparr>)
           | Some c \<Rightarrow>
               (case onPut (get_extrinsic_index ret root) key v is_new_entry c of
                  Inl e \<Rightarrow> (Some e, b\<lparr>pb_trie := root\<rparr>)
                | Inr c \<Rightarrow> (None, b\<lparr>pb_trie := root, pb_changes := Some c\<rparr>))))"

definition pbatch_remove :: "retriever \<Rightarrow> persistent_batch \<Rightarrow> bytes \<Rightarrow> batch_error option \<times> persistent_batch" where
  "pbatch_remove ret b key =
     (case trie_remove ret (pb_trie b) key of
        Inl e \<Rightarrow> (Some (BatchTrie e), b)
      | Inr root \<Rightarrow>
          (case pb_changes b of
             None \<Rightarrow> (None, b\<lparr>pb_trie := root\<rparr>)
           | Some c \<Rightarrow>
               (case onRemove (get_extrinsic_index ret root) key c of
                  Inl e \<Rightarrow> (Some e, b\<lparr>pb_trie := root\<rparr>)
                | Inr c \<Rightarrow> (None, b\<lparr>pb_trie := root, pb_changes := Some c\<rparr>))))"

definition pbatch_get :: "retriever \<Rightarrow> persistent_batch \<Rightarrow> bytes \<Rightarrow> trie_error + bytes" where
  "pbatch_get ret b key = trie_get ret (pb_trie b) key"

definition pbatch_contains :: "retriever \<Rightarrow> persistent_batch \<Rightarrow> bytes \<Rightarrow> bool" where
  "pbatch_contains ret b key = trie_contains ret (pb_trie b) key"

definition pbatch_empty :: "persistent_batch \<Rightarrow> bool" where
  "pbatch_empty b = trie_empty (pb_trie b)"

definition pbatch_clearPrefix :: "retriever \<Rightarrow> persistent_batch \<Rightarrow> bytes \<Rightarrow> trie_error + persistent_batch" where
  "pbatch_clearPrefix ret b pre = rmap (\<lambda>root. b\<lparr>pb_trie := root\<rparr>) (trie_clearPrefix ret (pb_trie b) pre)"

record trie_storage =
  ts_db :: db
  ts_root_hash :: bytes
  ts_changes :: "changes_tracker option"

definition storage_createEmpty :: "(bytes \<Rightarrow> bytes) \<Rightarrow> bytes \<Rightarrow> db \<Rightarrow> changes_tracker option \<Rightarrow> trie_error + trie_storage" where
  "storage_createEmpty h np db changes =
     rbind (storeTrie h np db None) (\<lambda>(root, n, db).
       Inr \<lparr>ts_db = db, ts_root_hash = root, ts_changes = changes\<rparr>)"

definition getPersistentBatchAt :: "(bytes \<Rightarrow> bytes) \<Rightarrow> bytes \<Rightarrow> trie_storage \<Rightarrow> bytes \<Rightarrow> trie_error + persistent_batch" where
  "getPersistentBatchAt h np st root =
     rmap (\<lambda>n. \<lparr>pb_trie = n, pb_changes = ts_changes st\<rparr>) (retrieveTrie h np (ts_db st) root)"

definition getPersistentBatch :: "(bytes \<Rightarrow> bytes) \<Rightarrow> bytes \<Rightarrow> trie_storage \<Rightarrow> trie_error + persistent_batch" where
  "getPersistentBatch h np st = getPersistentBatchAt h np st (ts_root_hash st)"

definition getEphemeralBatchAt :: "(bytes \<Rightarrow> bytes) \<Rightarrow> bytes \<Rightarrow> trie_storage \<Rightarrow> bytes \<Rightarrow> trie_error + node option" where
  "getEphemeralBatchAt h np st root = retrieveTrie h np (ts_db st) root"

definition getEphemeralBatch :: "(bytes \<Rightarrow> bytes) \<Rightarrow> bytes \<Rightarrow> trie_storage \<Rightarrow> trie_error + node option" where
  "getEphemeralBatch h np st = getEphemeralBatchAt h np st (ts_root_hash st)"

definition ebatch_get :: "retriever \<Rightarrow> node option \<Rightarrow> bytes \<Rightarrow> trie_error + bytes" where
  "ebatch_get ret b key = trie_get ret b key"

definition ebatch_contains :: "retriever \<Rightarrow> node option \<Rightarrow> bytes \<Rightarrow> bool" where
  "ebatch_contains ret b key = trie_contains ret b key"

definition ebatch_empty :: "node option \<Rightarrow> bool" where
  "ebatch_empty b = trie_empty b"

definition ebatch_clearPrefix :: "retriever \<Rightarrow> node option \<Rightarrow> bytes \<Rightarrow> trie_error + node option" where
  "ebatch_clearPrefix ret b pre = trie_clearPrefix ret b pre"

definition ebatch_put :: "retriever \<Rightarrow> node option \<Rightarrow> bytes \<Rightarrow> bytes \<Rightarrow> trie_error + node option" where
  "ebatch_put ret b key v = trie_put ret b key v"

definition ebatch_remove :: "retriever \<Rightarrow> node option \<Rightarrow> bytes \<Rightarrow> trie_error + node option" where
  "ebatch_remove ret b key = trie_remove ret b key"

definition storage_createFromStorage :: "bytes \<Rightarrow> db \<Rightarrow> changes_tracker option \<Rightarrow> trie_storage" where
  "storage_createFromStorage root_hash db changes = \<lparr>ts_db = db, ts_root_hash = root_hash, ts_changes = changes\<rparr>"

definition pbatch_commit :: "(bytes \<Rightarrow> bytes) \<Rightarrow> bytes \<Rightarrow> trie_storage \<Rightarrow> persistent_batch \<Rightarrow>
    trie_error + (bytes \<times> persistent_batch \<times> trie_storage)" where
  "pbatch_commit h np st b =
     rbind (storeTrie h np (ts_db st) (pb_trie b)) (\<lambda>(root, n, db).
       Inr (root, b\<lparr>pb_trie := n\<rparr>, st\<lparr>ts_db := db, ts_root_hash := root\<rparr>))"

section \<open>Writing a topper batch back\<close>

fun cache_op :: "bytes \<times> bytes option \<Rightarrow> map_op" where
  "cache_op (k, Some v) = Put k v"
| "cache_op (k, None) = Remove k"

lemma write_cache_run_ops: "write_cache_loop p_put p_remove cache p = run_ops p_put p_remove (map cache_op cache) p"
proof (induction cache arbitrary: p)
  case (Cons e cache)
  then have "write_cache_loop p_put p_remove cache = run_ops p_put p_remove (map cache_op cache)"
    by blast
  then show ?case
    by (cases e rule: cache_op.cases) simp_all
qed simp

lemma fold_cache_ops:
  "smap_ok cache \<Longrightarrow> fold apply_op (map cache_op cache) m k = (case map_of cache k of None \<Rightarrow> m k | Some v \<Rightarrow> v)"
proof (induction cache arbitrary: m)
  case (Cons e cache)
  obtain k' v where e: "e = (k', v)"
    by fastforce
  have "map_of cache k' = None"
    using Cons.prems by (auto simp: e smap_ok_Cons map_of_eq_None_iff)
  moreover have "apply_op (cache_op e) m = m(k' := v)"
    by (cases v) (simp_all add: e)
  moreover have "fold apply_op (map cache_op cache) (m(k' := v)) k =
      (case map_of cache k of None \<Rightarrow> (m(k' := v)) k | Some v \<Rightarrow> v)"
    using Cons.prems by (intro Cons.IH) (simp add: e smap_ok_Cons)
  ultimately show ?case
    by (cases "k = k'"; cases "map_of cache k") (simp_all add: e)
qed simp

lemma op_key_cache_op [simp]: "op_key (cache_op e) = fst e"
  by (cases e rule: cache_op.cases) simp_all

context byte_store
begin

text \<open>A batch without cleared prefixes reads like its parent after the write-back.\<close>

lemma write_cache_get:
  assumes "inv s" "smap_ok cache" "list_all valid (map fst cache)" "valid k"
  shows "\<exists>s'. run_ops put rem (map cache_op cache) s = Inr s' \<and> inv s' \<and>
     get s' k = (case map_of cache k of
        None \<Rightarrow> get s k
      | Some None \<Rightarrow> Inl absent
      | Some (Some v) \<Rightarrow> Inr v)"
proof -
  have "list_all (\<lambda>p. valid (op_key p)) (map cache_op cache)"
    using assms(3) by (simp add: list.pred_map comp_def)
  then obtain s' where "run_ops put rem (map cache_op cache) s = Inr s'" "inv s'"
      "abs s' = fold apply_op (map cache_op cache) (abs s)"
    using run_ops_abs [OF assms(1)] by blast
  then show ?thesis
    using assms by (auto simp: get_abs fold_cache_ops split: option.splits)
qed

end

lemma topper_ops_ok:
  "smap_ok (t_cache b) \<Longrightarrow> topper_put b key v = Inr b' \<Longrightarrow> smap_ok (t_cache b')"
  "smap_ok (t_cache b) \<Longrightarrow> topper_remove b key = Inr b' \<Longrightarrow> smap_ok (t_cache b')"
  by (auto simp: topper_put_def topper_remove_def)

lemma clear_cache_keys: "clear_cache_loop pre cache = Inr cache' \<Longrightarrow> fst ` set cache' = fst ` set cache"
proof (induction pre cache arbitrary: cache' rule: clear_cache_loop.induct)
  case (2 pre k v cache)
  then obtain c where c: "\<not> length k < length pre" "clear_cache_loop pre cache = Inr c"
      "cache' = (k, if take (length pre) k = pre then None else v) # c"
    by (cases "clear_cache_loop pre cache") (auto split: if_splits)
  then show ?case
    using "2.IH" [OF c(1,2)] by simp
qed simp

section \<open>Storing what fits\<close>

lemma lookup_fits:
  "\<lbrakk>trie_wf t; canonical t; \<And>k v. lookup t k = Some v \<Longrightarrow> length k \<le> 0xFFFF \<and> length v < 2 ^ 64\<rbrakk> \<Longrightarrow> node_fits t"
proof (induction t)
  case (LeafNode k v)
  then show ?case
    using LeafNode.prems(3) [of k] by auto
next
  case (BranchNode pk pv cs)
  obtain x r v where "lookup (BranchNode pk pv cs) (pk @ x # r) = Some v"
    using BranchNode.prems(1,2) by (rule canonical_branch_longer)
  then have "length pk \<le> 0xFFFF"
    using BranchNode.prems(3) by fastforce
  moreover have "length v < 2 ^ 64" if "pv = Some v" for v
    using BranchNode.prems(3) [of pk v] that by (simp add: lookup_branch)
  moreover have "node_fits c" if "cs ! i = Some c" "i < length cs" for i c
  proof -
    have c: "slot cs (of_nat i) = Some c"
      using that BranchNode.prems(1) by (simp add: slot_def unat_of_nat_eq)
    have "length k \<le> 0xFFFF \<and> length v < 2 ^ 64" if "lookup c k = Some v" for k v
      using BranchNode.prems(3) [of "pk @ of_nat i # k" v] that c by (simp add: lookup_branch)
    then show ?thesis
      using BranchNode.IH [of "Some c" c] slot_in_set [OF c] trie_wf_child [OF BranchNode.prems(1) c]
        canonical_child [OF BranchNode.prems(2) c] by simp
  qed
  ultimately show ?case
    using BranchNode.prems(1) by (simp add: list_all_canonical_slot split: option.splits)
qed auto

lemma trie_inv_fits:
  assumes "trie_inv root" "\<And>key v. entries root key = Some v \<Longrightarrow> length key \<le> 0x7FFF \<and> length v < 2 ^ 64"
  shows "opt_all node_fits root"
proof (cases root)
  case (Some t)
  have "length k \<le> 0xFFFF \<and> length v < 2 ^ 64" if l: "lookup t k = Some v" for k v
  proof -
    have "k \<in> range keyToNibbles"
      using assms(1) l by (simp add: trie_inv_def Some)
    then obtain key where "k = keyToNibbles key"
      by blast
    then show ?thesis
      using assms(2) [of key v] l by (simp add: entries_def Some length_keyToNibbles)
  qed
  then show ?thesis
    using assms(1) lookup_fits [of t] by (simp add: Some trie_inv_def)
qed simp

text \<open>An image of a trie that fits also fits: its dummies carry keys of the database.\<close>

lemma loads_fits:
  assumes "loads (storage_retriever h np db) n t" "hash32 h" "merkle_db h np db S" "node_fits t"
  shows "node_fits n"
  using assms(1,4)
proof induction
  case (branch cs ds k v)
  have "node_fits c" if i: "i < length cs" "cs ! i = Some c" for i c
  proof -
    obtain d where d: "ds ! i = Some d"
      using branch.hyps(2) [OF i(1)] i(2) by auto
    obtain c' where c': "storage_retriever h np db c = Inr (Some c')" "node_fits d \<Longrightarrow> node_fits c'"
      using branch.IH [OF i d] by blast
    have "node_fits d"
      using branch.prems d i(1) branch.hyps(1) by (auto simp: list_all_canonical_slot)
    then show ?thesis
    proof (cases "isDummy c")
      case True
      then obtain q where q: "c = DummyNode q"
        by (cases c) auto
      then obtain e where "db (np @ q) = Some e"
        using c'(1) by (auto simp: storage_retriever_def retrieveNode_def backend_get_def prefixKey_def
            split: if_splits option.splits)
      then have "merkle_key h q e"
        using assms(3) by (simp add: merkle_db_def)
      then have "length q \<le> 32"
        using assms(2) by (auto simp: merkle_key_def merkleValue_def hash32_def)
      then show ?thesis
        by (simp add: q)
    next
      case False
      then show ?thesis
        using c' \<open>node_fits d\<close> by (simp add: storage_retriever_def)
    qed
  qed
  then show ?case
    using branch.prems branch.hyps(1) by (simp add: list_all_canonical_slot)
qed

section \<open>A session on the trie storage\<close>

definition ok_state :: "'e option \<times> 's \<Rightarrow> 'e + 's" where
  "ok_state r = (case fst r of None \<Rightarrow> Inr (snd r) | Some e \<Rightarrow> Inl e)"

lemma run_ops_rel:
  assumes "retriever_ok ret" "rel_option (loads ret) (pb_trie b) t" "trie_store_inv n t" "pb_changes b = None"
    and "list_all (\<lambda>p. length (op_key p) = n) ops"
  shows "\<exists>b' t'. run_ops (\<lambda>b k v. ok_state (pbatch_put ret b k v)) (\<lambda>b k. ok_state (pbatch_remove ret b k)) ops b = Inr b' \<and>
     rel_option (loads ret) (pb_trie b') t' \<and> pb_changes b' = None \<and> trie_store_inv n t' \<and>
     entries t' = fold apply_op ops (entries t)"
  using assms(2-)
proof (induction ops arbitrary: b t)
  case (Cons p ops)
  have "\<exists>b1 t1. run_ops (\<lambda>b k v. ok_state (pbatch_put ret b k v)) (\<lambda>b k. ok_state (pbatch_remove ret b k)) (p # ops) b =
        run_ops (\<lambda>b k v. ok_state (pbatch_put ret b k v)) (\<lambda>b k. ok_state (pbatch_remove ret b k)) ops b1 \<and>
      rel_option (loads ret) (pb_trie b1) t1 \<and> pb_changes b1 = None \<and> trie_store_inv n t1 \<and>
      entries t1 = apply_op p (entries t)"
  proof (cases p)
    case (Put k v)
    obtain t1 where t1: "trie_put defaultChildRetriever t k v = Inr t1" "trie_store_inv n t1"
        "entries t1 = (entries t)(k \<mapsto> v)"
      using trie_store.put_abs [OF Cons.prems(2), of k v] Cons.prems(4) Put by auto
    obtain n1 where "trie_put ret (pb_trie b) k v = Inr n1" "rel_option (loads ret) n1 t1"
      using trie_put_rel [OF assms(1) Cons.prems(1), of k v] t1(1) by (auto elim: rel_sum.cases)
    then show ?thesis
      using Put t1 Cons.prems(3)
      by (intro exI [of _ "b\<lparr>pb_trie := n1\<rparr>"] exI [of _ t1]) (simp add: pbatch_put_def ok_state_def)
  next
    case (Remove k)
    obtain t1 where t1: "trie_remove defaultChildRetriever t k = Inr t1" "trie_store_inv n t1"
        "entries t1 = (entries t)(k := None)"
      using trie_store.rem_abs [OF Cons.prems(2), of k] Cons.prems(4) Remove by auto
    have "opt_all trie_wf t"
      using Cons.prems(2) by (simp add: trie_store_inv_def trie_inv_def)
    then obtain n1 where "trie_remove ret (pb_trie b) k = Inr n1" "rel_option (loads ret) n1 t1"
      using trie_remove_rel [OF assms(1) Cons.prems(1), of k] t1(1) by (auto elim: rel_sum.cases)
    then show ?thesis
      using Remove t1 Cons.prems(3)
      by (intro exI [of _ "b\<lparr>pb_trie := n1\<rparr>"] exI [of _ t1]) (simp add: pbatch_remove_def ok_state_def)
  qed
  then obtain b1 t1 where b1: "run_ops (\<lambda>b k v. ok_state (pbatch_put ret b k v)) (\<lambda>b k. ok_state (pbatch_remove ret b k)) (p # ops) b =
        run_ops (\<lambda>b k v. ok_state (pbatch_put ret b k v)) (\<lambda>b k. ok_state (pbatch_remove ret b k)) ops b1"
      "rel_option (loads ret) (pb_trie b1) t1" "pb_changes b1 = None" "trie_store_inv n t1"
      "entries t1 = apply_op p (entries t)"
    by blast
  show ?case
    using Cons.IH [OF b1(2,4,3)] Cons.prems(4) unfolding b1(1,5) by simp
qed auto

lemma stored_rel:
  assumes "stored h np db key t"
  obtains n where "retrieveTrie h np db key = Inr n" "rel_option (loads (storage_retriever h np db)) n t"
  using assms by (auto simp: stored_def)

lemma opt_fits_rel:
  assumes "rel_option (loads (storage_retriever h np db)) n t" "hash32 h" "merkle_db h np db S" "opt_all node_fits t"
  shows "opt_all node_fits n"
  using assms loads_fits [of h np db _ _ S] by (cases n; cases t) auto

section \<open>What the changes tracker records\<close>

text \<open>
  A client that writes through a persistent batch and goes on after an error. The run collects the
  keys of the calls that returned an error.
\<close>

definition pbatch_op :: "retriever \<Rightarrow> map_op \<Rightarrow> persistent_batch \<Rightarrow> batch_error option \<times> persistent_batch" where
  "pbatch_op ret p b = (case p of Put k v \<Rightarrow> pbatch_put ret b k v | Remove k \<Rightarrow> pbatch_remove ret b k)"

fun pbatch_run :: "retriever \<Rightarrow> map_op list \<Rightarrow> persistent_batch \<Rightarrow> bytes list \<times> persistent_batch" where
  "pbatch_run ret [] b = ([], b)"
| "pbatch_run ret (p # ops) b =
     (let (err, b) = pbatch_op ret p b;
          (failed, b) = pbatch_run ret ops b
      in (if err = None then failed else op_key p # failed, b))"

lemma trie_contains_iff: "trie_contains ret root key \<longleftrightarrow> (\<exists>v. trie_get ret root key = Inr v)"
  by (auto simp: trie_contains_def trie_get_def rbind_def split: sum.splits option.splits)

lemma stored_get:
  assumes "rel_option (loads ret) n t" "trie_store_inv m t" "length k = m"
  shows "trie_get ret n k = (case entries t k of None \<Rightarrow> Inl NO_VALUE | Some v \<Rightarrow> Inr v)"
    and "trie_contains ret n k \<longleftrightarrow> entries t k \<noteq> None"
proof -
  show "trie_get ret n k = (case entries t k of None \<Rightarrow> Inl NO_VALUE | Some v \<Rightarrow> Inr v)"
    using trie_get_rel [OF assms(1)] trie_store.get_abs [OF assms(2,3)] by simp
  then show "trie_contains ret n k \<longleftrightarrow> entries t k \<noteq> None"
    by (auto simp: trie_contains_iff split: option.splits)
qed

text \<open>
  What one call does to the trie and to the tracker: the trie always changes, the tracker only
  when the extrinsic index could be read.
\<close>

definition tracks :: "map_op \<Rightarrow> (bytes \<Rightarrow> bytes option) \<Rightarrow> changes_tracker \<Rightarrow> batch_error option \<Rightarrow> changes_tracker \<Rightarrow> bool" where
  "tracks p m c err c' \<longleftrightarrow>
     (\<exists>index. (case p of Put k v \<Rightarrow> onPut index k v (m k = None) c | Remove k \<Rightarrow> onRemove index k c) =
        (case err of None \<Rightarrow> Inr c' | Some e \<Rightarrow> Inl e)) \<and> (err \<noteq> None \<longrightarrow> c' = c)"

lemma pbatch_op_rel:
  assumes "retriever_ok ret" "rel_option (loads ret) (pb_trie b) t" "trie_store_inv n t" "pb_changes b = Some c"
    and "length (op_key p) = n"
  obtains err b' c' t' where "pbatch_op ret p b = (err, b')" "rel_option (loads ret) (pb_trie b') t'" "trie_store_inv n t'"
    "entries t' = apply_op p (entries t)" "pb_changes b' = Some c'" "tracks p (entries t) c err c'"
proof (cases p)
  case (Put k v)
  obtain t1 where t1: "trie_put defaultChildRetriever t k v = Inr t1" "trie_store_inv n t1"
      "entries t1 = (entries t)(k \<mapsto> v)"
    using trie_store.put_abs [OF assms(3), of k v] assms(5) Put by auto
  obtain n1 where n1: "trie_put ret (pb_trie b) k v = Inr n1" "rel_option (loads ret) n1 t1"
    using trie_put_rel [OF assms(1,2), of k v] t1(1) by (auto elim: rel_sum.cases)
  have new: "(\<not> trie_contains ret (pb_trie b) k) = (entries t k = None)"
    using stored_get(2) [OF assms(2,3)] assms(5) Put by simp
  show thesis
  proof (cases "onPut (get_extrinsic_index ret n1) k v (entries t k = None) c")
    case (Inl e)
    then have "pbatch_op ret p b = (Some e, b\<lparr>pb_trie := n1\<rparr>)"
      using n1(1) assms(4) by (simp add: pbatch_op_def pbatch_put_def Put new)
    moreover have "tracks p (entries t) c (Some e) c"
      using Inl by (auto simp: tracks_def Put)
    ultimately show ?thesis
      using n1(2) t1 assms(4) Put by (intro that [of "Some e" "b\<lparr>pb_trie := n1\<rparr>" t1 c]) simp_all
  next
    case (Inr c')
    then have "pbatch_op ret p b = (None, b\<lparr>pb_trie := n1, pb_changes := Some c'\<rparr>)"
      using n1(1) assms(4) by (simp add: pbatch_op_def pbatch_put_def Put new)
    moreover have "tracks p (entries t) c None c'"
      using Inr by (auto simp: tracks_def Put)
    ultimately show ?thesis
      using n1(2) t1 Put by (intro that [of None "b\<lparr>pb_trie := n1, pb_changes := Some c'\<rparr>" t1 c']) simp_all
  qed
next
  case (Remove k)
  obtain t1 where t1: "trie_remove defaultChildRetriever t k = Inr t1" "trie_store_inv n t1"
      "entries t1 = (entries t)(k := None)"
    using trie_store.rem_abs [OF assms(3), of k] assms(5) Remove by auto
  have "opt_all trie_wf t"
    using assms(3) by (simp add: trie_store_inv_def trie_inv_def)
  then obtain n1 where n1: "trie_remove ret (pb_trie b) k = Inr n1" "rel_option (loads ret) n1 t1"
    using trie_remove_rel [OF assms(1,2), of k] t1(1) by (auto elim: rel_sum.cases)
  show thesis
  proof (cases "onRemove (get_extrinsic_index ret n1) k c")
    case (Inl e)
    then have "pbatch_op ret p b = (Some e, b\<lparr>pb_trie := n1\<rparr>)"
      using n1(1) assms(4) by (simp add: pbatch_op_def pbatch_remove_def Remove)
    moreover have "tracks p (entries t) c (Some e) c"
      using Inl by (auto simp: tracks_def Remove)
    ultimately show ?thesis
      using n1(2) t1 assms(4) Remove by (intro that [of "Some e" "b\<lparr>pb_trie := n1\<rparr>" t1 c]) simp_all
  next
    case (Inr c')
    then have "pbatch_op ret p b = (None, b\<lparr>pb_trie := n1, pb_changes := Some c'\<rparr>)"
      using n1(1) assms(4) by (simp add: pbatch_op_def pbatch_remove_def Remove)
    moreover have "tracks p (entries t) c None c'"
      using Inr by (auto simp: tracks_def Remove)
    ultimately show ?thesis
      using n1(2) t1 Remove by (intro that [of None "b\<lparr>pb_trie := n1, pb_changes := Some c'\<rparr>" t1 c']) simp_all
  qed
qed

text \<open>
  The tracker against the map \<open>m0\<close> at the start of the block and the current map \<open>m\<close>, for the keys
  outside of the set \<open>F\<close> of keys whose calls failed.
\<close>

definition tracker_inv :: "bytes set \<Rightarrow> (bytes \<Rightarrow> bytes option) \<Rightarrow> (bytes \<Rightarrow> bytes option) \<Rightarrow> changes_tracker \<Rightarrow> bool" where
  "tracker_inv F m0 m c \<longleftrightarrow>
     (\<forall>k. k \<notin> F \<longrightarrow>
        (m k \<noteq> m0 k \<longrightarrow> map_of (extrinsics_changes c) k \<noteq> None) \<and>
        (k \<in> new_entries c \<longrightarrow> map_of (extrinsics_changes c) k \<noteq> None \<and> m0 k = None)) \<and>
     (\<forall>k. map_of (extrinsics_changes c) k \<noteq> Some []) \<and> smap_ok (extrinsics_changes c)"

lemma tracker_inv_put:
  assumes "tracker_inv F m0 m c" "onPut index k v (m k = None) c = Inr c'"
  shows "tracker_inv F m0 (m(k \<mapsto> v)) c'"
proof -
  have "k \<notin> F \<Longrightarrow> map_of (extrinsics_changes c) k = None \<Longrightarrow> m0 k = m k"
    using assms(1) by (simp add: tracker_inv_def) (metis option.distinct(1))
  then show ?thesis
    using assms
    by (auto simp: tracker_inv_def onPut_def Let_def split: option.splits if_splits elim!: rbind_InrE)
qed

lemma tracker_inv_remove:
  assumes "tracker_inv F m0 m c" "onRemove index k c = Inr c'"
  shows "tracker_inv F m0 (m(k := None)) c'"
  using assms by (auto simp: tracker_inv_def onRemove_def split: option.splits if_splits elim!: rbind_InrE)

lemma tracker_inv_tracks:
  assumes "tracker_inv F m0 m c" "tracks p m c err c'"
  shows "tracker_inv (if err = None then F else insert (op_key p) F) m0 (apply_op p m) c'"
proof (cases err)
  case None
  then show ?thesis
    using assms tracker_inv_put tracker_inv_remove by (cases p) (auto simp: tracks_def)
next
  case (Some e)
  then have "c' = c"
    using assms(2) by (simp add: tracks_def)
  then show ?thesis
    using assms(1) Some by (cases p) (auto simp: tracker_inv_def)
qed

lemma pbatch_run_tracked:
  assumes "retriever_ok ret" "rel_option (loads ret) (pb_trie b) t" "trie_store_inv n t" "pb_changes b = Some c"
    and "list_all (\<lambda>p. length (op_key p) = n) ops" "pbatch_run ret ops b = (failed, b')" "tracker_inv F m0 (entries t) c"
  shows "\<exists>t' c'. rel_option (loads ret) (pb_trie b') t' \<and> trie_store_inv n t' \<and> entries t' = fold apply_op ops (entries t) \<and>
     pb_changes b' = Some c' \<and> tracker_inv (F \<union> set failed) m0 (entries t') c'"
  using assms(2-)
proof (induction ops arbitrary: b t c F failed)
  case Nil
  then show ?case
    by auto
next
  case (Cons p ops)
  have len: "length (op_key p) = n"
    using Cons.prems(4) by simp
  obtain err b1 c1 t1 where 1: "pbatch_op ret p b = (err, b1)" "rel_option (loads ret) (pb_trie b1) t1" "trie_store_inv n t1"
      "entries t1 = apply_op p (entries t)" "pb_changes b1 = Some c1" "tracks p (entries t) c err c1"
    by (rule pbatch_op_rel [OF assms(1) Cons.prems(1-3) len])
  obtain failed1 where f: "pbatch_run ret ops b1 = (failed1, b')" "failed = (if err = None then failed1 else op_key p # failed1)"
    using Cons.prems(5) 1(1) by (auto split: prod.splits)
  have "tracker_inv (if err = None then F else insert (op_key p) F) m0 (entries t1) c1"
    using tracker_inv_tracks [OF Cons.prems(6) 1(6)] by (simp add: 1(4))
  from Cons.IH [OF 1(2,3,5) _ f(1) this] Cons.prems(4)
  show ?case
    by (auto simp: 1(4) f(2) split: if_splits)
qed

section \<open>Properties\<close>

text \<open>
  A topper batch is transparent: as long as no prefix was cleared, every lookup in the batch
  gives what the parent trie gives after the batch was written back, and the write-back succeeds;
  keys that only the parent holds, overwritten keys and removed keys included.
\<close>

lemma topper_transparent:
  assumes "trie_store_inv n root" "smap_ok (t_cache b)" "t_cleared_prefixes b = []"
    and "list_all (\<lambda>(k, v). length k = n) (t_cache b)" "length key = n"
  shows "\<exists>root'. topper_writeBack (trie_put defaultChildRetriever) (trie_remove defaultChildRetriever)
      (trie_clearPrefix defaultChildRetriever) (Some root) b = Inr root' \<and> trie_store_inv n root' \<and>
    topper_get (trie_get defaultChildRetriever) (Some root) b key = lift_parent (trie_get defaultChildRetriever root' key)"
proof -
  have "list_all (\<lambda>k. length k = n) (map fst (t_cache b))"
    using assms(4) by (auto simp: list_all_iff)
  then obtain root' where "run_ops (trie_put defaultChildRetriever) (trie_remove defaultChildRetriever)
        (map cache_op (t_cache b)) root = Inr root'" "trie_store_inv n root'"
      "trie_get defaultChildRetriever root' key = (case map_of (t_cache b) key of
         None \<Rightarrow> trie_get defaultChildRetriever root key | Some None \<Rightarrow> Inl NO_VALUE | Some (Some v) \<Rightarrow> Inr v)"
    using trie_store.write_cache_get [OF assms(1,2) _ assms(5)] by blast
  then show ?thesis
    using assms(3)
    by (auto simp: topper_writeBack_def topper_get_def write_cache_run_ops lift_parent_def
        split: option.splits sum.splits)
qed

text \<open>
  Clearing a prefix of one byte hides the whole parent: \<^verbatim>\<open>wasClearedByPrefix\<close> compares one byte
  less than the prefix has, so after \<^verbatim>\<open>clearPrefix\<close> with a single byte every non-empty key that is not
  cached counts as cleared, whatever its first byte, and is reported as absent although the parent
  still holds it after the write-back.
\<close>

lemma topper_clear_hides_all:
  assumes "key \<noteq> []" "map_of (t_cache b) key = None" "t_cleared_prefixes b = []"
    and "topper_clearPrefix (Some root) b [x] = Inr b'"
  shows "topper_get (trie_get ret) (Some root) b' key = Inl (ParentError NO_VALUE) \<and>
    topper_contains (trie_contains ret) (Some root) b' key = Inr False"
proof -
  obtain cache where c: "clear_cache_loop [x] (t_cache b) = Inr cache" "t_cache b' = cache" "t_cleared_prefixes b' = [[x]]"
    using assms(3,4) by (auto simp: topper_clearPrefix_def)
  have "fst ` set cache = fst ` set (t_cache b)"
    using c(1) by (rule clear_cache_keys)
  then have "map_of cache key = None"
    using assms(2) by (simp add: map_of_eq_None_iff)
  moreover have "wasClearedByPrefix [[x]] key = Inr True"
    using assms(1) by (cases key) auto
  ultimately show ?thesis
    by (simp add: topper_get_def topper_contains_def c(2,3))
qed

text \<open>
  C7. A session on the trie storage. Opening a persistent batch at the current root, any sequence
  of puts and removals on keys of one length of at most 0x7FFF bytes, and a commit all succeed, for
  a storage without changes tracker and values shorter than 2 ^ 64 bytes, as long as the hash does
  not collide on the encodings in the database and those written. The storage then has the new
  root hash, an ephemeral batch opened at it reads for every key of that length what the same
  sequence gives on a map, and every entry of the database is still there as it was.
\<close>

theorem storage_session:
  assumes "\<forall>x. length (h x) = 32" "merkle_db h np (ts_db st) S" "ts_changes st = None"
    and "stored h np (ts_db st) (ts_root_hash st) t" "trie_store_inv n t" "n \<le> 0x7FFF"
    and "list_all (\<lambda>p. length (op_key p) = n) ops" "\<forall>key v. fold apply_op ops (entries t) key = Some v \<longrightarrow> length v < 2 ^ 64"
  shows "\<exists>b b'. getPersistentBatch h np st = Inr b \<and>
     run_ops (\<lambda>b k v. ok_state (pbatch_put (storage_retriever h np (ts_db st)) b k v))
       (\<lambda>b k. ok_state (pbatch_remove (storage_retriever h np (ts_db st)) b k)) ops b = Inr b' \<and>
     (inj_on h (insert [0] (S \<union> (\<Union>m \<in> set_option (pb_trie b'). encodings h m))) \<longrightarrow>
        (\<exists>root b'' st' e. pbatch_commit h np st b' = Inr (root, b'', st') \<and> ts_root_hash st' = root \<and>
           ts_db st \<subseteq>\<^sub>m ts_db st' \<and> getEphemeralBatch h np st' = Inr e \<and>
           (\<forall>key. length key = n \<longrightarrow> ebatch_get (storage_retriever h np (ts_db st')) e key =
              (case fold apply_op ops (entries t) key of None \<Rightarrow> Inl NO_VALUE | Some v \<Rightarrow> Inr v))))"
proof -
  let ?ret = "storage_retriever h np (ts_db st)"
  have h: "hash32 h"
    using assms(1) by (simp add: hash32_def)
  obtain n0 where n0: "retrieveTrie h np (ts_db st) (ts_root_hash st) = Inr n0" "rel_option (loads ?ret) n0 t"
    using assms(4) by (rule stored_rel)
  let ?b = "\<lparr>pb_trie = n0, pb_changes = None\<rparr>"
  have b: "getPersistentBatch h np st = Inr ?b"
    using n0(1) assms(3) by (simp add: getPersistentBatch_def getPersistentBatchAt_def)
  obtain b' t' where r: "run_ops (\<lambda>b k v. ok_state (pbatch_put ?ret b k v)) (\<lambda>b k. ok_state (pbatch_remove ?ret b k)) ops ?b = Inr b'"
      "rel_option (loads ?ret) (pb_trie b') t'" "trie_store_inv n t'" "entries t' = fold apply_op ops (entries t)"
    using run_ops_rel [OF retriever_ok_storage, of h np "ts_db st" ?b t n ops] n0(2) assms(5,7) by auto
  have "opt_all node_fits t'"
    using r(3,4) assms(6,8)
    by (intro trie_inv_fits) (auto simp: trie_store_inv_def key_lengths_def)
  then have fits: "opt_all node_fits (pb_trie b')"
    by (rule opt_fits_rel [OF r(2) h assms(2)])
  have "\<exists>root b'' st' e. pbatch_commit h np st b' = Inr (root, b'', st') \<and> ts_root_hash st' = root \<and>
           ts_db st \<subseteq>\<^sub>m ts_db st' \<and> getEphemeralBatch h np st' = Inr e \<and>
           (\<forall>key. length key = n \<longrightarrow> ebatch_get (storage_retriever h np (ts_db st')) e key =
              (case fold apply_op ops (entries t) key of None \<Rightarrow> Inl NO_VALUE | Some v \<Rightarrow> Inr v))"
    if inj: "inj_on h (insert [0] (S \<union> (\<Union>m \<in> set_option (pb_trie b'). encodings h m)))"
  proof -
    obtain root n' db' where s: "storeTrie h np (ts_db st) (pb_trie b') = Inr (root, n', db')" "stored h np db' root t'"
      "ts_db st \<subseteq>\<^sub>m db'"
      using storeTrie_grows [OF h fits r(2) assms(2) inj] by blast
    obtain e where e: "retrieveTrie h np db' root = Inr e" "rel_option (loads (storage_retriever h np db')) e t'"
      using s(2) by (rule stored_rel)
    have "trie_get defaultChildRetriever t' key = (case fold apply_op ops (entries t) key of None \<Rightarrow> Inl NO_VALUE | Some v \<Rightarrow> Inr v)"
      if "length key = n" for key
      using trie_store.get_abs [OF r(3) that] r(4) by simp
    then show ?thesis
      using s(1,3) e(1) trie_get_rel [OF e(2)]
      by (simp add: pbatch_commit_def getEphemeralBatch_def getEphemeralBatchAt_def ebatch_get_def)
  qed
  then show ?thesis
    using b r(1) by blast
qed

theorem storage_session_witness:
  "\<exists>st b b' root b'' st' e. storage_createEmpty toy_hash [9] Map.empty None = Inr st \<and>
     getPersistentBatch toy_hash [9] st = Inr b \<and>
     run_ops (\<lambda>b k v. ok_state (pbatch_put (storage_retriever toy_hash [9] (ts_db st)) b k v))
       (\<lambda>b k. ok_state (pbatch_remove (storage_retriever toy_hash [9] (ts_db st)) b k))
       [Put [1] [7], Put [2] [8], Remove [1]] b = Inr b' \<and>
     pbatch_commit toy_hash [9] st b' = Inr (root, b'', st') \<and> ts_root_hash st' = root \<and>
     getEphemeralBatch toy_hash [9] st' = Inr e \<and>
     ebatch_get (storage_retriever toy_hash [9] (ts_db st')) e [2] = Inr [8] \<and>
     ebatch_get (storage_retriever toy_hash [9] (ts_db st')) e [1] = Inl NO_VALUE"
proof -
  let ?st = "\<lparr>ts_db = Map.empty, ts_root_hash = getEmptyRootHash toy_hash, ts_changes = None\<rparr>"
  let ?ops = "[Put [1] [7], Put [2] [8], Remove [1]]"
  let ?run = "run_ops (\<lambda>b k v. ok_state (pbatch_put (storage_retriever toy_hash [9] (ts_db ?st)) b k v))
       (\<lambda>b k. ok_state (pbatch_remove (storage_retriever toy_hash [9] (ts_db ?st)) b k)) ?ops"
  have st: "storage_createEmpty toy_hash [9] Map.empty None = Inr ?st"
    by (simp add: storage_createEmpty_def storeTrie_def)
  have "merkle_db toy_hash [9] (ts_db ?st) {}"
    by (simp add: merkle_db_def)
  moreover have "stored toy_hash [9] (ts_db ?st) (ts_root_hash ?st) None"
    using stored_empty [of toy_hash "[9]" Map.empty] by simp
  moreover have "ts_changes ?st = None" "trie_store_inv 1 None" "1 \<le> (0x7FFF :: nat)" "list_all (\<lambda>p. length (op_key p) = 1) ?ops"
    "\<forall>key v. fold apply_op ?ops (entries None) key = Some v \<longrightarrow> length v < 2 ^ 64"
    by (simp_all add: trie_store_inv_def)
  ultimately obtain b b' where b: "getPersistentBatch toy_hash [9] ?st = Inr b" "?run b = Inr b'"
    and c: "inj_on toy_hash (insert [0] ({} \<union> (\<Union>m \<in> set_option (pb_trie b'). encodings toy_hash m))) \<Longrightarrow>
        (\<exists>root b'' st' e. pbatch_commit toy_hash [9] ?st b' = Inr (root, b'', st') \<and> ts_root_hash st' = root \<and>
           getEphemeralBatch toy_hash [9] st' = Inr e \<and>
           (\<forall>key. length key = 1 \<longrightarrow> ebatch_get (storage_retriever toy_hash [9] (ts_db st')) e key =
              (case fold apply_op ?ops (entries None) key of None \<Rightarrow> Inl NO_VALUE | Some v \<Rightarrow> Inr v)))"
    using storage_session [OF toy_hash_facts(1), of "[9]" ?st "{}" None 1 ?ops] by blast
  have "b = \<lparr>pb_trie = None, pb_changes = None\<rparr>"
    using b(1) by (simp add: getPersistentBatch_def getPersistentBatchAt_def retrieveTrie_def)
  moreover have "?run \<lparr>pb_trie = None, pb_changes = None\<rparr> = Inr \<lparr>pb_trie = Some (LeafNode [0, 2] (Some [8])), pb_changes = None\<rparr>"
    by code_simp
  ultimately have "b' = \<lparr>pb_trie = Some (LeafNode [0, 2] (Some [8])), pb_changes = None\<rparr>"
    using b(2) by (metis sum.inject(2))
  then have "pb_trie b' = Some (LeafNode [0, 2] (Some [8]))"
    by simp
  then have "inj_on toy_hash (insert [0] ({} \<union> (\<Union>m \<in> set_option (pb_trie b'). encodings toy_hash m)))"
    using toy_hash_facts(2) [of "[0, 2]" "Some [8]"] by simp
  from c [OF this] obtain root b'' st' e where r: "pbatch_commit toy_hash [9] ?st b' = Inr (root, b'', st')" "ts_root_hash st' = root"
      "getEphemeralBatch toy_hash [9] st' = Inr e"
      "\<And>key. length key = 1 \<Longrightarrow> ebatch_get (storage_retriever toy_hash [9] (ts_db st')) e key =
         (case fold apply_op ?ops (entries None) key of None \<Rightarrow> Inl NO_VALUE | Some v \<Rightarrow> Inr v)"
    by blast
  show ?thesis
    using st b r(1-3) r(4) [of "[1]"] r(4) [of "[2]"]
    by (intro exI [of _ ?st] exI [of _ b] exI [of _ b'] exI [of _ root] exI [of _ b''] exI [of _ st'] exI [of _ e]) simp
qed

text \<open>
  C24. What the changes tracker records of a block. A persistent batch is opened at the root of a
  storage whose tracker was reset by a new block, and any puts and removals on keys of one length
  follow, whether a call succeeds or fails to notify the tracker. Every call takes effect on the
  trie. For a key none of whose calls failed, if its value differs from the one at the start, the
  tracker has it with at least one extrinsic, and if the tracker has it as new, it was absent at
  the start. Clearing a prefix leaves the tracker as it is, so what it removes is not recorded.
\<close>

theorem tracker_complete:
  assumes "stored h np (ts_db st) (ts_root_hash st) t" "trie_store_inv n t"
    and "ts_changes st = Some (onBlockChange parent number c0)" "getPersistentBatch h np st = Inr b"
    and "list_all (\<lambda>p. length (op_key p) = n) ops"
    and "pbatch_run (storage_retriever h np (ts_db st)) ops b = (failed, b')"
  shows "\<exists>c. pb_changes b' = Some c \<and>
    (\<forall>k. length k = n \<longrightarrow> pbatch_get (storage_retriever h np (ts_db st)) b' k =
       (case fold apply_op ops (entries t) k of None \<Rightarrow> Inl NO_VALUE | Some v \<Rightarrow> Inr v)) \<and>
    (\<forall>k. length k = n \<and> k \<notin> set failed \<longrightarrow>
       (pbatch_get (storage_retriever h np (ts_db st)) b' k \<noteq> pbatch_get (storage_retriever h np (ts_db st)) b k \<longrightarrow>
          (\<exists>idx changers. map_of (extrinsics_changes c) k = Some (idx # changers))) \<and>
       (k \<in> new_entries c \<longrightarrow> \<not> pbatch_contains (storage_retriever h np (ts_db st)) b k)) \<and>
    (\<forall>p b''. pbatch_clearPrefix (storage_retriever h np (ts_db st)) b' p = Inr b'' \<longrightarrow> pb_changes b'' = Some c)"
proof -
  let ?ret = "storage_retriever h np (ts_db st)"
  let ?c0 = "onBlockChange parent number c0"
  obtain n0 where n0: "retrieveTrie h np (ts_db st) (ts_root_hash st) = Inr n0" "rel_option (loads ?ret) n0 t"
    using assms(1) by (rule stored_rel)
  then have b: "b = \<lparr>pb_trie = n0, pb_changes = Some ?c0\<rparr>"
    using assms(3,4) by (simp add: getPersistentBatch_def getPersistentBatchAt_def)
  have "tracker_inv {} (entries t) (entries t) ?c0"
    by (simp add: tracker_inv_def onBlockChange_def)
  then have "\<exists>t' c. rel_option (loads ?ret) (pb_trie b') t' \<and> trie_store_inv n t' \<and>
      entries t' = fold apply_op ops (entries t) \<and> pb_changes b' = Some c \<and> tracker_inv ({} \<union> set failed) (entries t) (entries t') c"
    using n0(2) b by (intro pbatch_run_tracked [OF retriever_ok_storage _ assms(2) _ assms(5,6)]) simp_all
  then obtain t' c where r: "rel_option (loads ?ret) (pb_trie b') t'" "trie_store_inv n t'"
      "entries t' = fold apply_op ops (entries t)" "pb_changes b' = Some c" "tracker_inv (set failed) (entries t) (entries t') c"
    by auto
  have g: "pbatch_get ?ret b k = (case entries t k of None \<Rightarrow> Inl NO_VALUE | Some v \<Rightarrow> Inr v)"
      "pbatch_get ?ret b' k = (case entries t' k of None \<Rightarrow> Inl NO_VALUE | Some v \<Rightarrow> Inr v)"
      "pbatch_contains ?ret b k \<longleftrightarrow> entries t k \<noteq> None" if "length k = n" for k
    using stored_get [OF n0(2) assms(2) that] stored_get [OF r(1,2) that]
    by (simp_all add: pbatch_get_def pbatch_contains_def b)
  have "\<exists>idx changers. map_of (extrinsics_changes c) k = Some (idx # changers)"
    if "k \<notin> set failed" "entries t' k \<noteq> entries t k" for k
    using r(5) that by (auto simp: tracker_inv_def neq_Nil_conv) (metis list.exhaust)
  moreover have "entries t k = None" if "k \<notin> set failed" "k \<in> new_entries c" for k
    using r(5) that by (simp add: tracker_inv_def)
  moreover have "pb_changes b'' = Some c" if "pbatch_clearPrefix ?ret b' p = Inr b''" for p b''
    using that r(4) by (cases "trie_clearPrefix ?ret (pb_trie b') p") (auto simp: pbatch_clearPrefix_def)
  ultimately show ?thesis
    using r(3,4) g by (intro exI [of _ c]) metis
qed

theorem tracker_complete_witness:
  "\<exists>st b b' c. storage_createEmpty toy_hash [9] Map.empty (Some (onBlockChange [] 5 StorageChangesTrackerImpl)) = Inr st \<and>
     getPersistentBatch toy_hash [9] st = Inr b \<and>
     pbatch_run (storage_retriever toy_hash [9] (ts_db st)) [Put [1] [7], Put [2] [8], Remove [1]] b = ([], b') \<and>
     pb_changes b' = Some c \<and> (\<exists>idx changers. map_of (extrinsics_changes c) [2] = Some (idx # changers))"
proof -
  let ?c = "onBlockChange [] 5 StorageChangesTrackerImpl"
  let ?st = "\<lparr>ts_db = Map.empty, ts_root_hash = getEmptyRootHash toy_hash, ts_changes = Some ?c\<rparr>"
  let ?b = "\<lparr>pb_trie = None, pb_changes = Some ?c\<rparr>"
  let ?ops = "[Put [1] [7], Put [2] [8], Remove [1]]"
  let ?ret = "storage_retriever toy_hash [9] Map.empty"
  have st: "storage_createEmpty toy_hash [9] Map.empty (Some ?c) = Inr ?st"
    by (simp add: storage_createEmpty_def storeTrie_def)
  have b: "getPersistentBatch toy_hash [9] ?st = Inr ?b"
    by (simp add: getPersistentBatch_def getPersistentBatchAt_def retrieveTrie_def)
  have "fst (pbatch_run ?ret ?ops ?b) = [] \<and>
      pbatch_get ?ret (snd (pbatch_run ?ret ?ops ?b)) [2] = Inr [8] \<and> pbatch_get ?ret ?b [2] = Inl NO_VALUE"
    by code_simp
  moreover obtain b' where "pbatch_run ?ret ?ops ?b = (fst (pbatch_run ?ret ?ops ?b), b')"
    by (metis prod.collapse)
  ultimately have run: "pbatch_run ?ret ?ops ?b = ([], b')" "pbatch_get ?ret b' [2] \<noteq> pbatch_get ?ret ?b [2]"
    by (metis, metis snd_conv sum.distinct(1))
  show ?thesis
    using tracker_complete [of toy_hash "[9]" ?st None 1 "[]" 5 StorageChangesTrackerImpl ?b ?ops "[]" b']
      stored_empty [of toy_hash "[9]" Map.empty] st b run
    by (auto simp: trie_store_inv_def)
qed

end
