(* ===== verification/Utxo.thy ===== *)
theory Utxo
  imports Prelude "HOL-Library.Sublist"
begin

text \<open>
  Unspent outputs and the parameters of a transaction that spends them:
  \<^verbatim>\<open>src/account/TokenID.hpp\<close>, \<^verbatim>\<open>GeniusUTXO.hpp\<close>, \<^verbatim>\<open>UTXOTxParameters.cpp\<close> and the accounting part of
  \<^verbatim>\<open>GeniusAccount\<close>. Amounts are 64-bit words and wrap as in the code; \<open>unat\<close> reads them as
  natural numbers.
\<close>

section \<open>Token identifiers\<close>

record TokenID =
  tok_data :: bytes
  tok_valid :: bool

definition TokenID_default :: TokenID where
  "TokenID_default = \<lparr>tok_data = replicate 32 0, tok_valid = False\<rparr>"

definition FromBytes :: "bytes \<Rightarrow> TokenID" where
  "FromBytes bs =
     (if bs = [] then TokenID_default
      else if length bs \<le> 32 then \<lparr>tok_data = replicate (32 - length bs) 0 @ bs, tok_valid = True\<rparr>
      else TokenID_default)"

definition tok_size :: "TokenID \<Rightarrow> nat" where
  "tok_size t = (if tok_valid t then 32 else 0)"

definition IsGNUS :: "TokenID \<Rightarrow> bool" where
  "IsGNUS t \<longleftrightarrow> \<not> tok_valid t \<or> list_all (\<lambda>b. b = 0) (tok_data t)"

definition Equals :: "TokenID \<Rightarrow> TokenID \<Rightarrow> bool" where
  "Equals t other \<longleftrightarrow> t = other \<or> (IsGNUS t \<and> IsGNUS other)"

section \<open>Unspent outputs\<close>

record GeniusUTXO =
  GetTxID :: bytes
  GetOutputIdx :: u32
  GetAmount :: u64
  GetLock :: bool
  GetTokenID :: TokenID

definition new_utxo :: "bytes \<Rightarrow> u32 \<Rightarrow> u64 \<Rightarrow> TokenID \<Rightarrow> GeniusUTXO" where
  "new_utxo hash previous_index amount token_id =
     \<lparr>GetTxID = hash, GetOutputIdx = previous_index, GetAmount = amount, GetLock = False, GetTokenID = token_id\<rparr>"

definition ToggleLock :: "bool \<Rightarrow> GeniusUTXO \<Rightarrow> GeniusUTXO" where
  "ToggleLock lock u = u\<lparr>GetLock := lock\<rparr>"

record InputUTXOInfo =
  txid_hash :: bytes
  output_idx :: u32
  input_signature :: string

record OutputDestInfo =
  encrypted_amount :: u64
  dest_address :: string
  out_token_id :: TokenID

record UTXOTxParameters =
  inputs :: "InputUTXOInfo list"
  outputs :: "OutputDestInfo list"

definition input_of :: "GeniusUTXO \<Rightarrow> InputUTXOInfo" where
  "input_of u = \<lparr>txid_hash = GetTxID u, output_idx = GetOutputIdx u, input_signature = []\<rparr>"

text \<open>
  The loop that both constructors use to pick unspent outputs until the amount is covered;
  the picked ones are returned in order, with their sum.
\<close>

fun select_utxos :: "TokenID \<Rightarrow> u64 \<Rightarrow> GeniusUTXO list \<Rightarrow> u64 \<Rightarrow> GeniusUTXO list \<times> u64" where
  "select_utxos token_id amount [] used = ([], used)"
| "select_utxos token_id amount (u # pool) used =
     (if used \<ge> amount then ([], used)
      else if GetLock u then select_utxos token_id amount pool used
      else if \<not> Equals token_id (GetTokenID u) then select_utxos token_id amount pool used
      else
        let (sel, used) = select_utxos token_id amount pool (used + GetAmount u)
        in (u # sel, used))"

definition UTXOTxParameters_multi :: "GeniusUTXO list \<Rightarrow> string \<Rightarrow> OutputDestInfo list \<Rightarrow> TokenID \<Rightarrow> UTXOTxParameters" where
  "UTXOTxParameters_multi utxo_pool src_address destinations token_id =
     (let total_amount = fold (\<lambda>d sum. sum + encrypted_amount d) destinations 0;
          (sel, used_amount) = select_utxos token_id total_amount utxo_pool 0;
          ins = (if used_amount < total_amount then [] else map input_of sel);
          outs = (if used_amount < total_amount then [] else destinations);
          change_token = (if sel = [] then TokenID_default else token_id)
      in \<lparr>inputs = ins,
          outputs = (if used_amount > total_amount
                     then outs @ [\<lparr>encrypted_amount = used_amount - total_amount, dest_address = src_address, out_token_id = change_token\<rparr>]
                     else outs)\<rparr>)"

text \<open>The second loop of the single-destination constructor, which sums up what is sent.\<close>

fun send_total_loop :: "u64 \<Rightarrow> GeniusUTXO list \<Rightarrow> u64 \<Rightarrow> u64 \<Rightarrow> u64" where
  "send_total_loop amount [] send_totals used = send_totals"
| "send_total_loop amount (u # us) send_totals used =
     (if used + GetAmount u \<le> amount
      then send_total_loop amount us (send_totals + GetAmount u) (used + GetAmount u)
      else send_totals + (amount - used))"

definition UTXOTxParameters_single :: "GeniusUTXO list \<Rightarrow> string \<Rightarrow> u64 \<Rightarrow> string \<Rightarrow> TokenID \<Rightarrow> UTXOTxParameters" where
  "UTXOTxParameters_single utxo_pool src_address amount dest token_id =
     (let (sel, selected_amount) = select_utxos token_id amount utxo_pool 0 in
      if selected_amount < amount \<or> sel = [] then \<lparr>inputs = [], outputs = []\<rparr>
      else
        let send_totals = send_total_loop amount sel 0 0;
            change = selected_amount - amount
        in \<lparr>inputs = map input_of sel,
            outputs = \<lparr>encrypted_amount = send_totals, dest_address = dest, out_token_id = token_id\<rparr> #
              (if change > 0 then [\<lparr>encrypted_amount = change, dest_address = src_address, out_token_id = token_id\<rparr>] else [])\<rparr>)"

text \<open>The factories; failure carries no information.\<close>

definition create_single :: "GeniusUTXO list \<Rightarrow> string \<Rightarrow> u64 \<Rightarrow> string \<Rightarrow> TokenID \<Rightarrow> UTXOTxParameters option" where
  "create_single utxo_pool src_address amount dest token_id =
     (let params = UTXOTxParameters_single utxo_pool src_address amount dest token_id
      in if inputs params \<noteq> [] then Some params else None)"

definition create_multi :: "GeniusUTXO list \<Rightarrow> string \<Rightarrow> OutputDestInfo list \<Rightarrow> TokenID \<Rightarrow> UTXOTxParameters option" where
  "create_multi utxo_pool src_address destinations token_id =
     (let params = UTXOTxParameters_multi utxo_pool src_address destinations token_id
      in if inputs params \<noteq> [] then Some params else None)"

definition lock_spent :: "InputUTXOInfo \<Rightarrow> GeniusUTXO list \<Rightarrow> GeniusUTXO list" where
  "lock_spent i pool = map (\<lambda>u. if txid_hash i = GetTxID u then ToggleLock True u else u) pool"

definition UpdateUTXOList :: "GeniusUTXO list \<Rightarrow> UTXOTxParameters \<Rightarrow> GeniusUTXO list" where
  "UpdateUTXOList utxo_pool params = fold lock_spent (inputs params) utxo_pool"

section \<open>The account\<close>

record GeniusAccount =
  GetAddress :: string
  acc_token :: TokenID
  acc_nonce :: u64
  utxos :: "GeniusUTXO list"

definition GetBalance :: "GeniusAccount \<Rightarrow> u64" where
  "GetBalance acc = fold (\<lambda>u bal. if \<not> GetLock u then bal + GetAmount u else bal) (utxos acc) 0"

definition GetBalance_token :: "TokenID \<Rightarrow> GeniusAccount \<Rightarrow> u64" where
  "GetBalance_token token_id acc =
     fold (\<lambda>u bal. if \<not> GetLock u \<and> Equals token_id (GetTokenID u) then bal + GetAmount u else bal) (utxos acc) 0"

definition PutUTXO :: "GeniusUTXO \<Rightarrow> GeniusAccount \<Rightarrow> bool \<times> GeniusAccount" where
  "PutUTXO u acc =
     (let is_new = \<not> list_ex (\<lambda>curr. GetTxID u = GetTxID curr \<and> GetOutputIdx u = GetOutputIdx curr) (utxos acc)
      in (is_new, if is_new then acc\<lparr>utxos := utxos acc @ [u]\<rparr> else acc))"

definition RefreshUTXOs :: "InputUTXOInfo list \<Rightarrow> GeniusAccount \<Rightarrow> bool \<times> GeniusAccount" where
  "RefreshUTXOs infos acc =
     (True, acc\<lparr>utxos := filter (\<lambda>x. \<not> list_ex (\<lambda>a. txid_hash a = GetTxID x \<and> output_idx a = GetOutputIdx x) infos) (utxos acc)\<rparr>)"

section \<open>Sums without wrap-around\<close>

definition spendable :: "TokenID \<Rightarrow> GeniusUTXO \<Rightarrow> bool" where
  "spendable token_id u \<longleftrightarrow> \<not> GetLock u \<and> Equals token_id (GetTokenID u)"

definition utxo_total :: "GeniusUTXO list \<Rightarrow> nat" where
  "utxo_total us = sum_list (map (\<lambda>u. unat (GetAmount u)) us)"

definition out_total :: "OutputDestInfo list \<Rightarrow> nat" where
  "out_total outs = sum_list (map (\<lambda>d. unat (encrypted_amount d)) outs)"

definition outpoint :: "GeniusUTXO \<Rightarrow> bytes \<times> u32" where
  "outpoint u = (GetTxID u, GetOutputIdx u)"

definition in_outpoint :: "InputUTXOInfo \<Rightarrow> bytes \<times> u32" where
  "in_outpoint i = (txid_hash i, output_idx i)"

lemma in_outpoint_input_of [simp]: "in_outpoint (input_of u) = outpoint u"
  by (simp add: in_outpoint_def input_of_def outpoint_def)

lemma utxo_total_simps [simp]: "utxo_total [] = 0" "utxo_total (u # us) = unat (GetAmount u) + utxo_total us" "utxo_total (us @ vs) = utxo_total us + utxo_total vs"
  by (simp_all add: utxo_total_def)

lemma out_total_simps [simp]: "out_total [] = 0" "out_total (d # ds) = unat (encrypted_amount d) + out_total ds"
    "out_total (ds @ es) = out_total ds + out_total es"
  by (simp_all add: out_total_def)

lemma total_filter_le: "utxo_total (filter P us) \<le> utxo_total us"
  by (induction us) auto

lemma unat_plus_total: "unat (used :: u64) + (unat a + t) < 2 ^ 64 \<Longrightarrow> unat (used + a) = unat used + unat a"
  by (subst unat_add_lem [THEN iffD1]) simp_all

lemma fold_balance:
  assumes "unat (bal :: u64) + utxo_total (filter P us) < 2 ^ 64"
  shows "unat (fold (\<lambda>u bal. if P u then bal + GetAmount u else bal) us bal) = unat bal + utxo_total (filter P us)"
  using assms
proof (induction us arbitrary: bal)
  case (Cons u us)
  then show ?case
    using unat_plus_total [of bal "GetAmount u"] by auto
qed simp

lemma GetBalance_token_total:
  "utxo_total (utxos acc) < 2 ^ 64 \<Longrightarrow> unat (GetBalance_token tok acc) = utxo_total (filter (spendable tok) (utxos acc))"
  using fold_balance [of 0 "spendable tok" "utxos acc"] total_filter_le [of "spendable tok" "utxos acc"]
  by (simp add: GetBalance_token_def spendable_def)

section \<open>Selecting unspent outputs\<close>

lemma select_utxos_spec:
  assumes "select_utxos tok amount pool used = (sel, used')" "unat used + utxo_total (filter (spendable tok) pool) < 2 ^ 64"
  shows "prefix sel (filter (spendable tok) pool) \<and> unat used' = unat used + utxo_total sel \<and>
    (used' < amount \<longrightarrow> sel = filter (spendable tok) pool) \<and>
    (sel \<noteq> [] \<longrightarrow> unat used + utxo_total (butlast sel) < unat amount)"
  using assms
proof (induction tok amount pool used arbitrary: sel used' rule: select_utxos.induct)
  case (2 tok amount u pool used)
  show ?case
  proof (cases "used \<ge> amount \<or> \<not> spendable tok u")
    case True
    then show ?thesis
      using 2 by (auto simp: spendable_def split: if_splits)
  next
    case False
    then have u: "used < amount" "\<not> GetLock u" "Equals tok (GetTokenID u)" "spendable tok u"
      by (auto simp: spendable_def)
    obtain sel' where s: "select_utxos tok amount pool (used + GetAmount u) = (sel', used')" "sel = u # sel'"
      using "2.prems"(1) u(2,3) linorder_not_le [THEN iffD2, OF u(1)] by (auto simp: Let_def split: if_splits prod.splits)
    have sum: "unat (used + GetAmount u) = unat used + unat (GetAmount u)"
      using "2.prems"(2) u(4) by (auto intro: unat_plus_total)
    have "prefix sel' (filter (spendable tok) pool) \<and> unat used' = unat (used + GetAmount u) + utxo_total sel' \<and>
        (used' < amount \<longrightarrow> sel' = filter (spendable tok) pool) \<and>
        (sel' \<noteq> [] \<longrightarrow> unat (used + GetAmount u) + utxo_total (butlast sel') < unat amount)"
      using "2.prems"(2) u sum by (intro "2.IH"(3) [OF _ _ _ s(1)]) auto
    then show ?thesis
      using s(2) sum u by (auto simp: word_less_nat_alt)
  qed
qed simp

lemma send_total_loop_eq:
  assumes "used \<le> amount" "unat used + utxo_total us < 2 ^ 64" "unat amount \<le> unat used + utxo_total us"
  shows "send_total_loop amount us s used = s + (amount - used)"
  using assms
proof (induction us arbitrary: s used)
  case Nil
  then have "used = amount"
    by (simp add: word_le_nat_alt word_unat_eq_iff)
  then show ?case by simp
next
  case (Cons u us)
  have sum: "unat (used + GetAmount u) = unat used + unat (GetAmount u)"
    using Cons.prems(2) by (auto intro: unat_plus_total)
  show ?case
  proof (cases "used + GetAmount u \<le> amount")
    case True
    then have "send_total_loop amount us (s + GetAmount u) (used + GetAmount u) = s + GetAmount u + (amount - (used + GetAmount u))"
      using Cons.prems sum by (intro Cons.IH) auto
    then show ?thesis
      using True by simp
  qed simp
qed

lemma create_single_cases:
  assumes "utxo_total pool < 2 ^ 64"
  shows "case create_single pool src amount dest tok of
      None \<Rightarrow> amount = 0 \<or> utxo_total (filter (spendable tok) pool) < unat amount
    | Some params \<Rightarrow> \<exists>sel. sel \<noteq> [] \<and> prefix sel (filter (spendable tok) pool) \<and>
        inputs params = map input_of sel \<and> unat amount \<le> utxo_total sel \<and> utxo_total (butlast sel) < unat amount \<and>
        outputs params = \<lparr>encrypted_amount = amount, dest_address = dest, out_token_id = tok\<rparr> #
          (if utxo_total sel = unat amount then []
           else [\<lparr>encrypted_amount = of_nat (utxo_total sel - unat amount), dest_address = src, out_token_id = tok\<rparr>])"
proof -
  obtain sel used where s: "select_utxos tok amount pool 0 = (sel, used)"
    by fastforce
  have fit: "utxo_total (filter (spendable tok) pool) < 2 ^ 64"
    using assms total_filter_le [of "spendable tok" pool] by simp
  then have spec: "prefix sel (filter (spendable tok) pool)" "unat used = utxo_total sel"
      "used < amount \<Longrightarrow> sel = filter (spendable tok) pool" "sel \<noteq> [] \<Longrightarrow> utxo_total (butlast sel) < unat amount"
    using select_utxos_spec [OF s] by auto
  have le: "utxo_total sel \<le> utxo_total (filter (spendable tok) pool)"
    using spec(1) by (auto simp: prefix_def)
  show ?thesis
  proof (cases "used < amount \<or> sel = []")
    case True
    have "amount = 0 \<or> utxo_total (filter (spendable tok) pool) < unat amount"
    proof (cases "used < amount")
      case True
      then show ?thesis
        using spec(2,3) by (simp add: word_less_nat_alt)
    next
      case False
      then have "sel = []"
        using True by simp
      then have "used = 0"
        using spec(2) by (simp add: unat_eq_zero)
      then show ?thesis
        using False by (simp add: word_le_nat_alt not_less unat_eq_zero)
    qed
    then show ?thesis
      using True by (simp add: create_single_def UTXOTxParameters_single_def s)
  next
    case False
    then have ge: "amount \<le> used" "sel \<noteq> []"
      by auto
    have send: "send_total_loop amount sel 0 0 = amount"
      using send_total_loop_eq [of 0 amount sel 0] fit le ge spec(2) by (simp add: word_le_nat_alt)
    have change: "used - amount = of_nat (utxo_total sel - unat amount)"
      unfolding spec(2) [symmetric] unat_sub [OF ge(1), symmetric] by simp
    have pos: "(used - amount > 0) = (utxo_total sel \<noteq> unat amount)"
      unfolding spec(2) [symmetric] word_unat_eq_iff [symmetric] by (simp add: word_gt_0)
    have "create_single pool src amount dest tok =
        Some \<lparr>inputs = map input_of sel,
          outputs = \<lparr>encrypted_amount = amount, dest_address = dest, out_token_id = tok\<rparr> #
            (if used - amount > 0 then [\<lparr>encrypted_amount = used - amount, dest_address = src, out_token_id = tok\<rparr>] else [])\<rparr>"
      using False ge(2) by (simp add: create_single_def UTXOTxParameters_single_def s send Let_def)
    then have eq: "create_single pool src amount dest tok =
        Some \<lparr>inputs = map input_of sel,
          outputs = \<lparr>encrypted_amount = amount, dest_address = dest, out_token_id = tok\<rparr> #
            (if utxo_total sel = unat amount then []
             else [\<lparr>encrypted_amount = of_nat (utxo_total sel - unat amount), dest_address = src, out_token_id = tok\<rparr>])\<rparr>"
      unfolding pos unfolding change by (cases "utxo_total sel = unat amount") simp_all
    show ?thesis
      unfolding eq option.case
      using ge spec(1,4) unfolding word_le_nat_alt spec(2) by (intro exI [of _ sel]) simp
  qed
qed

text \<open>Locking the inputs of a transaction locks every output of the transactions they come from.\<close>

lemma lock_spent_fold:
  "fold lock_spent is pool = map (\<lambda>u. if GetTxID u \<in> txid_hash ` set is then ToggleLock True u else u) pool"
proof (induction "is" arbitrary: pool)
  case (Cons i "is")
  show ?case
    unfolding fold_simps comp_apply Cons.IH by (auto simp: lock_spent_def ToggleLock_def)
qed (simp add: map_idI)

lemma UpdateUTXOList_eq:
  "UpdateUTXOList pool params = map (\<lambda>u. if GetTxID u \<in> txid_hash ` set (inputs params) then ToggleLock True u else u) pool"
  by (simp add: UpdateUTXOList_def lock_spent_fold)

lemma outpoint_ToggleLock [simp]: "outpoint (ToggleLock l u) = outpoint u"
  by (simp add: outpoint_def ToggleLock_def)

lemma UpdateUTXOList_outpoints [simp]: "map outpoint (UpdateUTXOList pool params) = map outpoint pool"
  by (simp add: UpdateUTXOList_eq)

lemma UpdateUTXOList_amounts [simp]: "utxo_total (UpdateUTXOList pool params) = utxo_total pool"
  by (simp add: UpdateUTXOList_eq utxo_total_def comp_def ToggleLock_def if_distrib cong: if_cong)

lemma unat_lt2p_u64: "unat (w :: u64) < 2 ^ 64"
  using unsigned_less [of w] by simp

section \<open>Properties\<close>

text \<open>
  C10. Building a payment conserves value. When the amounts of the pool do not add up beyond 64 bits,
  \<^verbatim>\<open>create\<close> fails exactly for the amount 0 and when the unlocked outputs of the token do not cover
  the amount. Otherwise it spends the first unlocked outputs of the token up to the one that covers
  the amount, pays exactly the amount to the destination and the rest, if any, back to the sender:
  inputs and outputs have the same sum.
\<close>

theorem create_single_conserves:
  assumes "utxo_total pool < 2 ^ 64"
  shows "case create_single pool src amount dest tok of
      None \<Rightarrow> amount = 0 \<or> utxo_total (filter (spendable tok) pool) < unat amount
    | Some params \<Rightarrow> \<exists>sel. prefix sel (filter (spendable tok) pool) \<and> inputs params = map input_of sel \<and>
        utxo_total (butlast sel) < unat amount \<and> utxo_total sel = out_total (outputs params) \<and>
        (\<exists>rest. outputs params = \<lparr>encrypted_amount = amount, dest_address = dest, out_token_id = tok\<rparr> # rest \<and>
           length rest \<le> 1 \<and> list_all (\<lambda>d. dest_address d = src \<and> encrypted_amount d > 0) rest)"
proof (cases "create_single pool src amount dest tok")
  case None
  then show ?thesis
    using create_single_cases [OF assms, where src = src and amount = amount and dest = dest and tok = tok] by simp
next
  case (Some params)
  then obtain sel where sel: "prefix sel (filter (spendable tok) pool)" "inputs params = map input_of sel"
      "unat amount \<le> utxo_total sel" "utxo_total (butlast sel) < unat amount"
      "outputs params = \<lparr>encrypted_amount = amount, dest_address = dest, out_token_id = tok\<rparr> #
          (if utxo_total sel = unat amount then []
           else [\<lparr>encrypted_amount = of_nat (utxo_total sel - unat amount), dest_address = src, out_token_id = tok\<rparr>])"
    using create_single_cases [OF assms, where src = src and amount = amount and dest = dest and tok = tok] by auto
  have "utxo_total sel \<le> utxo_total pool"
    using sel(1) total_filter_le [of "spendable tok" pool] by (auto simp: prefix_def)
  then have u: "unat (of_nat (utxo_total sel - unat amount) :: u64) = utxo_total sel - unat amount"
    using assms by (intro unat_of_nat_eq) simp
  then have "0 < (of_nat (utxo_total sel - unat amount) :: u64)" if "utxo_total sel \<noteq> unat amount"
    using that sel(3) by (simp add: word_less_nat_alt u)
  then have "\<exists>rest. outputs params = \<lparr>encrypted_amount = amount, dest_address = dest, out_token_id = tok\<rparr> # rest \<and>
           length rest \<le> 1 \<and> list_all (\<lambda>d. dest_address d = src \<and> encrypted_amount d > 0) rest"
    unfolding sel(5) by simp
  moreover have "utxo_total sel = out_total (outputs params)"
    unfolding sel(5) using sel(3) u by simp
  ultimately show ?thesis
    unfolding Some option.case using sel(1,2,4) by blast
qed

theorem create_single_conserves_witness:
  "\<exists>params. create_single [new_utxo [1] 0 30 TokenID_default, new_utxo [2] 0 5 TokenID_default] ''a'' 12 ''b'' TokenID_default = Some params \<and>
     out_total (outputs params) = 30"
proof -
  let ?pool = "[new_utxo [1] 0 30 TokenID_default, new_utxo [2] 0 5 TokenID_default]"
  have "create_single ?pool ''a'' 12 ''b'' TokenID_default = Some \<lparr>inputs = [input_of (new_utxo [1] 0 30 TokenID_default)],
      outputs = [\<lparr>encrypted_amount = 12, dest_address = ''b'', out_token_id = TokenID_default\<rparr>,
                 \<lparr>encrypted_amount = 18, dest_address = ''a'', out_token_id = TokenID_default\<rparr>]\<rparr>"
    by (simp add: create_single_def UTXOTxParameters_single_def new_utxo_def Equals_def Let_def)
  moreover have "utxo_total ?pool < 2 ^ 64"
    by (simp add: new_utxo_def)
  ultimately show ?thesis
    using create_single_conserves [of ?pool, where src = "''a''" and amount = 12 and dest = "''b''" and tok = TokenID_default] by simp
qed

text \<open>
  Payments to several destinations add the amounts in 64 bits without a check: two destinations
  whose amounts wrap to the value of one small output are accepted, and the outputs are worth
  more than the inputs by \<open>2 ^ 64\<close>.
\<close>

lemma create_multi_wraps:
  assumes "unat a + unat b = 2 ^ 64 + unat c" "c > 0"
  shows "\<exists>params. create_multi [new_utxo txid 0 c tok] src
       [\<lparr>encrypted_amount = a, dest_address = d1, out_token_id = tok\<rparr>,
        \<lparr>encrypted_amount = b, dest_address = d2, out_token_id = tok\<rparr>] tok = Some params \<and>
     inputs params = [input_of (new_utxo txid 0 c tok)] \<and> out_total (outputs params) = 2 ^ 64 + unat c"
proof -
  have "unat (a + b) = (2 ^ 64 + unat c) mod 2 ^ 64"
    unfolding assms(1) [symmetric] by (simp add: unat_word_ariths)
  also have "\<dots> = unat c"
    using unat_lt2p_u64 [of c] by (metis mod_add_self1 mod_less)
  finally have "a + b = c"
    by (simp add: word_unat_eq_iff)
  then show ?thesis
    using assms by (auto simp: create_multi_def UTXOTxParameters_multi_def new_utxo_def Equals_def Let_def)
qed

end
