(* ===== verification/Transactions.thy ===== *)
theory Transactions
  imports Utxo Scaled_Integer
begin

text \<open>
  The transactions of \<^verbatim>\<open>src/account\<close>: their fields, the protobuf messages of
  \<^verbatim>\<open>proto/SGTransaction.proto\<close> they are written to and read from, hashing and signing, and the
  paths under which they are kept in the database. Writing and reading the bytes of a protobuf
  message, the hash Blake2b and the signature scheme are libraries and arguments here.
\<close>

section \<open>Hexadecimal hashes\<close>

definition hex_char :: "nat \<Rightarrow> char" where
  "hex_char d = (if d < 10 then char_of (48 + d) else char_of (87 + d))"

definition toReadableString :: "bytes \<Rightarrow> string" where
  "toReadableString bs = concat (map (\<lambda>b. [hex_char (unat b div 16), hex_char (unat b mod 16)]) bs)"

datatype tx_error =
    INCORRECT_LENGTH
  | STOUL_INVALID
  | OUT_OF_BOUNDS
  | TX_PARSE_FAILED
  | TX_INVALID_ARGUMENT
  | NULL_TRANSACTION
  | TX_FAILURE
  | TX_NOT_FOUND
  | TX_DATABASE
  | TX_ARITHMETIC errc

text \<open>
  \<^verbatim>\<open>std::stoul\<close> in base 16: white space, a sign and the prefix \<open>0x\<close> before a digit are skipped,
  the digits up to the first other character are read, and no digit at all is an exception.
\<close>

definition hex_value :: "char \<Rightarrow> nat option" where
  "hex_value c =
     (let n = of_char c in
      if 48 \<le> n \<and> n \<le> 57 then Some (n - 48)
      else if 97 \<le> n \<and> n \<le> 102 then Some (n - 87)
      else if 65 \<le> n \<and> n \<le> 70 then Some (n - 55)
      else None)"

definition is_space :: "char \<Rightarrow> bool" where
  "is_space c = (of_char c \<in> {9, 10, 11, 12, 13, 32 :: nat})"

definition hex_digits_value :: "string \<Rightarrow> nat" where
  "hex_digits_value ds = foldl (\<lambda>v c. 16 * v + the (hex_value c)) 0 ds"

definition strip_0x :: "string \<Rightarrow> string" where
  "strip_0x s =
     (if length s > 2 \<and> take 2 s \<in> {''0x'', ''0X''} \<and> hex_value (s ! 2) \<noteq> None then drop 2 s else s)"

definition stoul16 :: "string \<Rightarrow> tx_error + u64" where
  "stoul16 s =
     (let s = dropWhile is_space s;
          neg = (s \<noteq> [] \<and> s ! 0 = CHR ''-'');
          s = (if s \<noteq> [] \<and> (s ! 0 = CHR ''-'' \<or> s ! 0 = CHR ''+'') then drop 1 s else s);
          ds = takeWhile (\<lambda>c. hex_value c \<noteq> None) (strip_0x s)
      in if ds = [] then Inl STOUL_INVALID
         else Inr (if neg then - of_nat (hex_digits_value ds) else of_nat (hex_digits_value ds)))"

text \<open>The loop of \<^verbatim>\<open>fromReadableString\<close>; the array has \<open>size\<close> bytes, and index \<open>size\<close> is out of it.\<close>

fun read_hex_loop :: "nat \<Rightarrow> string \<Rightarrow> tx_error + bytes" where
  "read_hex_loop n [] = Inr []"
| "read_hex_loop n [c] =
     rbind (stoul16 [c]) (\<lambda>v. if n = 0 then Inl OUT_OF_BOUNDS else Inr [ucast v])"
| "read_hex_loop n (c # d # s) =
     rbind (stoul16 [c, d]) (\<lambda>v.
       if n = 0 then Inl OUT_OF_BOUNDS else rmap (\<lambda>bs. ucast v # bs) (read_hex_loop (n - 1) s))"

definition fromReadableString :: "nat \<Rightarrow> string \<Rightarrow> tx_error + bytes" where
  "fromReadableString sz data =
     (if length data div 2 \<noteq> sz then Inl INCORRECT_LENGTH else read_hex_loop sz data)"

section \<open>Transactions\<close>

record DAGStruct =
  dag_type :: string
  dag_previous_hash :: string
  dag_source_addr :: string
  dag_nonce :: u64
  dag_timestamp :: u64
  dag_uncle_hash :: string
  dag_data_hash :: string
  dag_signature :: string

datatype transaction =
    TransferTransaction (dag_st: DAGStruct) (input_tx: "InputUTXOInfo list") (tx_outputs: "OutputDestInfo list")
  | MintTransaction (dag_st: DAGStruct) (mint_amount: u64) (chain_id: string) (mint_token: TokenID)
  | EscrowTransaction (dag_st: DAGStruct) (utxo_params: UTXOTxParameters) (escrow_amount: u64) (dev_addr: string) (peers_cut: u64)
  | EscrowReleaseTransaction (dag_st: DAGStruct) (utxo_params: UTXOTxParameters) (release_amount: u64)
      (release_address: string) (escrow_source: string) (original_escrow_hash: string)
  | ProcessingTransaction (dag_st: DAGStruct) (job_id: string) (subtask_ids: "string list") (node_addresses: "string list")

fun tx_type :: "transaction \<Rightarrow> string" where
  "tx_type (TransferTransaction _ _ _) = ''transfer''"
| "tx_type (MintTransaction _ _ _ _) = ''mint''"
| "tx_type (EscrowTransaction _ _ _ _ _) = ''escrow-hold''"
| "tx_type (EscrowReleaseTransaction _ _ _ _ _ _) = ''escrow-release''"
| "tx_type (ProcessingTransaction _ _ _ _) = ''process''"

fun with_dag :: "(DAGStruct \<Rightarrow> DAGStruct) \<Rightarrow> transaction \<Rightarrow> transaction" where
  "with_dag f (TransferTransaction d i q) = TransferTransaction (f d) i q"
| "with_dag f (MintTransaction d a c t) = MintTransaction (f d) a c t"
| "with_dag f (EscrowTransaction d p a v c) = EscrowTransaction (f d) p a v c"
| "with_dag f (EscrowReleaseTransaction d p a r s q) = EscrowReleaseTransaction (f d) p a r s q"
| "with_dag f (ProcessingTransaction d j s n) = ProcessingTransaction (f d) j s n"

definition GetSrcAddress :: "transaction \<Rightarrow> string" where
  "GetSrcAddress tx = dag_source_addr (dag_st tx)"

definition SetDAGWithType :: "DAGStruct \<Rightarrow> string \<Rightarrow> DAGStruct" where
  "SetDAGWithType dag ty = dag\<lparr>dag_type := ty\<rparr>"

section \<open>Protobuf messages\<close>

record TransferUTXOInput =
  pb_tx_id_hash :: string
  pb_output_index :: u32
  pb_in_signature :: string

record TransferOutput =
  pb_encrypted_amount :: u64
  pb_dest_addr :: string
  pb_token_id :: bytes

record UTXOTxParams =
  pb_inputs :: "TransferUTXOInput list"
  pb_outputs :: "TransferOutput list"

datatype tx_message =
    TransferTx DAGStruct UTXOTxParams
  | MintTx DAGStruct string bytes u64
  | EscrowTx DAGStruct UTXOTxParams u64 string u64
  | EscrowReleaseTx DAGStruct UTXOTxParams u64 string string string
  | ProcessingTx DAGStruct u64 u64 string "string list" "string list"

fun message_dag :: "tx_message \<Rightarrow> DAGStruct" where
  "message_dag (TransferTx d _) = d"
| "message_dag (MintTx d _ _ _) = d"
| "message_dag (EscrowTx d _ _ _ _) = d"
| "message_dag (EscrowReleaseTx d _ _ _ _ _) = d"
| "message_dag (ProcessingTx d _ _ _ _ _) = d"

definition input_proto :: "InputUTXOInfo \<Rightarrow> TransferUTXOInput" where
  "input_proto i = \<lparr>pb_tx_id_hash = toReadableString (txid_hash i), pb_output_index = output_idx i,
     pb_in_signature = input_signature i\<rparr>"

definition token_bytes :: "TokenID \<Rightarrow> bytes" where
  "token_bytes t = take (tok_size t) (tok_data t)"

definition output_proto :: "OutputDestInfo \<Rightarrow> TransferOutput" where
  "output_proto q = \<lparr>pb_encrypted_amount = encrypted_amount q, pb_dest_addr = dest_address q,
     pb_token_id = token_bytes (out_token_id q)\<rparr>"

definition params_proto :: "InputUTXOInfo list \<Rightarrow> OutputDestInfo list \<Rightarrow> UTXOTxParams" where
  "params_proto ins outs = \<lparr>pb_inputs = map input_proto ins, pb_outputs = map output_proto outs\<rparr>"

definition transfer_struct :: "DAGStruct \<Rightarrow> InputUTXOInfo list \<Rightarrow> OutputDestInfo list \<Rightarrow> tx_message" where
  [simp]: "transfer_struct dag ins outs = TransferTx dag (params_proto ins outs)"

definition mint_struct :: "DAGStruct \<Rightarrow> u64 \<Rightarrow> string \<Rightarrow> TokenID \<Rightarrow> tx_message" where
  [simp]: "mint_struct dag amount chain tok = MintTx dag chain (token_bytes tok) amount"

definition escrow_struct :: "DAGStruct \<Rightarrow> UTXOTxParameters \<Rightarrow> u64 \<Rightarrow> string \<Rightarrow> u64 \<Rightarrow> tx_message" where
  [simp]: "escrow_struct dag p amount dev pcut = EscrowTx dag (params_proto (inputs p) (outputs p)) amount dev pcut"

definition escrow_release_struct :: "DAGStruct \<Rightarrow> UTXOTxParameters \<Rightarrow> u64 \<Rightarrow> string \<Rightarrow> string \<Rightarrow> string \<Rightarrow> tx_message" where
  [simp]: "escrow_release_struct dag p amount addr src orig =
     EscrowReleaseTx dag (params_proto (inputs p) (outputs p)) amount addr src orig"

definition processing_struct :: "DAGStruct \<Rightarrow> string \<Rightarrow> string list \<Rightarrow> string list \<Rightarrow> tx_message" where
  [simp]: "processing_struct dag jid sids nodes = ProcessingTx dag 0 0 jid sids nodes"

fun tx_struct :: "transaction \<Rightarrow> tx_message" where
  "tx_struct (TransferTransaction d ins outs) = transfer_struct d ins outs"
| "tx_struct (MintTransaction d a c t) = mint_struct d a c t"
| "tx_struct (EscrowTransaction d p a v c) = escrow_struct d p a v c"
| "tx_struct (EscrowReleaseTransaction d p a r s q) = escrow_release_struct d p a r s q"
| "tx_struct (ProcessingTransaction d j s n) = processing_struct d j s n"

definition SerializeByteVector :: "(tx_message \<Rightarrow> bytes) \<Rightarrow> transaction \<Rightarrow> bytes" where
  "SerializeByteVector pb_ser tx = pb_ser (tx_struct tx)"

text \<open>Reading the inputs stops at the first hash that is not one; the exception is the error.\<close>

fun read_inputs :: "TransferUTXOInput list \<Rightarrow> tx_error + InputUTXOInfo list" where
  "read_inputs [] = Inr []"
| "read_inputs (i # is) =
     rbind (fromReadableString 32 (pb_tx_id_hash i)) (\<lambda>h.
     rbind (read_inputs is) (\<lambda>ins.
       Inr (\<lparr>txid_hash = h, output_idx = pb_output_index i, input_signature = pb_in_signature i\<rparr> # ins)))"

definition read_output :: "TransferOutput \<Rightarrow> OutputDestInfo" where
  "read_output q = \<lparr>encrypted_amount = pb_encrypted_amount q, dest_address = pb_dest_addr q,
     out_token_id = FromBytes (pb_token_id q)\<rparr>"

definition read_params :: "UTXOTxParams \<Rightarrow> tx_error + UTXOTxParameters" where
  "read_params p = rbind (read_inputs (pb_inputs p)) (\<lambda>ins. Inr \<lparr>inputs = ins, outputs = map read_output (pb_outputs p)\<rparr>)"

definition empty_dag :: DAGStruct where
  "empty_dag = \<lparr>dag_type = '''', dag_previous_hash = '''', dag_source_addr = '''', dag_nonce = 0, dag_timestamp = 0,
     dag_uncle_hash = '''', dag_data_hash = '''', dag_signature = ''''\<rparr>"

text \<open>
  The constructor of a processing transaction also runs when one is read: it overwrites the
  data hash with the hash of the message as it came.
\<close>

definition new_processing :: "(tx_message \<Rightarrow> bytes) \<Rightarrow> (bytes \<Rightarrow> bytes) \<Rightarrow> string \<Rightarrow> string list \<Rightarrow> string list \<Rightarrow> DAGStruct \<Rightarrow> transaction" where
  "new_processing pb_ser blake2b jid sids nodes dag =
     (let tx = ProcessingTransaction (SetDAGWithType dag ''process'') jid sids nodes
      in with_dag (\<lambda>d. d\<lparr>dag_data_hash := toReadableString (blake2b (SerializeByteVector pb_ser tx))\<rparr>) tx)"

definition DeSerializeTransfer :: "(bytes \<Rightarrow> tx_message option) \<Rightarrow> bytes \<Rightarrow> tx_error + transaction" where
  "DeSerializeTransfer pb_parse data =
     (case pb_parse data of
        Some (TransferTx d p) \<Rightarrow>
          rbind (read_params p) (\<lambda>p. Inr (TransferTransaction (SetDAGWithType d ''transfer'') (inputs p) (outputs p)))
      | _ \<Rightarrow> Inr (TransferTransaction (SetDAGWithType empty_dag ''transfer'') [] []))"

definition DeSerializeMint :: "(bytes \<Rightarrow> tx_message option) \<Rightarrow> bytes \<Rightarrow> tx_error + transaction" where
  "DeSerializeMint pb_parse data =
     (case pb_parse data of
        Some (MintTx d c t a) \<Rightarrow> Inr (MintTransaction (SetDAGWithType d ''mint'') a c (FromBytes t))
      | _ \<Rightarrow> Inl NULL_TRANSACTION)"

definition DeSerializeEscrow :: "(bytes \<Rightarrow> tx_message option) \<Rightarrow> bytes \<Rightarrow> tx_error + transaction" where
  "DeSerializeEscrow pb_parse data =
     (case pb_parse data of
        Some (EscrowTx d p a v c) \<Rightarrow>
          rbind (read_params p) (\<lambda>p. Inr (EscrowTransaction (SetDAGWithType d ''escrow-hold'') p a v c))
      | _ \<Rightarrow> Inl NULL_TRANSACTION)"

definition DeSerializeEscrowRelease :: "(bytes \<Rightarrow> tx_message option) \<Rightarrow> bytes \<Rightarrow> tx_error + transaction" where
  "DeSerializeEscrowRelease pb_parse data =
     (case pb_parse data of
        Some (EscrowReleaseTx d p a r s q) \<Rightarrow>
          (case read_params p of
             Inr p \<Rightarrow> Inr (EscrowReleaseTransaction (SetDAGWithType d ''escrow-release'') p a r s q)
           | Inl e \<Rightarrow> if e = INCORRECT_LENGTH then Inl NULL_TRANSACTION else Inl e)
      | _ \<Rightarrow> Inl NULL_TRANSACTION)"

definition DeSerializeProcessing :: "(tx_message \<Rightarrow> bytes) \<Rightarrow> (bytes \<Rightarrow> bytes) \<Rightarrow> (bytes \<Rightarrow> tx_message option) \<Rightarrow> bytes \<Rightarrow> tx_error + transaction" where
  "DeSerializeProcessing pb_ser blake2b pb_parse data =
     (case pb_parse data of
        Some (ProcessingTx d _ _ j s n) \<Rightarrow> Inr (new_processing pb_ser blake2b j s n d)
      | _ \<Rightarrow> Inr (new_processing pb_ser blake2b '''' [] [] empty_dag))"

text \<open>
  What the libraries do: \<open>ser\<close> and \<open>parse ty\<close> write a message and read one of the type that
  belongs to the transaction type \<open>ty\<close>, \<open>dag\<close> reads the common first field.
\<close>

record libraries =
  pb_ser :: "tx_message \<Rightarrow> bytes"
  pb_parse :: "string \<Rightarrow> bytes \<Rightarrow> tx_message option"
  pb_dag :: "bytes \<Rightarrow> DAGStruct option"
  blake2b_256 :: "bytes \<Rightarrow> bytes"
  ecdsa_sign :: "DAGStruct \<Rightarrow> string"
  ecdsa_verify :: "DAGStruct \<Rightarrow> string \<Rightarrow> bool"

definition DeSerializeTransaction :: "libraries \<Rightarrow> bytes \<Rightarrow> tx_error + transaction" where
  "DeSerializeTransaction lib data =
     (case pb_dag lib data of
        None \<Rightarrow> Inl TX_FAILURE
      | Some dag \<Rightarrow>
          let ty = dag_type dag in
          if ty = ''transfer'' then DeSerializeTransfer (pb_parse lib ty) data
          else if ty = ''mint'' then DeSerializeMint (pb_parse lib ty) data
          else if ty = ''escrow-hold'' then DeSerializeEscrow (pb_parse lib ty) data
          else if ty = ''escrow-release'' then DeSerializeEscrowRelease (pb_parse lib ty) data
          else if ty = ''process'' then DeSerializeProcessing (pb_ser lib) (blake2b_256 lib) (pb_parse lib ty) data
          else Inl TX_INVALID_ARGUMENT)"

section \<open>Hash and signature\<close>

definition FillHash :: "libraries \<Rightarrow> transaction \<Rightarrow> transaction" where
  "FillHash lib tx =
     (let cleared = with_dag (\<lambda>d. d\<lparr>dag_signature := '''', dag_data_hash := ''''\<rparr>) tx;
          hash = blake2b_256 lib (SerializeByteVector (pb_ser lib) cleared)
      in with_dag (\<lambda>d. d\<lparr>dag_data_hash := toReadableString hash\<rparr>) tx)"

definition MakeSignature :: "libraries \<Rightarrow> transaction \<Rightarrow> transaction" where
  "MakeSignature lib tx = with_dag (\<lambda>d. d\<lparr>dag_signature := ecdsa_sign lib (d\<lparr>dag_signature := ''''\<rparr>)\<rparr>) tx"

definition CheckDAGStructSignature :: "libraries \<Rightarrow> DAGStruct \<Rightarrow> bool" where
  "CheckDAGStructSignature lib dag \<longleftrightarrow>
     length (dag_signature dag) = 64 \<and> ecdsa_verify lib (dag\<lparr>dag_signature := ''''\<rparr>) (dag_signature dag)"

definition finish_tx :: "libraries \<Rightarrow> transaction \<Rightarrow> transaction" where
  "finish_tx lib tx = MakeSignature lib (FillHash lib tx)"

definition TransferTransaction_New :: "libraries \<Rightarrow> OutputDestInfo list \<Rightarrow> InputUTXOInfo list \<Rightarrow> DAGStruct \<Rightarrow> transaction" where
  "TransferTransaction_New lib destinations ins dag =
     finish_tx lib (TransferTransaction (SetDAGWithType dag ''transfer'') ins destinations)"

definition MintTransaction_New :: "libraries \<Rightarrow> u64 \<Rightarrow> string \<Rightarrow> TokenID \<Rightarrow> DAGStruct \<Rightarrow> transaction" where
  "MintTransaction_New lib amount chain tok dag =
     finish_tx lib (MintTransaction (SetDAGWithType dag ''mint'') amount chain tok)"

definition EscrowTransaction_New :: "libraries \<Rightarrow> UTXOTxParameters \<Rightarrow> u64 \<Rightarrow> string \<Rightarrow> u64 \<Rightarrow> DAGStruct \<Rightarrow> transaction" where
  "EscrowTransaction_New lib params amount dev pcut dag =
     finish_tx lib (EscrowTransaction (SetDAGWithType dag ''escrow-hold'') params amount dev pcut)"

definition EscrowReleaseTransaction_New ::
  "libraries \<Rightarrow> UTXOTxParameters \<Rightarrow> u64 \<Rightarrow> string \<Rightarrow> string \<Rightarrow> string \<Rightarrow> DAGStruct \<Rightarrow> transaction" where
  "EscrowReleaseTransaction_New lib params amount addr src orig dag =
     finish_tx lib (EscrowReleaseTransaction (SetDAGWithType dag ''escrow-release'') params amount addr src orig)"

definition ProcessingTransaction_New :: "libraries \<Rightarrow> string \<Rightarrow> string list \<Rightarrow> string list \<Rightarrow> DAGStruct \<Rightarrow> transaction" where
  "ProcessingTransaction_New lib jid sids nodes dag =
     finish_tx lib (new_processing (pb_ser lib) (blake2b_256 lib) jid sids nodes dag)"

section \<open>Paths\<close>

definition GetBlockChainBase :: string where
  "GetBlockChainBase = ''/bc-963/''"

fun GetTransactionSpecificPath :: "transaction \<Rightarrow> string" where
  "GetTransactionSpecificPath (ProcessingTransaction d j s n) = ''process/'' @ j"
| "GetTransactionSpecificPath tx = tx_type tx"

definition GetTransactionFullPath :: "transaction \<Rightarrow> string" where
  "GetTransactionFullPath tx =
     GetSrcAddress tx @ ''/tx/'' @ GetTransactionSpecificPath tx @ ''/'' @ to_string (unat (dag_nonce (dag_st tx)))"

definition GetProofFullPath :: "transaction \<Rightarrow> string" where
  "GetProofFullPath tx =
     GetSrcAddress tx @ ''/proof/'' @ GetTransactionSpecificPath tx @ ''/'' @ to_string (unat (dag_nonce (dag_st tx)))"

definition GetTransactionPath :: "transaction \<Rightarrow> string" where
  "GetTransactionPath tx = GetBlockChainBase @ GetTransactionFullPath tx"

definition GetTransactionProofPath :: "transaction \<Rightarrow> string" where
  "GetTransactionProofPath tx = GetBlockChainBase @ GetProofFullPath tx"

text \<open>
  Matching a key against \<open>^/?/bc-963//[^/]*/tx/([^/]*)/([0-9]+)$\<close>, the pattern that results from
  appending \<open>/[^/]*/\<close> to the base, which already ends in a slash.
\<close>

fun split_slash :: "string \<Rightarrow> string list" where
  "split_slash [] = [[]]"
| "split_slash (c # s) =
     (if c = CHR ''/'' then [] # split_slash s
      else (case split_slash s of [] \<Rightarrow> [[c]] | w # ws \<Rightarrow> (c # w) # ws))"

definition key_fields :: "string \<Rightarrow> string \<Rightarrow> (string \<times> string) option" where
  "key_fields kind key =
     (let body = (if take 9 key = ''//bc-963/'' then Some (drop 9 key)
                  else if take 8 key = ''/bc-963/'' then Some (drop 8 key) else None)
      in case map_option split_slash body of
           Some [lead, address, k, ty, num] \<Rightarrow>
             if lead = [] \<and> k = kind \<and> num \<noteq> [] \<and> list_all is_digit num then Some (ty, num) else None
         | _ \<Rightarrow> None)"

fun find_sub :: "string \<Rightarrow> string \<Rightarrow> nat option" where
  "find_sub p [] = (if p = [] then Some 0 else None)"
| "find_sub p (c # s) = (if take (length p) (c # s) = p then Some 0 else map_option Suc (find_sub p s))"

definition GetExpectedProofKey :: "string \<Rightarrow> transaction option \<Rightarrow> tx_error + string" where
  "GetExpectedProofKey tx_key tx =
     (case tx of
        Some tx \<Rightarrow> Inr (GetTransactionProofPath tx)
      | None \<Rightarrow>
          (case key_fields ''tx'' tx_key of
             None \<Rightarrow> Inl TX_INVALID_ARGUMENT
           | Some (ty, num) \<Rightarrow>
               (case find_sub ''/tx/'' tx_key of
                  None \<Rightarrow> Inl TX_INVALID_ARGUMENT
                | Some pos \<Rightarrow> Inr (take pos tx_key @ ''/proof/'' @ ty @ num))))"

definition GetExpectedTxKey :: "string \<Rightarrow> tx_error + string" where
  "GetExpectedTxKey proof_key =
     (case key_fields ''proof'' proof_key of
        None \<Rightarrow> Inl TX_INVALID_ARGUMENT
      | Some (ty, num) \<Rightarrow>
          (case find_sub ''/proof/'' proof_key of
             None \<Rightarrow> Inl TX_INVALID_ARGUMENT
           | Some pos \<Rightarrow> Inr (take pos proof_key @ ''/tx/'' @ ty @ ''/'' @ num)))"

section \<open>Round trips\<close>

lemma hex_value_hex_char [simp]:
  assumes "d < 16"
  shows "hex_value (hex_char d) = Some d" "\<not> is_space (hex_char d)" "hex_char d \<noteq> CHR ''-''" "hex_char d \<noteq> CHR ''+''"
proof -
  have c: "of_char (hex_char d) = (if d < 10 then 48 + d else 87 + d)"
    using assms by (simp add: hex_char_def)
  show "hex_value (hex_char d) = Some d"
    using assms by (simp add: hex_value_def c)
  show "\<not> is_space (hex_char d)"
    using assms by (simp add: is_space_def c)
  show "hex_char d \<noteq> CHR ''-''" "hex_char d \<noteq> CHR ''+''"
    using c by (auto split: if_splits)
qed

lemma stoul16_byte: "stoul16 [hex_char (unat (b :: byte) div 16), hex_char (unat b mod 16)] = Inr (ucast b)"
proof -
  have "unat b < 256"
    using unsigned_less [of b] by simp
  then have d: "unat b div 16 < 16" "unat b mod 16 < 16"
    by auto
  have "16 * (unat b div 16) + unat b mod 16 = unat b"
    by simp
  then show ?thesis
    using d by (simp add: stoul16_def Let_def strip_0x_def hex_digits_value_def)
qed

lemma ucast_byte_u64 [simp]: "ucast (ucast (b :: byte) :: u64) = b"
  by (rule bit_word_eqI) (simp add: bit_unsigned_iff)

lemma read_hex_toReadable: "length bs \<le> n \<Longrightarrow> read_hex_loop n (toReadableString bs) = Inr bs"
proof (induction bs arbitrary: n)
  case (Cons b bs)
  have "toReadableString (b # bs) = hex_char (unat b div 16) # hex_char (unat b mod 16) # toReadableString bs"
    by (simp add: toReadableString_def)
  then show ?case
    using Cons by (simp add: stoul16_byte)
qed (simp add: toReadableString_def)

lemma length_toReadableString [simp]: "length (toReadableString bs) = 2 * length bs"
  by (induction bs) (simp_all add: toReadableString_def)

lemma fromReadableString_toReadableString [simp]: "fromReadableString (length bs) (toReadableString bs) = Inr bs"
  by (simp add: fromReadableString_def read_hex_toReadable)

definition token_wf :: "TokenID \<Rightarrow> bool" where
  "token_wf t \<longleftrightarrow> length (tok_data t) = 32 \<and> (tok_valid t \<or> tok_data t = replicate 32 0)"

lemma FromBytes_token_bytes [simp]: "token_wf t \<Longrightarrow> FromBytes (token_bytes t) = t"
  by (cases "tok_valid t")
     (auto simp: token_wf_def FromBytes_def token_bytes_def tok_size_def TokenID_default_def intro!: TokenID.equality)

lemma token_wf_FromBytes: "token_wf (FromBytes bs)"
  by (simp add: token_wf_def FromBytes_def TokenID_default_def)

definition input_wf :: "InputUTXOInfo \<Rightarrow> bool" where
  "input_wf i \<longleftrightarrow> length (txid_hash i) = 32"

lemma read_inputs_proto: "list_all input_wf ins \<Longrightarrow> read_inputs (map input_proto ins) = Inr ins"
proof (induction ins)
  case (Cons i ins)
  have "fromReadableString 32 (toReadableString (txid_hash i)) = Inr (txid_hash i)"
    using Cons.prems fromReadableString_toReadableString [of "txid_hash i"] by (simp add: input_wf_def)
  then show ?case
    using Cons by (simp add: input_proto_def)
qed simp

lemma read_output_proto: "token_wf (out_token_id q) \<Longrightarrow> read_output (output_proto q) = q"
  by (simp add: read_output_def output_proto_def)

definition params_wf :: "UTXOTxParameters \<Rightarrow> bool" where
  "params_wf p \<longleftrightarrow> list_all input_wf (inputs p) \<and> list_all (\<lambda>q. token_wf (out_token_id q)) (outputs p)"

lemma read_params_proto: "params_wf p \<Longrightarrow> read_params (params_proto (inputs p) (outputs p)) = Inr p"
  by (simp add: params_wf_def read_params_def params_proto_def read_inputs_proto map_idI list_all_iff read_output_proto)

fun tx_wf :: "transaction \<Rightarrow> bool" where
  "tx_wf (TransferTransaction d ins outs) \<longleftrightarrow> params_wf \<lparr>inputs = ins, outputs = outs\<rparr>"
| "tx_wf (MintTransaction d a c t) \<longleftrightarrow> token_wf t"
| "tx_wf (EscrowTransaction d p a v c) \<longleftrightarrow> params_wf p"
| "tx_wf (EscrowReleaseTransaction d p a r s q) \<longleftrightarrow> params_wf p"
| "tx_wf (ProcessingTransaction d j s n) \<longleftrightarrow> False"

section \<open>Keys\<close>

lemma to_string_no_slash: "CHR ''/'' \<notin> set (to_string n)"
  using to_string_props [of n] by (auto simp: list_all_iff is_digit_def)

lemma takeWhile_rev_suffix: "c \<notin> set s \<Longrightarrow> takeWhile (\<lambda>x. x \<noteq> c) (rev (p @ c # s)) = rev s"
  by (subst rev_append, simp, subst takeWhile_append2) auto

lemma nonce_suffix:
  assumes "p @ ''/'' @ to_string m = q @ ''/'' @ to_string n"
  shows "m = n"
proof -
  have "rev (to_string m) = rev (to_string n)"
    using assms takeWhile_rev_suffix [OF to_string_no_slash [of m], of p] takeWhile_rev_suffix [OF to_string_no_slash [of n], of q]
    by simp
  then show ?thesis
    using to_string_props by (metis rev_rev_ident)
qed

lemma GetTransactionPath_nonce:
  assumes "GetTransactionPath tx = GetTransactionPath tx'"
  shows "dag_nonce (dag_st tx) = dag_nonce (dag_st tx')"
proof -
  have "unat (dag_nonce (dag_st tx)) = unat (dag_nonce (dag_st tx'))"
    using assms by (intro nonce_suffix [of "GetSrcAddress tx @ ''/tx/'' @ GetTransactionSpecificPath tx" _
          "GetSrcAddress tx' @ ''/tx/'' @ GetTransactionSpecificPath tx'"])
      (simp add: GetTransactionPath_def GetTransactionFullPath_def)
  then show ?thesis
    by (simp add: word_unat_eq_iff)
qed

lemma split_slash_first: "split_slash s = w # ws \<Longrightarrow> s \<noteq> [] \<Longrightarrow> hd s \<noteq> CHR ''/'' \<Longrightarrow> w \<noteq> []"
  by (cases s) (auto split: list.splits)

section \<open>Properties\<close>

text \<open>
  C25. A transaction survives the database. For a transfer, mint, escrow or escrow release whose
  hashes have 32 bytes and whose token identifiers are canonical, reading the bytes it was
  written to yields the same transaction, given that the protobuf library reads back the message
  it wrote.
\<close>

theorem transaction_roundtrip:
  assumes "tx_wf tx" "dag_type (dag_st tx) = tx_type tx"
    and "pb_dag lib (pb_ser lib (tx_struct tx)) = Some (message_dag (tx_struct tx))"
    and "pb_parse lib (tx_type tx) (pb_ser lib (tx_struct tx)) = Some (tx_struct tx)"
  shows "DeSerializeTransaction lib (SerializeByteVector (pb_ser lib) tx) = Inr tx"
proof (cases tx)
  case (TransferTransaction d ins outs)
  then have "read_params (params_proto ins outs) = Inr \<lparr>inputs = ins, outputs = outs\<rparr>"
    using assms(1) read_params_proto [of "\<lparr>inputs = ins, outputs = outs\<rparr>"] by simp
  then show ?thesis
    using assms TransferTransaction
    by (simp add: DeSerializeTransaction_def SerializeByteVector_def DeSerializeTransfer_def SetDAGWithType_def)
next
  case (MintTransaction d a c t)
  then show ?thesis
    using assms by (simp add: DeSerializeTransaction_def SerializeByteVector_def DeSerializeMint_def SetDAGWithType_def)
next
  case (EscrowTransaction d p a v c)
  then show ?thesis
    using assms
    by (simp add: DeSerializeTransaction_def SerializeByteVector_def DeSerializeEscrow_def SetDAGWithType_def read_params_proto)
next
  case (EscrowReleaseTransaction d p a r s q)
  then show ?thesis
    using assms
    by (simp add: DeSerializeTransaction_def SerializeByteVector_def DeSerializeEscrowRelease_def SetDAGWithType_def read_params_proto)
qed (use assms in simp)

theorem transaction_roundtrip_witness:
  "\<exists>lib tx. tx = MintTransaction (empty_dag\<lparr>dag_type := ''mint''\<rparr>) 7 ''1'' (FromBytes [5]) \<and>
     DeSerializeTransaction lib (SerializeByteVector (pb_ser lib) tx) = Inr tx"
proof -
  let ?tx = "MintTransaction (empty_dag\<lparr>dag_type := ''mint''\<rparr>) 7 ''1'' (FromBytes [5])"
  let ?lib = "\<lparr>pb_ser = \<lambda>_. [], pb_parse = \<lambda>_ _. Some (tx_struct ?tx), pb_dag = \<lambda>_. Some (dag_st ?tx),
     blake2b_256 = \<lambda>_. replicate 32 0, ecdsa_sign = \<lambda>_. [], ecdsa_verify = \<lambda>_ _. True\<rparr>"
  have "DeSerializeTransaction ?lib (SerializeByteVector (pb_ser ?lib) ?tx) = Inr ?tx"
    using transaction_roundtrip [of ?tx ?lib] token_wf_FromBytes by simp
  then show ?thesis
    by blast
qed

text \<open>
  The keys of a transaction and its proof are never matched. The patterns of
  \<^verbatim>\<open>GetExpectedProofKey\<close> and \<^verbatim>\<open>GetExpectedTxKey\<close> ask for two slashes behind the base, so for every
  path that the manager itself builds (from an address that does not start with a slash) the
  companion key is not found when the transaction itself could not be read.
\<close>

lemma expected_keys_fail:
  assumes "GetSrcAddress tx \<noteq> []" "hd (GetSrcAddress tx) \<noteq> CHR ''/''"
  shows "GetExpectedProofKey (GetTransactionPath tx) None = Inl TX_INVALID_ARGUMENT \<and>
    GetExpectedTxKey (GetTransactionProofPath tx) = Inl TX_INVALID_ARGUMENT"
proof -
  have "key_fields kind (GetBlockChainBase @ GetSrcAddress tx @ r) = None" for kind r
    using split_slash_first [of "GetSrcAddress tx @ r"] assms
    by (auto simp: key_fields_def GetBlockChainBase_def Let_def split: list.splits)
  then show ?thesis
    by (simp add: GetExpectedProofKey_def GetExpectedTxKey_def GetTransactionPath_def GetTransactionProofPath_def
        GetTransactionFullPath_def GetProofFullPath_def)
qed

end
