(* ===== verification/Crdt_Set.thy ===== *)
theory Crdt_Set
  imports Transactions Std_Map "HOL-Library.Sublist" "HOL-Library.Multiset"
begin

text \<open>
  The replicated set behind the shared database (\<^verbatim>\<open>crdt/impl/crdt_set.cpp\<close>), its hierarchical keys and the wrapper of
  RocksDB it stores them in (\<^verbatim>\<open>storage/rocksdb/rocksdb.cpp\<close>).

  RocksDB is third-party code: the functions of its interface that the wrapper calls are the fields of the record
  \<open>rocks\<close>, each with the status it reports, and \<open>rocks_ok\<close> states what its documentation promises of them (a write is read back, a batch is applied in
  order, an iterator delivers the entries in the order of the keys, and no call reports a fault of the disk). The numeric cast of Boost and the order of the type
  \<^verbatim>\<open>char\<close>, whose sign depends on the platform, are further fields.

  Operations return the state also when they fail, because some of their writes do not go through the batch.
\<close>

section \<open>Hierarchical keys\<close>

definition HierarchicalKey :: "string \<Rightarrow> string" where
  "HierarchicalKey key =
     (let key = (if key = [] \<or> hd key \<noteq> CHR ''/'' then CHR ''/'' # key else key)
      in if 1 < length key \<and> last key = CHR ''/'' then butlast key else key)"

definition ChildString :: "string \<Rightarrow> string \<Rightarrow> string" where
  "ChildString key s =
     HierarchicalKey (key @ (if s \<noteq> [] \<and> hd s \<noteq> CHR ''/'' then CHR ''/'' # s else s))"

definition GetList :: "string \<Rightarrow> string list" where
  "GetList key = (if key \<noteq> [] then tl (split_slash key) else [])"

definition IsTopLevel :: "string \<Rightarrow> bool" where
  "IsTopLevel key \<longleftrightarrow> length (GetList key) = 1"

section \<open>The database\<close>

datatype status = StatusOK | IsNotFound | IsIOError | IsInvalidArgument | IsCorruption | IsNotSupported | OtherStatus

record 'db rocks =
  db_Get :: "'db \<Rightarrow> string \<Rightarrow> string option"
  get_status :: "'db \<Rightarrow> string \<Rightarrow> status"
  db_Put :: "string \<Rightarrow> string \<Rightarrow> 'db \<Rightarrow> 'db"
  put_status :: "string \<Rightarrow> string \<Rightarrow> 'db \<Rightarrow> status"
  db_Write :: "(string \<times> string) list \<Rightarrow> 'db \<Rightarrow> 'db"
  write_status :: "(string \<times> string) list \<Rightarrow> 'db \<Rightarrow> status"
  db_Scan :: "'db \<Rightarrow> (string \<times> string) list"
  lexical_cast :: "string \<Rightarrow> u64 option"
  char_less :: "char \<Rightarrow> char \<Rightarrow> bool"

datatype crdt_error =
    EMPTY_ERROR
  | BAD_ACCESS
  | DatabaseOK
  | NOT_FOUND
  | CORRUPTION
  | NOT_SUPPORTED
  | INVALID_ARGUMENT
  | IO_ERROR
  | UNKNOWN

fun error_as_result :: "status \<Rightarrow> crdt_error" where
  "error_as_result StatusOK = DatabaseOK"
| "error_as_result IsNotFound = NOT_FOUND"
| "error_as_result IsIOError = IO_ERROR"
| "error_as_result IsInvalidArgument = INVALID_ARGUMENT"
| "error_as_result IsCorruption = CORRUPTION"
| "error_as_result IsNotSupported = NOT_SUPPORTED"
| "error_as_result OtherStatus = UNKNOWN"

text \<open>The string that \<^verbatim>\<open>Get\<close> fills in stays empty when the database writes nothing to it.\<close>

definition rocksdb_get :: "'db rocks \<Rightarrow> 'db \<Rightarrow> string \<Rightarrow> crdt_error + string" where
  "rocksdb_get R db key =
     (if get_status R db key = StatusOK then Inr (case db_Get R db key of Some val \<Rightarrow> val | None \<Rightarrow> [])
      else Inl (error_as_result (get_status R db key)))"

definition rocksdb_contains :: "'db rocks \<Rightarrow> 'db \<Rightarrow> string \<Rightarrow> bool" where
  "rocksdb_contains R db key = (case rocksdb_get R db key of Inr _ \<Rightarrow> True | Inl _ \<Rightarrow> False)"

definition rocksdb_query :: "'db rocks \<Rightarrow> 'db \<Rightarrow> string \<Rightarrow> (string \<times> string) list" where
  "rocksdb_query R db keyPrefix =
     takeWhile (\<lambda>e. prefix keyPrefix (fst e)) (dropWhile (\<lambda>e. fst e < keyPrefix) (db_Scan R db))"

text \<open>\<^verbatim>\<open>std::string::find\<close> from a position: whether an occurrence is found.\<close>

definition found_from :: "string \<Rightarrow> string \<Rightarrow> nat \<Rightarrow> bool" where
  "found_from s w pos \<longleftrightarrow> pos \<le> length s \<and> sublist w (drop pos s)"

definition rocksdb_query_middle :: "'db rocks \<Rightarrow> 'db \<Rightarrow> string \<Rightarrow> string \<Rightarrow> string \<Rightarrow> (string \<times> string) list" where
  "rocksdb_query_middle R db prefix_base middle_part remainder_prefix =
     (let negated_query = (middle_part \<noteq> [] \<and> hd middle_part = CHR ''!'');
          simplified_query = (middle_part \<noteq> ''*'' \<and> \<not> negated_query);
          strKeyPrefix = (if simplified_query then prefix_base @ middle_part @ remainder_prefix else prefix_base)
      in filter (\<lambda>e. simplified_query \<or>
             found_from (fst e) remainder_prefix (length strKeyPrefix) \<and>
             (negated_query \<longrightarrow> \<not> found_from (fst e) (tl middle_part) (length strKeyPrefix)))
           (rocksdb_query R db strKeyPrefix))"

definition rocksdb_put :: "'db rocks \<Rightarrow> string \<Rightarrow> string \<Rightarrow> 'db \<Rightarrow> 'db \<times> (crdt_error + unit)" where
  "rocksdb_put R key val db =
     (db_Put R key val db,
      if put_status R key val db = StatusOK then Inr () else Inl (error_as_result (put_status R key val db)))"

definition batch_put :: "(string \<times> string) list \<Rightarrow> string \<Rightarrow> string \<Rightarrow> (string \<times> string) list" where
  "batch_put batch key val = batch @ [(key, val)]"

definition batch_commit :: "'db rocks \<Rightarrow> (string \<times> string) list \<Rightarrow> 'db \<Rightarrow> 'db \<times> (crdt_error + unit)" where
  "batch_commit R batch db =
     (db_Write R batch db,
      if write_status R batch db = StatusOK then Inr () else Inl (error_as_result (write_status R batch db)))"

section \<open>The set\<close>

record element =
  el_key :: string
  el_id :: string
  el_value :: string

record delta =
  elements :: "element list"
  tombstones :: "element list"
  priority :: u64

datatype query_suffix = QUERY_ALL | QUERY_VALUESUFFIX | QUERY_PRIORITYSUFFIX

datatype hook_call = PutHook string string | DeleteHook string

record 'db crdt_set =
  dataStore :: "'db option"
  namespaceKey :: string
  putHookFunc :: bool
  deleteHookFunc :: bool
  hook_calls :: "hook_call list"

definition CrdtSet :: "'db option \<Rightarrow> string \<Rightarrow> bool \<Rightarrow> bool \<Rightarrow> 'db crdt_set" where
  "CrdtSet aDatastore aNamespace aPutHook aDeleteHook =
     \<lparr>dataStore = aDatastore, namespaceKey = aNamespace, putHookFunc = aPutHook, deleteHookFunc = aDeleteHook,
      hook_calls = []\<rparr>"

definition SetPutHook :: "bool \<Rightarrow> 'db crdt_set \<Rightarrow> 'db crdt_set" where
  "SetPutHook hook S = S\<lparr>putHookFunc := hook\<rparr>"

definition SetDeleteHook :: "bool \<Rightarrow> 'db crdt_set \<Rightarrow> 'db crdt_set" where
  "SetDeleteHook hook S = S\<lparr>deleteHookFunc := hook\<rparr>"

definition KeyPrefix :: "'db crdt_set \<Rightarrow> string \<Rightarrow> string" where
  "KeyPrefix S aKey = ChildString (namespaceKey S) aKey"

definition ElemsPrefix :: "'db crdt_set \<Rightarrow> string \<Rightarrow> string" where
  "ElemsPrefix S aKey = ChildString (KeyPrefix S ''s'') aKey"

definition TombsPrefix :: "'db crdt_set \<Rightarrow> string \<Rightarrow> string" where
  "TombsPrefix S aKey = ChildString (KeyPrefix S ''t'') aKey"

definition KeysKey :: "'db crdt_set \<Rightarrow> string \<Rightarrow> string" where
  "KeysKey S aKey = ChildString (KeyPrefix S ''k'') aKey"

definition ValueKey :: "'db crdt_set \<Rightarrow> string \<Rightarrow> string" where
  "ValueKey S aKey = ChildString (KeysKey S aKey) ''v''"

definition PriorityKey :: "'db crdt_set \<Rightarrow> string \<Rightarrow> string" where
  "PriorityKey S aKey = ChildString (KeysKey S aKey) ''p''"

definition GetValueFromDatastore :: "'db rocks \<Rightarrow> 'db crdt_set \<Rightarrow> string \<Rightarrow> crdt_error + string" where
  "GetValueFromDatastore R S aKey =
     (case dataStore S of None \<Rightarrow> Inl EMPTY_ERROR | Some db \<Rightarrow> rocksdb_get R db aKey)"

definition CreateDeltaToAdd :: "string \<Rightarrow> string \<Rightarrow> delta" where
  "CreateDeltaToAdd aKey aValue =
     \<lparr>elements = [\<lparr>el_key = aKey, el_id = [], el_value = aValue\<rparr>], tombstones = [], priority = 0\<rparr>"

definition InTombsKeyID :: "'db rocks \<Rightarrow> 'db crdt_set \<Rightarrow> string \<Rightarrow> string \<Rightarrow> crdt_error + bool" where
  "InTombsKeyID R S aKey aID =
     (case dataStore S of None \<Rightarrow> Inl EMPTY_ERROR
      | Some db \<Rightarrow> Inr (rocksdb_contains R db (ChildString (TombsPrefix S aKey) aID)))"

text \<open>
  The identifiers behind an elements prefix: what is left of the key of a stored entry, when it is one level deep.
\<close>

definition elem_ids :: "string \<Rightarrow> (string \<times> string) list \<Rightarrow> string list" where
  "elem_ids strElemsPrefix entries =
     filter IsTopLevel (map (\<lambda>e. HierarchicalKey (drop (length strElemsPrefix) (fst e))) entries)"

definition CreateDeltaToRemove :: "'db rocks \<Rightarrow> 'db crdt_set \<Rightarrow> string \<Rightarrow> crdt_error + delta" where
  "CreateDeltaToRemove R S aKey = (case dataStore S of
       None \<Rightarrow> Inl BAD_ACCESS
     | Some db \<Rightarrow>
         let strElemsPrefix = ElemsPrefix S aKey;
             ids = elem_ids strElemsPrefix (rocksdb_query R db strElemsPrefix)
         in Inr \<lparr>elements = [],
                 tombstones = map (\<lambda>i. \<lparr>el_key = aKey, el_id = i, el_value = []\<rparr>)
                   (filter (\<lambda>i. InTombsKeyID R S aKey i = Inr False) ids),
                 priority = 0\<rparr>)"

definition InElemsNotTombstoned :: "'db rocks \<Rightarrow> 'db crdt_set \<Rightarrow> string \<Rightarrow> crdt_error + bool" where
  "InElemsNotTombstoned R S aKey = (case dataStore S of
       None \<Rightarrow> Inl BAD_ACCESS
     | Some db \<Rightarrow>
         let strElemsPrefix = ElemsPrefix S aKey;
             queryResult = rocksdb_query R db strElemsPrefix
         in if queryResult = [] then Inr True
            else Inr (\<exists>i \<in> set (elem_ids strElemsPrefix queryResult). InTombsKeyID R S aKey i = Inr False))"

definition GetElement :: "'db rocks \<Rightarrow> 'db crdt_set \<Rightarrow> string \<Rightarrow> crdt_error + string" where
  "GetElement R S aKey =
     rbind (GetValueFromDatastore R S (ValueKey S aKey)) (\<lambda>val.
     rbind (InElemsNotTombstoned R S aKey) (\<lambda>inSet.
     if inSet then Inr val else Inl EMPTY_ERROR))"

definition query_filter :: "'db rocks \<Rightarrow> 'db crdt_set \<Rightarrow> query_suffix \<Rightarrow> (string \<times> string) list \<Rightarrow> (string \<times> string) list" where
  "query_filter R S aSuffix entries =
     filter (\<lambda>e. InElemsNotTombstoned R S (fst e) = Inr True \<and>
         (case aSuffix of
            QUERY_ALL \<Rightarrow> True
          | QUERY_PRIORITYSUFFIX \<Rightarrow> suffix ''/p'' (fst e)
          | QUERY_VALUESUFFIX \<Rightarrow> suffix ''/v'' (fst e))) entries"

definition QueryElements :: "'db rocks \<Rightarrow> 'db crdt_set \<Rightarrow> string \<Rightarrow> query_suffix \<Rightarrow> crdt_error + (string \<times> string) list" where
  "QueryElements R S aPrefix aSuffix = (case dataStore S of
       None \<Rightarrow> Inl EMPTY_ERROR
     | Some db \<Rightarrow> Inr (query_filter R S aSuffix (rocksdb_query R db (KeysKey S aPrefix))))"

definition QueryElements_middle ::
    "'db rocks \<Rightarrow> 'db crdt_set \<Rightarrow> string \<Rightarrow> string \<Rightarrow> string \<Rightarrow> query_suffix \<Rightarrow> crdt_error + (string \<times> string) list" where
  "QueryElements_middle R S prefix_base middle_part remainder_prefix aSuffix = (case dataStore S of
       None \<Rightarrow> Inl EMPTY_ERROR
     | Some db \<Rightarrow> Inr (query_filter R S aSuffix
         (rocksdb_query_middle R db (KeysKey S prefix_base @ ''/'') middle_part remainder_prefix)))"

definition IsValueInSet :: "'db rocks \<Rightarrow> 'db crdt_set \<Rightarrow> string \<Rightarrow> crdt_error + bool" where
  "IsValueInSet R S aKey = (case dataStore S of
       None \<Rightarrow> Inl EMPTY_ERROR
     | Some db \<Rightarrow> if rocksdb_contains R db (ValueKey S aKey) then InElemsNotTombstoned R S aKey else Inr False)"

definition GetPriority :: "'db rocks \<Rightarrow> 'db crdt_set \<Rightarrow> string \<Rightarrow> crdt_error + u64" where
  "GetPriority R S aKey = (case GetValueFromDatastore R S (PriorityKey S aKey) of
       Inr val \<Rightarrow> (case lexical_cast R val of Some n \<Rightarrow> Inr (n - 1) | None \<Rightarrow> Inl EMPTY_ERROR)
     | Inl e \<Rightarrow> if e \<noteq> NOT_FOUND then Inl e else Inr 0)"

definition SetPriority :: "'db rocks \<Rightarrow> 'db crdt_set \<Rightarrow> string \<Rightarrow> u64 \<Rightarrow> 'db crdt_set \<times> (crdt_error + unit)" where
  "SetPriority R S aKey aPriority = (case dataStore S of
       None \<Rightarrow> (S, Inl EMPTY_ERROR)
     | Some db \<Rightarrow>
         (case rocksdb_put R (PriorityKey S aKey) (to_string (unat (aPriority + 1))) db of
            (db, putResult) \<Rightarrow> (S\<lparr>dataStore := Some db\<rparr>, putResult)))"

fun lexicographical_compare :: "(char \<Rightarrow> char \<Rightarrow> bool) \<Rightarrow> string \<Rightarrow> string \<Rightarrow> bool" where
  "lexicographical_compare lt xs [] = False"
| "lexicographical_compare lt [] (y # ys) = True"
| "lexicographical_compare lt (x # xs) (y # ys) =
     (if lt x y then True else if lt y x then False else lexicographical_compare lt xs ys)"

type_synonym 'db batch_result = "'db crdt_set \<times> (crdt_error + (string \<times> string) list)"

definition store_value ::
    "'db rocks \<Rightarrow> 'db crdt_set \<Rightarrow> (string \<times> string) list \<Rightarrow> string \<Rightarrow> string \<Rightarrow> u64 \<Rightarrow> 'db batch_result" where
  "store_value R S batch aKey aValue aPriority =
     (let batch = batch_put batch (ValueKey S aKey) aValue
      in case SetPriority R S aKey aPriority of
           (S, Inl e) \<Rightarrow> (S, Inl e)
         | (S, Inr _) \<Rightarrow>
             (if putHookFunc S then S\<lparr>hook_calls := hook_calls S @ [PutHook aKey aValue]\<rparr> else S, Inr batch))"

definition SetValue_batch ::
    "'db rocks \<Rightarrow> 'db crdt_set \<Rightarrow> (string \<times> string) list \<Rightarrow> string \<Rightarrow> string \<Rightarrow> string \<Rightarrow> u64 \<Rightarrow> 'db batch_result" where
  "SetValue_batch R S batch aKey aID aValue aPriority = (case InTombsKeyID R S aKey aID of
       Inl _ \<Rightarrow> (S, Inl EMPTY_ERROR)
     | Inr True \<Rightarrow> (S, Inr batch)
     | Inr False \<Rightarrow>
         (case GetPriority R S aKey of
            Inl e \<Rightarrow> (S, Inl e)
          | Inr prio \<Rightarrow>
              if aPriority < prio then (S, Inr batch)
              else if aPriority = prio then
                (case GetValueFromDatastore R S (ValueKey S aKey) of
                   Inl e \<Rightarrow> (S, Inl e)
                 | Inr val \<Rightarrow>
                     if \<not> lexicographical_compare (char_less R) val aValue then (S, Inr batch)
                     else store_value R S batch aKey aValue aPriority)
              else store_value R S batch aKey aValue aPriority))"

definition commit :: "'db rocks \<Rightarrow> 'db crdt_set \<Rightarrow> (string \<times> string) list \<Rightarrow> 'db crdt_set \<times> (crdt_error + unit)" where
  "commit R S batch = (case dataStore S of
       None \<Rightarrow> (S, Inl BAD_ACCESS)
     | Some db \<Rightarrow>
         (case batch_commit R batch db of (db, commitResult) \<Rightarrow> (S\<lparr>dataStore := Some db\<rparr>, commitResult)))"

definition SetValue :: "'db rocks \<Rightarrow> 'db crdt_set \<Rightarrow> string \<Rightarrow> string \<Rightarrow> string \<Rightarrow> u64 \<Rightarrow> 'db crdt_set \<times> (crdt_error + unit)" where
  "SetValue R S aKey aID aValue aPriority = (case dataStore S of
       None \<Rightarrow> (S, Inl EMPTY_ERROR)
     | Some _ \<Rightarrow>
         (case SetValue_batch R S [] aKey aID aValue aPriority of
            (S, Inl e) \<Rightarrow> (S, Inl e)
          | (S, Inr batch) \<Rightarrow> commit R S batch))"

fun put_elems_loop ::
    "'db rocks \<Rightarrow> 'db crdt_set \<Rightarrow> (string \<times> string) list \<Rightarrow> element list \<Rightarrow> string \<Rightarrow> u64 \<Rightarrow> 'db batch_result" where
  "put_elems_loop R S batch [] aID aPriority = (S, Inr batch)"
| "put_elems_loop R S batch (elem # elems) aID aPriority =
     (let batch = batch_put batch (ChildString (ElemsPrefix S (el_key elem)) aID) []
      in case SetValue_batch R S batch (el_key elem) aID (el_value elem) aPriority of
           (S, Inl e) \<Rightarrow> (S, Inl e)
         | (S, Inr batch) \<Rightarrow> put_elems_loop R S batch elems aID aPriority)"

definition PutElems :: "'db rocks \<Rightarrow> 'db crdt_set \<Rightarrow> element list \<Rightarrow> string \<Rightarrow> u64 \<Rightarrow> 'db crdt_set \<times> (crdt_error + unit)" where
  "PutElems R S aElems aID aPriority =
     (if aElems = [] then (S, Inr ())
      else case dataStore S of
        None \<Rightarrow> (S, Inl EMPTY_ERROR)
      | Some _ \<Rightarrow>
          (case put_elems_loop R S [] aElems aID aPriority of
             (S, Inl e) \<Rightarrow> (S, Inl e)
           | (S, Inr batch) \<Rightarrow> commit R S batch))"

definition tomb_id :: "string \<Rightarrow> element \<Rightarrow> string" where
  "tomb_id aID tomb = (if el_id tomb = [] then aID else el_id tomb)"

definition PutTombs :: "'db rocks \<Rightarrow> 'db crdt_set \<Rightarrow> element list \<Rightarrow> string \<Rightarrow> 'db crdt_set \<times> (crdt_error + unit)" where
  "PutTombs R S aTombs aID =
     (if aTombs = [] then (S, Inr ())
      else case dataStore S of
        None \<Rightarrow> (S, Inl EMPTY_ERROR)
      | Some _ \<Rightarrow>
          let batch = fold (\<lambda>tomb b. batch_put b (ChildString (TombsPrefix S (el_key tomb)) (tomb_id aID tomb)) []) aTombs []
          in case commit R S batch of
               (S, Inl e) \<Rightarrow> (S, Inl e)
             | (S, Inr _) \<Rightarrow>
                 (if deleteHookFunc S then S\<lparr>hook_calls := hook_calls S @ map (\<lambda>t. DeleteHook (el_key t)) aTombs\<rparr> else S,
                  Inr ()))"

definition Merge :: "'db rocks \<Rightarrow> 'db crdt_set \<Rightarrow> delta option \<Rightarrow> string \<Rightarrow> 'db crdt_set \<times> (crdt_error + unit)" where
  "Merge R S aDelta aID = (case aDelta of
       None \<Rightarrow> (S, Inl EMPTY_ERROR)
     | Some d \<Rightarrow>
         (case PutTombs R S (tombstones d) aID of
            (S, Inl e) \<Rightarrow> (S, Inl e)
          | (S, Inr _) \<Rightarrow> PutElems R S (elements d) aID (priority d)))"

definition DataStoreSync :: "'db rocks \<Rightarrow> 'db crdt_set \<Rightarrow> string list \<Rightarrow> 'db crdt_set \<times> (crdt_error + unit)" where
  "DataStoreSync R S aKeyList = (case dataStore S of
       None \<Rightarrow> (S, Inl EMPTY_ERROR)
     | Some _ \<Rightarrow>
         (case aKeyList of
            [aKey, aID, aValue, prioKey] \<Rightarrow>
              (case GetPriority R S prioKey of
                 Inl _ \<Rightarrow> (S, Inl BAD_ACCESS)
               | Inr aPriority \<Rightarrow> SetValue R S aKey aID aValue aPriority)
          | _ \<Rightarrow> (S, Inl EMPTY_ERROR)))"

section \<open>What the libraries promise\<close>

definition rocks_ok :: "'db rocks \<Rightarrow> bool" where
  "rocks_ok R \<longleftrightarrow>
     (\<forall>k v db. db_Get R (db_Put R k v db) = (db_Get R db)(k \<mapsto> v)) \<and>
     (\<forall>ws db. db_Get R (db_Write R ws db) = db_Get R db ++ map_of (rev ws)) \<and>
     (\<forall>k db. get_status R db k = (if db_Get R db k = None then IsNotFound else StatusOK)) \<and>
     (\<forall>k v db. put_status R k v db = StatusOK) \<and> (\<forall>ws db. write_status R ws db = StatusOK) \<and>
     (\<forall>db. sorted_wrt (<) (map fst (db_Scan R db)) \<and> map_of (db_Scan R db) = db_Get R db) \<and>
     (\<forall>n. lexical_cast R (to_string (unat n)) = Some n) \<and>
     (\<forall>a. \<not> char_less R a a) \<and> (\<forall>a b c. char_less R a b \<longrightarrow> char_less R b c \<longrightarrow> char_less R a c) \<and>
     (\<forall>a b. char_less R a b \<or> a = b \<or> char_less R b a)"

section \<open>Keys of the database\<close>

definition good_key :: "string \<Rightarrow> bool" where
  "good_key k \<longleftrightarrow> k \<noteq> [] \<and> hd k = CHR ''/'' \<and> last k \<noteq> CHR ''/''"

definition good_id :: "string \<Rightarrow> bool" where
  "good_id i \<longleftrightarrow> i \<noteq> [] \<and> CHR ''/'' \<notin> set i"

definition elem_key :: "string \<Rightarrow> string \<Rightarrow> string \<Rightarrow> string" where
  "elem_key ns k i = ns @ ''/s'' @ k @ ''/'' @ i"

definition tomb_key :: "string \<Rightarrow> string \<Rightarrow> string \<Rightarrow> string" where
  "tomb_key ns k i = ns @ ''/t'' @ k @ ''/'' @ i"

definition val_key :: "string \<Rightarrow> string \<Rightarrow> string" where
  "val_key ns k = ns @ ''/k'' @ k @ ''/v''"

definition prio_key :: "string \<Rightarrow> string \<Rightarrow> string" where
  "prio_key ns k = ns @ ''/k'' @ k @ ''/p''"

lemma HierarchicalKey_good: "good_key k \<Longrightarrow> HierarchicalKey k = k"
  by (auto simp: HierarchicalKey_def good_key_def Let_def)

lemma last_no_slash: "i \<noteq> [] \<Longrightarrow> CHR ''/'' \<notin> set i \<Longrightarrow> last i \<noteq> CHR ''/''"
  by (metis last_in_set)

lemma HierarchicalKey_no_slash: "CHR ''/'' \<notin> set i \<Longrightarrow> HierarchicalKey i = CHR ''/'' # i"
  by (cases i) (auto simp: HierarchicalKey_def Let_def last_no_slash)

lemma good_key_append: "good_key k \<Longrightarrow> good_key k' \<Longrightarrow> good_key (k @ k')"
  by (auto simp: good_key_def)

lemma good_key_id: "good_id i \<Longrightarrow> good_key (CHR ''/'' # i)"
  using last_no_slash [of i] by (auto simp: good_key_def good_id_def)

lemma ChildString_good: "good_key k \<Longrightarrow> good_key k' \<Longrightarrow> ChildString k k' = k @ k'"
  using good_key_append [of k k'] by (auto simp: ChildString_def HierarchicalKey_good good_key_def)

lemma ChildString_id: "good_key k \<Longrightarrow> good_id i \<Longrightarrow> ChildString k i = k @ CHR ''/'' # i"
  using good_key_append [OF _ good_key_id, of k i]
  by (cases i) (auto simp: ChildString_def HierarchicalKey_good good_id_def)

lemma ChildString_slash_id: "good_key k \<Longrightarrow> good_id i \<Longrightarrow> ChildString k (CHR ''/'' # i) = k @ CHR ''/'' # i"
  by (rule ChildString_good) (auto intro: good_key_id)

lemma good_key_ns: "good_key ns \<Longrightarrow> c \<noteq> CHR ''/'' \<Longrightarrow> good_key (ns @ [CHR ''/'', c])"
  by (auto simp: good_key_def)

lemma KeyPrefix_good: "good_key (namespaceKey S) \<Longrightarrow> c \<noteq> CHR ''/'' \<Longrightarrow> KeyPrefix S [c] = namespaceKey S @ [CHR ''/'', c]"
  by (simp add: KeyPrefix_def ChildString_id good_id_def)

lemma good_val_key: "good_key ns \<Longrightarrow> good_key k \<Longrightarrow> good_key (ns @ CHR ''/'' # c # k)"
  by (auto simp: good_key_def)

lemma keys_eq:
  assumes "good_key (namespaceKey S)" and "good_key k"
  shows "ElemsPrefix S k = namespaceKey S @ ''/s'' @ k" "TombsPrefix S k = namespaceKey S @ ''/t'' @ k"
    "ValueKey S k = val_key (namespaceKey S) k" "PriorityKey S k = prio_key (namespaceKey S) k"
  using assms good_val_key [OF assms]
  by (simp_all add: ElemsPrefix_def TombsPrefix_def ValueKey_def PriorityKey_def KeysKey_def KeyPrefix_good
      ChildString_good ChildString_id good_key_ns good_id_def val_key_def prio_key_def)

lemma id_keys_eq:
  assumes "good_key (namespaceKey S)" and "good_key k" and "good_id i"
  shows "ChildString (ElemsPrefix S k) i = elem_key (namespaceKey S) k i"
    "ChildString (TombsPrefix S k) i = tomb_key (namespaceKey S) k i"
    "ChildString (TombsPrefix S k) (CHR ''/'' # i) = tomb_key (namespaceKey S) k i"
  using assms good_val_key [OF assms(1,2)]
  by (simp_all add: keys_eq ChildString_id ChildString_slash_id elem_key_def tomb_key_def)

lemma split_last_slash:
  "CHR ''/'' \<notin> set i \<Longrightarrow> CHR ''/'' \<notin> set i' \<Longrightarrow> k @ CHR ''/'' # i = k' @ CHR ''/'' # i' \<longleftrightarrow> k = k' \<and> i = i'"
proof -
  assume i: "CHR ''/'' \<notin> set i" "CHR ''/'' \<notin> set i'"
  have tail: "rev (takeWhile (\<lambda>c. c \<noteq> CHR ''/'') (rev (k @ CHR ''/'' # i))) = i"
    if "CHR ''/'' \<notin> set i" for k i :: string
  proof -
    have "takeWhile (\<lambda>c. c \<noteq> CHR ''/'') (rev i @ CHR ''/'' # rev k) = rev i"
      using that by (subst takeWhile_append2) auto
    then show ?thesis by simp
  qed
  show ?thesis using tail [OF i(1), of k] tail [OF i(2), of k'] by (metis append_same_eq)
qed

lemma keys_inj [simp]:
  "good_id i \<Longrightarrow> good_id i' \<Longrightarrow> elem_key ns k i = elem_key ns k' i' \<longleftrightarrow> k = k' \<and> i = i'"
  "good_id i \<Longrightarrow> good_id i' \<Longrightarrow> tomb_key ns k i = tomb_key ns k' i' \<longleftrightarrow> k = k' \<and> i = i'"
  "val_key ns k = val_key ns k' \<longleftrightarrow> k = k'"
  "prio_key ns k = prio_key ns k' \<longleftrightarrow> k = k'"
  by (auto simp: elem_key_def tomb_key_def val_key_def prio_key_def good_id_def split_last_slash)

lemma keys_differ [simp]:
  "elem_key ns k i \<noteq> tomb_key ns k' i'" "elem_key ns k i \<noteq> val_key ns k'" "elem_key ns k i \<noteq> prio_key ns k'"
  "tomb_key ns k i \<noteq> elem_key ns k' i'" "tomb_key ns k i \<noteq> val_key ns k'" "tomb_key ns k i \<noteq> prio_key ns k'"
  "val_key ns k \<noteq> elem_key ns k' i'" "val_key ns k \<noteq> tomb_key ns k' i'" "val_key ns k \<noteq> prio_key ns k'"
  "prio_key ns k \<noteq> elem_key ns k' i'" "prio_key ns k \<noteq> tomb_key ns k' i'" "prio_key ns k \<noteq> val_key ns k'"
  by (auto simp: elem_key_def tomb_key_def val_key_def prio_key_def dest: arg_cong [of _ _ last])

lemma length_split_slash: "length (split_slash s) = Suc (length (filter (\<lambda>c. c = CHR ''/'') s))"
  by (induction s) (auto split: list.splits)

lemma IsTopLevel_iff: "k \<noteq> [] \<Longrightarrow> IsTopLevel k \<longleftrightarrow> length (filter (\<lambda>c. c = CHR ''/'') k) = 1"
  by (simp add: IsTopLevel_def GetList_def length_split_slash)

text \<open>
  A key whose last component is the beginning of a block identifier is mistaken for it: \<open>clash\<close> says that looking for
  the blocks of \<open>k\<close> finds the block \<open>i\<close> of \<open>k'\<close>.
\<close>

definition clash :: "string \<Rightarrow> string \<Rightarrow> string \<Rightarrow> bool" where
  "clash k k' i \<longleftrightarrow> (\<exists>u. k = k' @ CHR ''/'' # u \<and> prefix u i)"

lemma top_level_rest:
  assumes "good_id i"
  shows "IsTopLevel (HierarchicalKey (w @ CHR ''/'' # i)) \<longleftrightarrow> w = []"
proof -
  have l: "last (w @ CHR ''/'' # i) \<noteq> CHR ''/''" "i \<noteq> []" using assms by (auto simp: good_id_def last_no_slash)
  have "length (filter (\<lambda>c. c = CHR ''/'') i) = 0" using assms by (auto simp: good_id_def filter_empty_conv)
  then show ?thesis using l by (cases w) (auto simp: HierarchicalKey_def IsTopLevel_iff Let_def)
qed

lemma prefix_elem_key:
  assumes "good_id i" and "good_key k" and "\<not> clash k k' i"
  shows "prefix (ns @ ''/s'' @ k) (elem_key ns k' i) \<longleftrightarrow> prefix k k'"
proof -
  have "prefix k (k' @ CHR ''/'' # i) \<Longrightarrow> prefix k k'"
  proof (rule ccontr)
    assume p: "prefix k (k' @ CHR ''/'' # i)" and n: "\<not> prefix k k'"
    then obtain u where u: "k = k' @ u" "prefix u (CHR ''/'' # i)" "u \<noteq> []" by (auto simp: prefix_append)
    then obtain u' where "u = CHR ''/'' # u'" "prefix u' i" by (cases u) auto
    then show False using u(1) assms(3) by (auto simp: clash_def)
  qed
  then show ?thesis by (auto simp: elem_key_def)
qed

lemma elem_id_of:
  assumes "good_id i" and "good_key k" and "\<not> clash k k' i" and "prefix (ns @ ''/s'' @ k) (elem_key ns k' i)"
  shows "IsTopLevel (HierarchicalKey (drop (length (ns @ ''/s'' @ k)) (elem_key ns k' i))) \<longleftrightarrow> k' = k"
    and "k' = k \<Longrightarrow> HierarchicalKey (drop (length (ns @ ''/s'' @ k)) (elem_key ns k' i)) = CHR ''/'' # i"
proof -
  obtain w where w: "k' = k @ w" using assms prefix_elem_key by (auto elim: prefixE)
  have d: "drop (length (ns @ ''/s'' @ k)) (elem_key ns k' i) = w @ CHR ''/'' # i"
    by (simp add: elem_key_def w)
  show "IsTopLevel (HierarchicalKey (drop (length (ns @ ''/s'' @ k)) (elem_key ns k' i))) \<longleftrightarrow> k' = k"
    unfolding d using top_level_rest [OF assms(1)] w by simp
  show "HierarchicalKey (drop (length (ns @ ''/s'' @ k)) (elem_key ns k' i)) = CHR ''/'' # i" if "k' = k"
    unfolding d using that w HierarchicalKey_good [OF good_key_id [OF assms(1)]] by simp
qed

section \<open>The contents of a set\<close>

text \<open>The three parts of a set in a map from keys to values: elements, tombstones and the current values.\<close>

type_synonym contents = "(string \<times> string) set \<times> (string \<times> string) set \<times> (string \<Rightarrow> (u64 \<times> string) option)"

definition elems_of :: "string \<Rightarrow> (string \<Rightarrow> string option) \<Rightarrow> (string \<times> string) set" where
  "elems_of ns M = {(k, i). good_key k \<and> good_id i \<and> M (elem_key ns k i) \<noteq> None}"

definition tombs_of :: "string \<Rightarrow> (string \<Rightarrow> string option) \<Rightarrow> (string \<times> string) set" where
  "tombs_of ns M = {(k, i). good_key k \<and> good_id i \<and> M (tomb_key ns k i) \<noteq> None}"

definition value_of :: "'db rocks \<Rightarrow> string \<Rightarrow> (string \<Rightarrow> string option) \<Rightarrow> string \<Rightarrow> (u64 \<times> string) option" where
  "value_of R ns M k =
     (if good_key k then
        (case (M (prio_key ns k), M (val_key ns k)) of
           (Some p, Some v) \<Rightarrow> map_option (\<lambda>n. (n - 1, v)) (lexical_cast R p)
         | _ \<Rightarrow> None)
      else None)"

definition contents_of :: "'db rocks \<Rightarrow> string \<Rightarrow> (string \<Rightarrow> string option) \<Rightarrow> contents" where
  "contents_of R ns M = (elems_of ns M, tombs_of ns M, value_of R ns M)"

text \<open>
  A well-formed database: priorities and values come together, priorities are printed numbers, a value has an element,
  and everything in the namespace of the elements is an element.
\<close>

definition map_ok :: "string \<Rightarrow> (string \<Rightarrow> string option) \<Rightarrow> bool" where
  "map_ok ns M \<longleftrightarrow> good_key ns \<and>
     (\<forall>k. good_key k \<longrightarrow> (M (prio_key ns k) = None \<longleftrightarrow> M (val_key ns k) = None)) \<and>
     (\<forall>k p. good_key k \<longrightarrow> M (prio_key ns k) = Some p \<longrightarrow> (\<exists>n :: u64. n \<noteq> 0 \<and> p = to_string (unat (n + 1)))) \<and>
     (\<forall>k. good_key k \<longrightarrow> M (val_key ns k) \<noteq> None \<longrightarrow> (\<exists>i. (k, i) \<in> elems_of ns M)) \<and>
     (\<forall>x. M x \<noteq> None \<longrightarrow> prefix (ns @ ''/s'') x \<longrightarrow> (\<exists>(k, i) \<in> elems_of ns M. x = elem_key ns k i))"

text \<open>What merging a delta does to the contents.\<close>

definition wins :: "'db rocks \<Rightarrow> u64 \<times> string \<Rightarrow> (u64 \<times> string) option \<Rightarrow> bool" where
  "wins R x old = (case old of None \<Rightarrow> True
     | Some y \<Rightarrow> fst y < fst x \<or> fst y = fst x \<and> lexicographical_compare (char_less R) (snd y) (snd x))"

definition put_contents :: "'db rocks \<Rightarrow> string \<Rightarrow> u64 \<Rightarrow> element \<Rightarrow> contents \<Rightarrow> contents" where
  "put_contents R i p e c = (case c of (E, T, V) \<Rightarrow>
     (insert (el_key e, i) E, T,
      if (el_key e, i) \<notin> T \<and> wins R (p, el_value e) (V (el_key e)) then V(el_key e \<mapsto> (p, el_value e)) else V))"

definition plain_id :: "string \<Rightarrow> string" where
  "plain_id i = (if hd i = CHR ''/'' then tl i else i)"

definition tomb_contents :: "string \<Rightarrow> element list \<Rightarrow> contents \<Rightarrow> contents" where
  "tomb_contents i ts c = (case c of (E, T, V) \<Rightarrow> (E, T \<union> (\<lambda>t. (el_key t, plain_id (tomb_id i t))) ` set ts, V))"

definition merge_contents :: "'db rocks \<Rightarrow> string \<times> delta \<Rightarrow> contents \<Rightarrow> contents" where
  "merge_contents R m c = (case m of (i, d) \<Rightarrow>
     fold (put_contents R i (priority d)) (elements d) (tomb_contents i (tombstones d) c))"

definition good_delta :: "string \<times> delta \<Rightarrow> bool" where
  "good_delta m = (case m of (i, d) \<Rightarrow> good_id i \<and> distinct (map el_key (elements d)) \<and>
     (\<forall>e \<in> set (elements d). good_key (el_key e)) \<and>
     (\<forall>t \<in> set (tombstones d). good_key (el_key t) \<and> good_id (plain_id (tomb_id i t))) \<and>
     (elements d \<noteq> [] \<longrightarrow> priority d \<noteq> 0))"

section \<open>Reading and writing\<close>

lemma rocks_get [simp]:
  assumes "rocks_ok R"
  shows "db_Get R (db_Put R k v db) = (db_Get R db)(k \<mapsto> v)" "db_Get R (db_Write R ws db) = db_Get R db ++ map_of (rev ws)"
    "lexical_cast R (to_string (unat n)) = Some n" "put_status R k v db = StatusOK" "write_status R ws db = StatusOK"
  using assms by (auto simp: rocks_ok_def)

lemma rocks_get_status:
  assumes "rocks_ok R"
  shows "get_status R db k = (if db_Get R db k = None then IsNotFound else StatusOK)"
proof -
  have "\<forall>k db. get_status R db k = (if db_Get R db k = None then IsNotFound else StatusOK)"
    using assms unfolding rocks_ok_def by (elim conjE) assumption
  then show ?thesis by blast
qed

lemma rocksdb_get_ok:
  "rocks_ok R \<Longrightarrow> rocksdb_get R db k = (case db_Get R db k of Some val \<Rightarrow> Inr val | None \<Rightarrow> Inl NOT_FOUND)"
  by (simp add: rocksdb_get_def rocks_get_status split: option.split)

lemma prefix_le: "prefix p k \<Longrightarrow> p \<le> (k :: string)"
proof (induction p arbitrary: k)
  case (Cons c p)
  then show ?case by (cases k) auto
qed simp

lemma between_prefix: "p \<le> k \<Longrightarrow> k \<le> k' \<Longrightarrow> prefix p k' \<Longrightarrow> prefix p (k :: string)"
proof (induction p arbitrary: k k')
  case (Cons c p)
  then show ?case by (cases k; cases k') auto
qed simp

lemma query_loop:
  fixes es :: "(string \<times> string) list"
  assumes "sorted_wrt (<) (map fst es)"
  shows "takeWhile (\<lambda>e. prefix p (fst e)) (dropWhile (\<lambda>e. fst e < p) es) = filter (\<lambda>e. prefix p (fst e)) es"
  using assms
proof (induction es)
  case (Cons e es)
  show ?case
  proof (cases "fst e < p")
    case True
    then have "\<not> prefix p (fst e)" using prefix_le by fastforce
    then show ?thesis using Cons True by simp
  next
    case False
    then have later: "p \<le> fst e" "\<And>e'. e' \<in> set es \<Longrightarrow> fst e < fst e'" using Cons.prems by auto
    then have "dropWhile (\<lambda>e. fst e < p) es = es" by (cases es) force+
    moreover have "\<not> prefix p (fst e) \<Longrightarrow> e' \<in> set es \<Longrightarrow> \<not> prefix p (fst e')" for e'
      using between_prefix [OF later(1)] later(2) less_imp_le by blast
    ultimately show ?thesis using Cons False by (auto simp: filter_empty_conv)
  qed
qed simp

text \<open>The database as the batch will leave it.\<close>

definition view :: "'db rocks \<Rightarrow> 'db crdt_set \<Rightarrow> (string \<times> string) list \<Rightarrow> string \<Rightarrow> string option" where
  "view R S batch = (case dataStore S of Some db \<Rightarrow> db_Get R db ++ map_of (rev batch) | None \<Rightarrow> Map.empty)"

lemma view_batch_put: "dataStore S \<noteq> None \<Longrightarrow> view R S (batch_put batch k v) = (view R S batch)(k \<mapsto> v)"
  by (auto simp: view_def batch_put_def)

lemma commit_ok:
  assumes "rocks_ok R" and "dataStore S \<noteq> None"
  obtains S' where "commit R S batch = (S', Inr ())" and "view R S' [] = view R S batch" and "namespaceKey S' = namespaceKey S"
    and "dataStore S' \<noteq> None"
proof -
  obtain db where "dataStore S = Some db" using assms(2) by auto
  then show thesis using assms(1) that [of "S\<lparr>dataStore := Some (db_Write R batch db)\<rparr>"]
    by (simp add: commit_def batch_commit_def view_def)
qed

definition stores :: "'db rocks \<Rightarrow> string \<Rightarrow> (string \<Rightarrow> string option) \<Rightarrow> string \<Rightarrow> element \<Rightarrow> u64 \<Rightarrow> bool" where
  "stores R ns M i e p \<longleftrightarrow> M (tomb_key ns (el_key e) i) = None \<and> wins R (p, el_value e) (value_of R ns M (el_key e))"

definition elem_step :: "'db rocks \<Rightarrow> string \<Rightarrow> string \<Rightarrow> u64 \<Rightarrow> element \<Rightarrow> (string \<Rightarrow> string option) \<Rightarrow> string \<Rightarrow> string option" where
  "elem_step R ns i p e M =
     (let M' = M(elem_key ns (el_key e) i \<mapsto> [])
      in if stores R ns M i e p
         then M'(val_key ns (el_key e) \<mapsto> el_value e, prio_key ns (el_key e) \<mapsto> to_string (unat (p + 1))) else M')"

lemma value_of_known:
  assumes "rocks_ok R" and "map_ok ns M" and "good_key k"
  shows "M (prio_key ns k) = None \<Longrightarrow> M (val_key ns k) = None \<and> value_of R ns M k = None"
    and "M (prio_key ns k) = Some p \<Longrightarrow> \<exists>n v. n \<noteq> 0 \<and> p = to_string (unat (n + 1)) \<and> M (val_key ns k) = Some v \<and>
       value_of R ns M k = Some (n, v)"
proof -
  show "M (prio_key ns k) = None \<Longrightarrow> M (val_key ns k) = None \<and> value_of R ns M k = None"
    using assms by (auto simp: map_ok_def value_of_def)
  assume p: "M (prio_key ns k) = Some p"
  then obtain n :: u64 where "n \<noteq> 0" "p = to_string (unat (n + 1))" using assms(2,3) unfolding map_ok_def by blast
  moreover obtain v where "M (val_key ns k) = Some v" using p assms by (auto simp: map_ok_def)
  ultimately show "\<exists>n v. n \<noteq> 0 \<and> p = to_string (unat (n + 1)) \<and> M (val_key ns k) = Some v \<and> value_of R ns M k = Some (n, v)"
    using p assms by (intro exI [of _ n] exI [of _ v]) (simp add: value_of_def)
qed

text \<open>
  One element of a delta, when neither its key nor its tombstone is in the batch yet: the reads see the database
  as the batch will leave it.
\<close>

lemma SetValue_batch_step:
  assumes R: "rocks_ok R" and ns: "namespaceKey S = ns" and M: "view R S batch = M" "map_ok ns M"
    and db: "dataStore S = Some db" and k: "good_key k" and i: "good_id i" and p: "p \<noteq> 0"
    and fresh: "\<And>j. tomb_key ns k j \<notin> fst ` set batch" "val_key ns k \<notin> fst ` set batch" "\<And>k'. prio_key ns k' \<notin> fst ` set batch"
  shows "\<exists>S' batch' db'. SetValue_batch R S batch k i v p = (S', Inr batch') \<and> namespaceKey S' = ns \<and> dataStore S' = Some db' \<and>
     view R S' batch' = (if M (tomb_key ns k i) = None \<and> wins R (p, v) (value_of R ns M k)
        then M(val_key ns k \<mapsto> v, prio_key ns k \<mapsto> to_string (unat (p + 1))) else M) \<and>
     set batch' \<subseteq> insert (val_key ns k, v) (set batch)"
proof -
  have gns: "good_key (namespaceKey S)" using M(2) ns by (simp add: map_ok_def)
  have get: "x \<notin> fst ` set batch \<Longrightarrow> db_Get R db x = M x" for x
    using M(1) db map_of_eq_None_iff [of "rev batch" x] by (auto simp: view_def map_add_def)
  have tomb: "InTombsKeyID R S k i = Inr (M (tomb_key ns k i) \<noteq> None)"
    using get [OF fresh(1)] gns k i ns db
    by (auto simp: InTombsKeyID_def rocksdb_contains_def rocksdb_get_ok [OF R] id_keys_eq split: option.splits)
  have prio: "GetPriority R S k = Inr (case value_of R ns M k of None \<Rightarrow> 0 | Some (n, v) \<Rightarrow> n)"
    using get [OF fresh(3)] gns k ns db value_of_known [OF R M(2) k] R
    by (cases "M (prio_key ns k)")
      (auto simp: GetPriority_def GetValueFromDatastore_def rocksdb_get_ok [OF R] keys_eq)
  have val: "value_of R ns M k = Some (n, w) \<Longrightarrow> GetValueFromDatastore R S (ValueKey S k) = Inr w" for n w
    using get [OF fresh(2)] gns k ns db value_of_known [OF R M(2) k]
    by (cases "M (prio_key ns k)") (auto simp: GetValueFromDatastore_def rocksdb_get_ok [OF R] keys_eq)
  have store: "\<exists>S' batch' db'. store_value R S batch k v p = (S', Inr batch') \<and> namespaceKey S' = ns \<and> dataStore S' = Some db' \<and>
     view R S' batch' = M(val_key ns k \<mapsto> v, prio_key ns k \<mapsto> to_string (unat (p + 1))) \<and>
     set batch' \<subseteq> insert (val_key ns k, v) (set batch)"
  proof -
    let ?db = "db_Put R (prio_key ns k) (to_string (unat (p + 1))) db"
    have "map_of (rev batch) (prio_key ns k) = None" using fresh(3) by (simp add: map_of_eq_None_iff)
    then have "(db_Get R ?db ++ map_of (rev batch)) = M(prio_key ns k \<mapsto> to_string (unat (p + 1)))"
      using M(1) db R by (simp add: view_def map_add_upd_left domIff)
    then show ?thesis using gns k ns db R
      by (auto simp: store_value_def SetPriority_def rocksdb_put_def keys_eq batch_put_def view_def Let_def fun_upd_twist)
  qed
  have n0: "value_of R ns M k = Some (n, w) \<Longrightarrow> n \<noteq> 0" for n w
    using value_of_known [OF R M(2) k] by (cases "M (prio_key ns k)") auto
  show ?thesis
  proof (cases "M (tomb_key ns k i) = None")
    case False
    then show ?thesis using tomb M(1) ns db by (auto simp: SetValue_batch_def)
  next
    case True
    show ?thesis
    proof (cases "value_of R ns M k")
      case None
      then show ?thesis using True tomb prio store p by (auto simp: SetValue_batch_def wins_def)
    next
      case (Some y)
      obtain n w where y: "y = (n, w)" by (cases y)
      then show ?thesis using Some True tomb prio val [of n w] store M(1) ns db
        by (auto simp: SetValue_batch_def wins_def not_less_iff_gr_or_eq)
    qed
  qed
qed

lemma contents_elem_step:
  assumes R: "rocks_ok R" and M: "map_ok ns M" and e: "good_key (el_key e)" and i: "good_id i" and p: "p \<noteq> 0"
  shows "map_ok ns (elem_step R ns i p e M)"
    and "contents_of R ns (elem_step R ns i p e M) = put_contents R i p e (contents_of R ns M)"
proof -
  let ?M = "elem_step R ns i p e M"
  have E: "elems_of ns ?M = insert (el_key e, i) (elems_of ns M)"
    using e i by (auto simp: elems_of_def elem_step_def Let_def)
  have T: "tombs_of ns ?M = tombs_of ns M"
    by (auto simp: tombs_of_def elem_step_def Let_def)
  have st: "stores R ns M i e p \<longleftrightarrow> (el_key e, i) \<notin> tombs_of ns M \<and> wins R (p, el_value e) (value_of R ns M (el_key e))"
    using e i by (auto simp: stores_def tombs_of_def)
  have V: "value_of R ns ?M = (if stores R ns M i e p then (value_of R ns M)(el_key e \<mapsto> (p, el_value e)) else value_of R ns M)"
    using e R by (auto simp: value_of_def elem_step_def Let_def fun_eq_iff)
  show "contents_of R ns ?M = put_contents R i p e (contents_of R ns M)"
    by (simp add: contents_of_def put_contents_def E T V st)
  have "prefix (ns @ ''/s'') (val_key ns k) = False" "prefix (ns @ ''/s'') (prio_key ns k) = False" for k
    by (auto simp: val_key_def prio_key_def)
  then show "map_ok ns ?M" unfolding map_ok_def E using M e i p
    by (auto simp: map_ok_def elem_step_def Let_def)
qed

lemma put_elems_loop_ok:
  assumes R: "rocks_ok R" and "namespaceKey S = ns" and "map_ok ns (view R S batch)" and "dataStore S \<noteq> None"
    and i: "good_id i" and p: "p \<noteq> 0" and "\<forall>e \<in> set es. good_key (el_key e)" and "distinct (map el_key es)"
    and "\<And>e. e \<in> set es \<Longrightarrow> val_key ns (el_key e) \<notin> fst ` set batch"
    and "\<And>k j. tomb_key ns k j \<notin> fst ` set batch" and "\<And>k. prio_key ns k \<notin> fst ` set batch"
  shows "\<exists>S' batch'. put_elems_loop R S batch es i p = (S', Inr batch') \<and> namespaceKey S' = ns \<and> dataStore S' \<noteq> None \<and>
     view R S' batch' = fold (elem_step R ns i p) es (view R S batch)"
  using assms(2-4,7-)
proof (induction es arbitrary: S batch)
  case (Cons e es)
  let ?k = "el_key e"
  let ?M = "view R S batch"
  let ?b = "batch_put batch (elem_key ns ?k i) []"
  have k: "good_key ?k" and ns: "good_key (namespaceKey S)" using Cons.prems by (auto simp: map_ok_def)
  obtain db where db: "dataStore S = Some db" using Cons.prems(3) by auto
  have M: "view R S ?b = ?M(elem_key ns ?k i \<mapsto> [])" by (rule view_batch_put [OF Cons.prems(3)])
  let ?e = "\<lparr>el_key = ?k, el_id = [], el_value = []\<rparr>"
  have ok: "map_ok ns (?M(elem_key ns ?k i \<mapsto> []))"
  proof -
    have "elems_of ns (?M(elem_key ns ?k i \<mapsto> [])) = insert (?k, i) (elems_of ns ?M)" using k i by (auto simp: elems_of_def)
    then show ?thesis using Cons.prems(2) by (auto simp: map_ok_def)
  qed
  have val: "value_of R ns (?M(elem_key ns ?k i \<mapsto> [])) = value_of R ns ?M" by (auto simp: value_of_def fun_eq_iff)
  have "\<exists>S' batch' db'. SetValue_batch R S ?b ?k i (el_value e) p = (S', Inr batch') \<and> namespaceKey S' = ns \<and> dataStore S' = Some db' \<and>
     view R S' batch' = (if (?M(elem_key ns ?k i \<mapsto> [])) (tomb_key ns ?k i) = None \<and>
         wins R (p, el_value e) (value_of R ns (?M(elem_key ns ?k i \<mapsto> [])) ?k)
        then ?M(elem_key ns ?k i \<mapsto> [], val_key ns ?k \<mapsto> el_value e, prio_key ns ?k \<mapsto> to_string (unat (p + 1)))
        else ?M(elem_key ns ?k i \<mapsto> [])) \<and>
     set batch' \<subseteq> insert (val_key ns ?k, el_value e) (set ?b)"
    by (rule SetValue_batch_step [OF R Cons.prems(1) M ok db k i p]) (use Cons.prems(6-8) in \<open>auto simp: batch_put_def\<close>)
  then obtain S' batch' where s: "SetValue_batch R S ?b ?k i (el_value e) p = (S', Inr batch')" "namespaceKey S' = ns"
    "dataStore S' \<noteq> None" "view R S' batch' = elem_step R ns i p e ?M"
    "set batch' \<subseteq> insert (val_key ns ?k, el_value e) (set ?b)"
    unfolding elem_step_def stores_def val Let_def by (elim exE conjE) (simp only: fun_upd_apply keys_differ if_False simp_thms, blast)
  have sub: "fst ` set batch' \<subseteq> insert (val_key ns ?k) (insert (elem_key ns ?k i) (fst ` set batch))"
    using image_mono [OF s(5), of fst] by (simp add: batch_put_def)
  have "\<exists>S'' batch''. put_elems_loop R S' batch' es i p = (S'', Inr batch'') \<and> namespaceKey S'' = ns \<and> dataStore S'' \<noteq> None \<and>
     view R S'' batch'' = fold (elem_step R ns i p) es (view R S' batch')"
  proof (rule Cons.IH)
    show "map_ok ns (view R S' batch')" unfolding s(4) by (rule contents_elem_step(1) [OF R Cons.prems(2) k i p])
    have new: "x \<notin> fst ` set batch'" if "x \<notin> fst ` set batch" "x \<noteq> val_key ns ?k" "x \<noteq> elem_key ns ?k i" for x
      using subsetD [OF sub, of x] that by (simp only: insert_iff simp_thms) blast
    show "tomb_key ns k j \<notin> fst ` set batch'" for k j by (rule new [OF Cons.prems(7)]) simp_all
    show "prio_key ns k \<notin> fst ` set batch'" for k by (rule new [OF Cons.prems(8)]) simp_all
    show "val_key ns (el_key e') \<notin> fst ` set batch'" if "e' \<in> set es" for e'
    proof (rule new)
      show "val_key ns (el_key e') \<noteq> val_key ns ?k" using Cons.prems(5) that by (auto simp: image_iff)
    qed (use Cons.prems(6) that in simp_all)
    show "namespaceKey S' = ns" "dataStore S' \<noteq> None" by (rule s)+
    show "\<forall>e \<in> set es. good_key (el_key e)" "distinct (map el_key es)" using Cons.prems(4,5) by simp_all
  qed
  moreover have "ChildString (ElemsPrefix S ?k) i = elem_key ns ?k i" using id_keys_eq(1) [OF ns k i] Cons.prems(1) by simp
  ultimately show ?case using s by (simp add: Let_def)
qed auto

lemma fold_elem_step:
  assumes "rocks_ok R" and "map_ok ns M" and "\<forall>e \<in> set es. good_key (el_key e)" and "good_id i" and "p \<noteq> 0"
  shows "map_ok ns (fold (elem_step R ns i p) es M) \<and>
     contents_of R ns (fold (elem_step R ns i p) es M) = fold (put_contents R i p) es (contents_of R ns M)"
  using assms(2,3)
proof (induction es arbitrary: M)
  case (Cons e es)
  from contents_elem_step [OF assms(1) Cons.prems(1) _ assms(4,5), of e] Cons.prems(2) Cons.IH [of "elem_step R ns i p e M"]
  show ?case by simp
qed simp

definition set_ok :: "'db rocks \<Rightarrow> 'db crdt_set \<Rightarrow> bool" where
  "set_ok R S \<longleftrightarrow> dataStore S \<noteq> None \<and> map_ok (namespaceKey S) (view R S [])"

definition set_contents :: "'db rocks \<Rightarrow> 'db crdt_set \<Rightarrow> contents" where
  "set_contents R S = contents_of R (namespaceKey S) (view R S [])"

lemma view_hooks [simp]: "view R (S\<lparr>hook_calls := h\<rparr>) batch = view R S batch"
  by (simp add: view_def)

lemma PutElems_ok:
  assumes "rocks_ok R" and "set_ok R S" and "good_id i" and "es \<noteq> [] \<Longrightarrow> p \<noteq> 0" and "\<forall>e \<in> set es. good_key (el_key e)"
    and "distinct (map el_key es)"
  shows "\<exists>S'. PutElems R S es i p = (S', Inr ()) \<and> namespaceKey S' = namespaceKey S \<and> set_ok R S' \<and>
     set_contents R S' = fold (put_contents R i p) es (set_contents R S)"
proof (cases "es = []")
  case True
  then show ?thesis using assms(2) by (simp add: PutElems_def)
next
  case False
  let ?ns = "namespaceKey S"
  have p: "p \<noteq> 0" using assms(4) False by simp
  have db: "dataStore S \<noteq> None" and ok: "map_ok ?ns (view R S [])" using assms(2) by (auto simp: set_ok_def)
  have "\<exists>S' batch'. put_elems_loop R S [] es i p = (S', Inr batch') \<and> namespaceKey S' = ?ns \<and> dataStore S' \<noteq> None \<and>
     view R S' batch' = fold (elem_step R ?ns i p) es (view R S [])"
    by (rule put_elems_loop_ok [OF assms(1) refl ok db assms(3) p assms(5,6)]) auto
  then obtain S' batch' where l: "put_elems_loop R S [] es i p = (S', Inr batch')" "namespaceKey S' = ?ns" "dataStore S' \<noteq> None"
     "view R S' batch' = fold (elem_step R ?ns i p) es (view R S [])" by blast
  obtain S1 where "commit R S' batch' = (S1, Inr ())" "view R S1 [] = fold (elem_step R ?ns i p) es (view R S [])"
     "namespaceKey S1 = ?ns" "dataStore S1 \<noteq> None"
    using commit_ok [OF assms(1) l(3), of batch'] unfolding l(2,4) by blast
  then show ?thesis using fold_elem_step [OF assms(1) ok assms(5,3) p] l False db
    by (auto simp: PutElems_def set_ok_def set_contents_def simp del: not_None_eq)
qed

lemma map_ok_elems:
  "map_ok ns M \<Longrightarrow> M x \<noteq> None \<Longrightarrow> prefix (ns @ ''/s'') x \<Longrightarrow> \<exists>(k, i) \<in> elems_of ns M. x = elem_key ns k i"
  unfolding map_ok_def by blast

lemma tomb_batch:
  assumes "good_key (namespaceKey S)" and "\<forall>t \<in> set ts. good_key (el_key t) \<and> good_id (plain_id (tomb_id i t))"
  shows "fold (\<lambda>tomb b. batch_put b (ChildString (TombsPrefix S (el_key tomb)) (tomb_id i tomb)) []) ts b =
    b @ map (\<lambda>t. (tomb_key (namespaceKey S) (el_key t) (plain_id (tomb_id i t)), [])) ts"
  using assms(2)
proof (induction ts arbitrary: b)
  case (Cons t ts)
  have g: "good_key (el_key t)" "good_id (plain_id (tomb_id i t))" using Cons.prems by auto
  have "tomb_id i t \<noteq> []" using g(2) by (auto simp: plain_id_def good_id_def split: if_splits)
  then have "ChildString (TombsPrefix S (el_key t)) (tomb_id i t) = tomb_key (namespaceKey S) (el_key t) (plain_id (tomb_id i t))"
    using id_keys_eq(2,3) [OF assms(1) g] by (cases "tomb_id i t") (auto simp: plain_id_def split: if_splits)
  then show ?case using Cons by (simp add: batch_put_def)
qed simp

lemma PutTombs_ok:
  assumes "rocks_ok R" and "set_ok R S" and g: "\<forall>t \<in> set ts. good_key (el_key t) \<and> good_id (plain_id (tomb_id i t))"
  shows "\<exists>S'. PutTombs R S ts i = (S', Inr ()) \<and> namespaceKey S' = namespaceKey S \<and> set_ok R S' \<and>
     set_contents R S' = tomb_contents i ts (set_contents R S)"
proof (cases "ts = []")
  case True
  then show ?thesis using assms(2) by (simp add: PutTombs_def tomb_contents_def set_contents_def contents_of_def)
next
  case False
  let ?ns = "namespaceKey S"
  let ?b = "map (\<lambda>t. (tomb_key ?ns (el_key t) (plain_id (tomb_id i t)), [] :: char list)) ts"
  let ?M = "view R S []"
  have db: "dataStore S \<noteq> None" and ok: "map_ok ?ns ?M" using assms(2) by (auto simp: set_ok_def)
  then have ns: "good_key ?ns" by (simp add: map_ok_def)
  obtain S1 where S1: "commit R S ?b = (S1, Inr ())" "view R S1 [] = view R S ?b" "namespaceKey S1 = ?ns" "dataStore S1 \<noteq> None"
    using commit_ok [OF assms(1) db, of ?b] by blast
  define M' where "M' = view R S1 []"
  have dom: "map_of (rev ?b) x = (if \<exists>t \<in> set ts. x = tomb_key ?ns (el_key t) (plain_id (tomb_id i t)) then Some [] else None)" for x
  proof (cases "map_of (rev ?b) x")
    case None
    then show ?thesis by (force simp: map_of_eq_None_iff)
  next
    case (Some v)
    then have "(x, v) \<in> set ?b" by (metis map_of_SomeD set_rev)
    then have "v = []" "\<exists>t \<in> set ts. x = tomb_key ?ns (el_key t) (plain_id (tomb_id i t))" by auto
    then show ?thesis using Some by simp
  qed
  have M': "M' x = (if \<exists>t \<in> set ts. x = tomb_key ?ns (el_key t) (plain_id (tomb_id i t)) then Some [] else ?M x)" for x
    using S1(2) db dom by (auto simp: M'_def view_def map_add_def)
  have same: "M' (elem_key ?ns k j) = ?M (elem_key ?ns k j)" "M' (val_key ?ns k) = ?M (val_key ?ns k)"
    "M' (prio_key ?ns k) = ?M (prio_key ?ns k)" for k j
    by (auto simp: M')
  have E: "elems_of ?ns M' = elems_of ?ns ?M" by (simp add: elems_of_def same)
  have V: "value_of R ?ns M' = value_of R ?ns ?M" by (simp add: value_of_def same fun_eq_iff)
  have T: "tombs_of ?ns M' = tombs_of ?ns ?M \<union> (\<lambda>t. (el_key t, plain_id (tomb_id i t))) ` set ts"
    using g by (auto simp: tombs_of_def M')
  have "\<not> prefix (ns @ ''/s'') (tomb_key ns k j)" for ns k j by (simp add: tomb_key_def)
  then have s: "prefix (?ns @ ''/s'') x \<Longrightarrow> M' x = ?M x" for x by (auto simp: M')
  have "M' x \<noteq> None \<longrightarrow> prefix (?ns @ ''/s'') x \<longrightarrow> (\<exists>(k, i) \<in> elems_of ?ns ?M. x = elem_key ?ns k i)" for x
    using map_ok_elems [OF ok, of x] s [of x] by (intro impI) simp
  then have ok': "map_ok ?ns M'" using ok unfolding map_ok_def E same by blast
  have "contents_of R ?ns M' = tomb_contents i ts (contents_of R ?ns ?M)"
    by (simp add: contents_of_def tomb_contents_def E V T)
  moreover have "PutTombs R S ts i = (if deleteHookFunc S1
      then S1\<lparr>hook_calls := hook_calls S1 @ map (\<lambda>t. DeleteHook (el_key t)) ts\<rparr> else S1, Inr ())"
    using False db tomb_batch [OF ns g, of "[]"] S1(1) by (auto simp: PutTombs_def Let_def)
  ultimately show ?thesis using ok' S1(3,4) by (simp add: set_ok_def set_contents_def M'_def del: not_None_eq)
qed

lemma Merge_ok:
  assumes "rocks_ok R" and "set_ok R S" and "good_delta (i, d)"
  shows "\<exists>S'. Merge R S (Some d) i = (S', Inr ()) \<and> namespaceKey S' = namespaceKey S \<and> set_ok R S' \<and>
     set_contents R S' = merge_contents R (i, d) (set_contents R S)"
proof -
  have g: "good_id i" "distinct (map el_key (elements d))" "\<forall>e \<in> set (elements d). good_key (el_key e)"
    "\<forall>t \<in> set (tombstones d). good_key (el_key t) \<and> good_id (plain_id (tomb_id i t))" "elements d \<noteq> [] \<Longrightarrow> priority d \<noteq> 0"
    using assms(3) by (auto simp: good_delta_def)
  obtain S1 where S1: "PutTombs R S (tombstones d) i = (S1, Inr ())" "namespaceKey S1 = namespaceKey S" "set_ok R S1"
     "set_contents R S1 = tomb_contents i (tombstones d) (set_contents R S)"
    using PutTombs_ok [OF assms(1,2) g(4)] by blast
  obtain S2 where "PutElems R S1 (elements d) i (priority d) = (S2, Inr ())" "namespaceKey S2 = namespaceKey S1" "set_ok R S2"
     "set_contents R S2 = fold (put_contents R i (priority d)) (elements d) (set_contents R S1)"
    using PutElems_ok [OF assms(1) S1(3) g(1,5,3,2)] by blast
  then show ?thesis using S1 by (auto simp: Merge_def merge_contents_def)
qed

section \<open>Reading an element\<close>

lemma query_set:
  assumes "rocks_ok R"
  shows "set (rocksdb_query R db p) = {(x, v). db_Get R db x = Some v \<and> prefix p x}"
proof -
  have s: "sorted_wrt (<) (map fst (db_Scan R db))" "map_of (db_Scan R db) = db_Get R db"
    using assms unfolding rocks_ok_def by blast+
  have "distinct (map fst (db_Scan R db))" using s(1) by (simp add: strict_sorted_iff)
  then have "(x, v) \<in> set (db_Scan R db) \<longleftrightarrow> db_Get R db x = Some v" for x v
    using map_of_eq_Some_iff [of "db_Scan R db" x v] s(2) by simp
  then show ?thesis unfolding rocksdb_query_def query_loop [OF s(1)] by auto
qed

abbreviation elem_set :: "contents \<Rightarrow> (string \<times> string) set" where
  "elem_set c \<equiv> fst c"

abbreviation tomb_set :: "contents \<Rightarrow> (string \<times> string) set" where
  "tomb_set c \<equiv> fst (snd c)"

abbreviation cur_value :: "contents \<Rightarrow> string \<Rightarrow> (u64 \<times> string) option" where
  "cur_value c \<equiv> snd (snd c)"

definition no_clash :: "contents \<Rightarrow> string \<Rightarrow> bool" where
  "no_clash c k \<longleftrightarrow> (\<forall>(k', i) \<in> elem_set c. \<not> clash k k' i)"

lemma elem_ids_set:
  assumes "rocks_ok R" and "set_ok R S" and "dataStore S = Some db" and "good_key k" and "no_clash (set_contents R S) k"
  shows "set (elem_ids (ElemsPrefix S k) (rocksdb_query R db (ElemsPrefix S k))) =
    (\<lambda>i. CHR ''/'' # i) ` {i. (k, i) \<in> elem_set (set_contents R S)}"
proof (intro set_eqI iffI)
  let ?ns = "namespaceKey S"
  let ?E = "elem_set (set_contents R S)"
  have ok: "map_ok ?ns (view R S [])" and ns: "good_key ?ns" using assms(2) by (auto simp: set_ok_def map_ok_def)
  have v: "view R S [] = db_Get R db" using assms(3) by (simp add: view_def)
  have E: "?E = elems_of ?ns (db_Get R db)" by (simp add: set_contents_def contents_of_def v)
  note pre = keys_eq(1) [OF ns assms(4)]
  {
    fix x assume "x \<in> set (elem_ids (ElemsPrefix S k) (rocksdb_query R db (ElemsPrefix S k)))"
    then obtain y w where y: "db_Get R db y = Some w" "prefix (?ns @ ''/s'' @ k) y"
      "x = HierarchicalKey (drop (length (?ns @ ''/s'' @ k)) y)" "IsTopLevel x"
      by (auto simp: elem_ids_def query_set [OF assms(1)] pre)
    have "prefix (?ns @ ''/s'') y" using y(2) by (metis append.assoc append_prefixD)
    with map_ok_elems [OF ok, of y] obtain k' i where ki: "(k', i) \<in> ?E" "y = elem_key ?ns k' i"
      using y(1) by (auto simp: v E)
    have g: "good_id i" "\<not> clash k k' i" using ki(1) assms(5) by (auto simp: E elems_of_def no_clash_def)
    have "k' = k" "x = CHR ''/'' # i"
      using elem_id_of [OF g(1) assms(4) g(2), of ?ns] y(2-4) ki(2) by auto
    then show "x \<in> (\<lambda>i. CHR ''/'' # i) ` {i. (k, i) \<in> ?E}" using ki(1) by auto
  next
    fix x assume "x \<in> (\<lambda>i. CHR ''/'' # i) ` {i. (k, i) \<in> ?E}"
    then obtain i where i: "x = CHR ''/'' # i" "(k, i) \<in> ?E" by auto
    have g: "good_id i" "\<not> clash k k i" using i(2) assms(5) by (auto simp: E elems_of_def no_clash_def)
    obtain w where w: "db_Get R db (elem_key ?ns k i) = Some w" using i(2) by (auto simp: E elems_of_def)
    have p: "prefix (?ns @ ''/s'' @ k) (elem_key ?ns k i)" by (simp add: elem_key_def)
    have "(elem_key ?ns k i, w) \<in> set (rocksdb_query R db (?ns @ ''/s'' @ k))"
      using w p by (simp add: query_set [OF assms(1)])
    then show "x \<in> set (elem_ids (ElemsPrefix S k) (rocksdb_query R db (ElemsPrefix S k)))"
      unfolding pre elem_ids_def using elem_id_of [OF g(1) assms(4) g(2) p] i(1) by force
  }
qed

lemma InTombs_contents:
  assumes R: "rocks_ok R" and S: "set_ok R S" and k: "good_key k" and i: "good_id i"
  shows "InTombsKeyID R S k (CHR ''/'' # i) = Inr ((k, i) \<in> tomb_set (set_contents R S))"
proof -
  have ns: "good_key (namespaceKey S)" using S by (auto simp: set_ok_def map_ok_def)
  obtain db where db: "dataStore S = Some db" using S by (auto simp: set_ok_def)
  show ?thesis using k i db id_keys_eq(3) [OF ns k i]
    by (auto simp: InTombsKeyID_def rocksdb_contains_def rocksdb_get_ok [OF R] set_contents_def contents_of_def tombs_of_def view_def
        split: option.splits)
qed

lemma InElemsNotTombstoned_contents:
  assumes "rocks_ok R" and "set_ok R S" and "good_key k" and "no_clash (set_contents R S) k"
    and "cur_value (set_contents R S) k \<noteq> None"
  shows "InElemsNotTombstoned R S k = Inr (\<exists>i. (k, i) \<in> elem_set (set_contents R S) - tomb_set (set_contents R S))"
proof -
  let ?c = "set_contents R S"
  obtain db where db: "dataStore S = Some db" using assms(2) by (auto simp: set_ok_def)
  have ids: "set (elem_ids (ElemsPrefix S k) (rocksdb_query R db (ElemsPrefix S k))) = (\<lambda>i. CHR ''/'' # i) ` {i. (k, i) \<in> elem_set ?c}"
    by (rule elem_ids_set [OF assms(1,2) db assms(3,4)])
  have good: "(k, i) \<in> elem_set ?c \<Longrightarrow> good_id i" for i by (auto simp: set_contents_def contents_of_def elems_of_def)
  have "view R S [] (val_key (namespaceKey S) k) \<noteq> None"
    using assms(3,5) by (auto simp: set_contents_def contents_of_def value_of_def split: option.splits)
  then have "\<exists>i. (k, i) \<in> elem_set ?c" using assms(2,3) by (auto simp: set_ok_def map_ok_def set_contents_def contents_of_def)
  then have "rocksdb_query R db (ElemsPrefix S k) \<noteq> []" using ids by (auto simp: elem_ids_def)
  moreover have "(\<exists>x \<in> set (elem_ids (ElemsPrefix S k) (rocksdb_query R db (ElemsPrefix S k))). InTombsKeyID R S k x = Inr False) \<longleftrightarrow>
    (\<exists>i. (k, i) \<in> elem_set ?c - tomb_set ?c)"
    unfolding ids using InTombs_contents [OF assms(1-3) good] by auto
  ultimately show ?thesis by (simp add: InElemsNotTombstoned_def db Let_def)
qed

lemma value_contents:
  assumes "rocks_ok R" and "set_ok R S" and "good_key k"
  shows "GetValueFromDatastore R S (ValueKey S k) =
    (case cur_value (set_contents R S) k of Some (p, v) \<Rightarrow> Inr v | None \<Rightarrow> Inl NOT_FOUND)"
proof -
  have ok: "map_ok (namespaceKey S) (view R S [])" and ns: "good_key (namespaceKey S)"
    using assms(2) by (auto simp: set_ok_def map_ok_def)
  obtain db where db: "dataStore S = Some db" using assms(2) by (auto simp: set_ok_def)
  show ?thesis using value_of_known [OF assms(1) ok assms(3)] keys_eq(3) [OF ns assms(3)] db
    by (cases "view R S [] (prio_key (namespaceKey S) k)")
      (auto simp: GetValueFromDatastore_def rocksdb_get_ok [OF assms(1)] set_contents_def contents_of_def view_def)
qed

lemma GetElement_contents:
  assumes "rocks_ok R" and "set_ok R S" and "good_key k" and "no_clash (set_contents R S) k"
  shows "GetElement R S k = (case cur_value (set_contents R S) k of
       None \<Rightarrow> Inl NOT_FOUND
     | Some (p, v) \<Rightarrow> if \<exists>i. (k, i) \<in> elem_set (set_contents R S) - tomb_set (set_contents R S) then Inr v else Inl EMPTY_ERROR)"
  using value_contents [OF assms(1-3)] InElemsNotTombstoned_contents [OF assms]
  by (auto simp: GetElement_def split: option.splits)

section \<open>Removing an element\<close>

lemma CreateDeltaToRemove_ok:
  assumes "rocks_ok R" and "set_ok R S" and "good_key k" and "no_clash (set_contents R S) k" and "good_id j"
  obtains d where "CreateDeltaToRemove R S k = Inr d" and "good_delta (j, d)" and "elements d = []"
    and "(\<lambda>t. (el_key t, plain_id (tomb_id j t))) ` set (tombstones d) =
      {(k, i) | i. (k, i) \<in> elem_set (set_contents R S) - tomb_set (set_contents R S)}"
proof -
  let ?c = "set_contents R S"
  obtain db where db: "dataStore S = Some db" using assms(2) by (auto simp: set_ok_def)
  have good: "(k, i) \<in> elem_set ?c \<Longrightarrow> good_id i" for i by (auto simp: set_contents_def contents_of_def elems_of_def)
  define d where "d = \<lparr>elements = [], tombstones = map (\<lambda>i. \<lparr>el_key = k, el_id = i, el_value = []\<rparr>)
      (filter (\<lambda>i. InTombsKeyID R S k i = Inr False) (elem_ids (ElemsPrefix S k) (rocksdb_query R db (ElemsPrefix S k)))), priority = 0\<rparr>"
  have c: "CreateDeltaToRemove R S k = Inr d" by (simp add: CreateDeltaToRemove_def db d_def Let_def)
  have t: "set (tombstones d) = (\<lambda>i. \<lparr>el_key = k, el_id = CHR ''/'' # i, el_value = []\<rparr>) ` {i. (k, i) \<in> elem_set ?c - tomb_set ?c}"
    unfolding d_def using elem_ids_set [OF assms(1,2) db assms(3,4)] InTombs_contents [OF assms(1-3) good] by auto
  have pl: "plain_id (tomb_id j \<lparr>el_key = k, el_id = CHR ''/'' # i, el_value = []\<rparr>) = i" for i
    by (simp add: plain_id_def tomb_id_def)
  have "\<forall>t \<in> set (tombstones d). good_key (el_key t) \<and> good_id (plain_id (tomb_id j t))"
    unfolding t using assms(3) good by (auto simp: pl)
  then have "good_delta (j, d)" using assms(5) by (simp add: good_delta_def d_def)
  moreover have "(\<lambda>t. (el_key t, plain_id (tomb_id j t))) ` set (tombstones d) = {(k, i) | i. (k, i) \<in> elem_set ?c - tomb_set ?c}"
    unfolding t image_image pl by auto
  ultimately show thesis using that c by (simp add: d_def)
qed

end
