(* ===== verification/Crdt_Merge.thy ===== *)
theory Crdt_Merge
  imports Crdt_Set
begin

text \<open>
  What merging deltas into the replicated set guarantees: it implements an abstract set of elements, tombstones and
  current values; replicas that merge the same deltas in different orders agree on elements and tombstones, and on the
  values of keys without tombstones; they need not agree on the others.
\<close>

section \<open>The order of values\<close>

lemma char_order:
  assumes "rocks_ok R"
  shows "\<not> char_less R a a" and "char_less R a b \<Longrightarrow> char_less R b c \<Longrightarrow> char_less R a c"
    and "char_less R a b \<or> a = b \<or> char_less R b a"
  using assms unfolding rocks_ok_def by blast+

lemma compare_irrefl: "rocks_ok R \<Longrightarrow> \<not> lexicographical_compare (char_less R) xs xs"
  by (induction xs) (simp_all add: char_order(1))

lemma compare_total:
  assumes "rocks_ok R"
  shows "lexicographical_compare (char_less R) xs ys \<or> xs = ys \<or> lexicographical_compare (char_less R) ys xs"
proof (induction xs arbitrary: ys)
  case Nil
  then show ?case by (cases ys) simp_all
next
  case (Cons x xs)
  show ?case
  proof (cases ys)
    case ys: (Cons y ys')
    then show ?thesis using char_order(3) [OF assms, of x y] Cons.IH [of ys'] by auto
  qed simp
qed

lemma compare_trans:
  assumes "rocks_ok R"
  shows "lexicographical_compare (char_less R) xs ys \<Longrightarrow> lexicographical_compare (char_less R) ys zs \<Longrightarrow>
    lexicographical_compare (char_less R) xs zs"
proof (induction xs arbitrary: ys zs)
  case Nil
  then show ?case by (cases zs; cases ys) simp_all
next
  case (Cons x xs)
  obtain y ys' where y: "ys = y # ys'" using Cons.prems by (cases ys) auto
  obtain z zs' where z: "zs = z # zs'" using Cons.prems y by (cases zs) auto
  note o = char_order [OF assms]
  consider "char_less R x y" | "x = y"
    using Cons.prems(1) o(3) [of x y] unfolding y lexicographical_compare.simps by (metis)
  then show ?case
  proof cases
    case 1
    then have "char_less R x z"
      using Cons.prems(2) o(2) [of x y z] o(3) [of y z] unfolding y z lexicographical_compare.simps by metis
    then show ?thesis by (simp add: z)
  next
    case 2
    then have "lexicographical_compare (char_less R) xs ys'" using Cons.prems(1) o(1) [of y] y by simp
    moreover have "char_less R y z \<or> \<not> char_less R z y \<and> lexicographical_compare (char_less R) ys' zs'"
      using Cons.prems(2) unfolding y z lexicographical_compare.simps by metis
    ultimately show ?thesis using Cons.IH [of ys' zs'] 2 z by auto
  qed
qed

definition value_less :: "'db rocks \<Rightarrow> u64 \<times> string \<Rightarrow> u64 \<times> string \<Rightarrow> bool" where
  "value_less R x y \<longleftrightarrow> fst x < fst y \<or> fst x = fst y \<and> lexicographical_compare (char_less R) (snd x) (snd y)"

lemma value_less_order:
  assumes "rocks_ok R"
  shows "\<not> value_less R x x" and "value_less R x y \<or> x = y \<or> value_less R y x"
    and "value_less R x y \<Longrightarrow> value_less R y z \<Longrightarrow> value_less R x z"
proof -
  show "\<not> value_less R x x" by (simp add: value_less_def compare_irrefl [OF assms])
  show "value_less R x y \<or> x = y \<or> value_less R y x"
    using compare_total [OF assms, of "snd x" "snd y"] by (auto simp: value_less_def prod_eq_iff)
  assume xy: "value_less R x y" and yz: "value_less R y z"
  show "value_less R x z"
    using xy yz compare_trans [OF assms, of "snd x" "snd y" "snd z"] less_trans [of "fst x" "fst y" "fst z"]
    by (auto simp: value_less_def)
qed

definition latest :: "'db rocks \<Rightarrow> u64 \<times> string \<Rightarrow> (u64 \<times> string) option \<Rightarrow> (u64 \<times> string) option" where
  "latest R x old = (if wins R x old then Some x else old)"

lemma latest_commute:
  assumes "rocks_ok R"
  shows "latest R x (latest R y old) = latest R y (latest R x old)"
proof -
  have w: "wins R a (Some b) \<longleftrightarrow> value_less R b a" "wins R a None" for a b by (auto simp: wins_def value_less_def)
  note o = value_less_order [OF assms]
  show ?thesis
  proof (cases old)
    case None
    then show ?thesis using o(2) [of x y] o(3) [of x y x] o(1) [of x] by (auto simp: latest_def w)
  next
    case (Some z)
    then show ?thesis
      using o(2) [of x y] o(3) [of x y x] o(3) [of z y x] o(3) [of z x y] o(1) [of x] by (auto simp: latest_def w)
  qed
qed

section \<open>Convergence\<close>

lemma fold_put_sets:
  "elem_set (fold (put_contents R i p) es c) = elem_set c \<union> (\<lambda>e. (el_key e, i)) ` set es"
  "tomb_set (fold (put_contents R i p) es c) = tomb_set c"
  by (induction es arbitrary: c) (auto simp: put_contents_def split: prod.splits)

lemma merge_sets:
  "elem_set (merge_contents R (i, d) c) = elem_set c \<union> (\<lambda>e. (el_key e, i)) ` set (elements d)"
  "tomb_set (merge_contents R (i, d) c) = tomb_set c \<union> (\<lambda>t. (el_key t, plain_id (tomb_id i t))) ` set (tombstones d)"
  by (auto simp: merge_contents_def fold_put_sets tomb_contents_def split: prod.splits)

text \<open>The value of one key, given the tombstones of the key.\<close>

definition key_step :: "'db rocks \<Rightarrow> string \<Rightarrow> string set \<Rightarrow> string \<times> delta \<Rightarrow> (u64 \<times> string) option \<Rightarrow> (u64 \<times> string) option" where
  "key_step R k ts m v = (case m of (i, d) \<Rightarrow>
     if i \<in> ts then v
     else fold (\<lambda>e. latest R (priority d, el_value e)) (filter (\<lambda>e. el_key e = k) (elements d)) v)"

lemma fold_put_value:
  "cur_value (fold (put_contents R i p) es c) k =
   (if (k, i) \<in> tomb_set c then cur_value c k
    else fold (\<lambda>e. latest R (p, el_value e)) (filter (\<lambda>e. el_key e = k) es) (cur_value c k))"
proof (induction es arbitrary: c)
  case (Cons e es)
  have "tomb_set (put_contents R i p e c) = tomb_set c"
    "cur_value (put_contents R i p e c) k =
       (if el_key e = k \<and> (k, i) \<notin> tomb_set c then latest R (p, el_value e) (cur_value c k) else cur_value c k)"
    by (auto simp: put_contents_def latest_def split: prod.splits)
  then show ?case using Cons [of "put_contents R i p e c"] by simp
qed simp

lemma merge_value:
  "cur_value (merge_contents R m c) k = key_step R k {i. (k, i) \<in> tomb_set (merge_contents R m c)} m (cur_value c k)"
  by (cases m; cases c) (auto simp: merge_contents_def fold_put_value fold_put_sets key_step_def tomb_contents_def)

lemma fold_latest_commute:
  assumes "rocks_ok R"
  shows "latest R x (fold (\<lambda>e. latest R (p, f e)) es v) = fold (\<lambda>e. latest R (p, f e)) es (latest R x v)"
  by (induction es arbitrary: v) (simp_all add: latest_commute [OF assms])

lemma key_step_commute:
  assumes "rocks_ok R"
  shows "key_step R k ts m (key_step R k ts m' v) = key_step R k ts m' (key_step R k ts m v)"
proof -
  have "fold (\<lambda>e. latest R (p, f e)) es (fold (\<lambda>e. latest R (q, g e)) es' v) =
        fold (\<lambda>e. latest R (q, g e)) es' (fold (\<lambda>e. latest R (p, f e)) es v)" for p q f g es es' v
    by (induction es' arbitrary: v) (simp_all add: fold_latest_commute [OF assms, symmetric])
  then show ?thesis by (auto simp: key_step_def split: prod.splits)
qed

definition tombs_key :: "string \<Rightarrow> (string \<times> delta) list \<Rightarrow> bool" where
  "tombs_key k ms \<longleftrightarrow> (\<exists>(i, d) \<in> set ms. \<exists>t \<in> set (tombstones d). el_key t = k)"

lemma fold_merge_value:
  assumes "\<not> tombs_key k ms"
  shows "cur_value (fold (merge_contents R) ms c) k =
    fold (key_step R k {i. (k, i) \<in> tomb_set c}) ms (cur_value c k)"
  using assms
proof (induction ms arbitrary: c)
  case (Cons m ms)
  obtain i d where m: "m = (i, d)" by (cases m)
  have "{j. (k, j) \<in> tomb_set (merge_contents R m c)} = {j. (k, j) \<in> tomb_set c}"
    using Cons.prems unfolding m merge_sets by (auto simp: tombs_key_def m)
  moreover have "\<not> tombs_key k ms" using Cons.prems by (simp add: tombs_key_def)
  ultimately show ?case using Cons.IH [of "merge_contents R m c"] merge_value [of R m c k] by simp
qed simp

lemma fold_merge_sets:
  "elem_set (fold (merge_contents R) ms c) = elem_set c \<union> (\<Union>(i, d) \<in> set ms. (\<lambda>e. (el_key e, i)) ` set (elements d))"
  "tomb_set (fold (merge_contents R) ms c) =
     tomb_set c \<union> (\<Union>(i, d) \<in> set ms. (\<lambda>t. (el_key t, plain_id (tomb_id i t))) ` set (tombstones d))"
  by (induction ms arbitrary: c) (auto simp: merge_sets)

lemma fold_merge_perm:
  assumes "rocks_ok R" and "mset ms = mset ms'"
  shows "elem_set (fold (merge_contents R) ms c) = elem_set (fold (merge_contents R) ms' c)"
    and "tomb_set (fold (merge_contents R) ms c) = tomb_set (fold (merge_contents R) ms' c)"
    and "\<not> tombs_key k ms \<Longrightarrow> cur_value (fold (merge_contents R) ms c) k = cur_value (fold (merge_contents R) ms' c) k"
proof -
  have s: "set ms = set ms'" using assms(2) by (rule mset_eq_setD)
  show "elem_set (fold (merge_contents R) ms c) = elem_set (fold (merge_contents R) ms' c)"
    "tomb_set (fold (merge_contents R) ms c) = tomb_set (fold (merge_contents R) ms' c)"
    unfolding fold_merge_sets s by simp_all
  assume k: "\<not> tombs_key k ms"
  then have k': "\<not> tombs_key k ms'" by (simp add: tombs_key_def s)
  have "fold (key_step R k T) ms = fold (key_step R k T) ms'" for T
    by (rule fold_multiset_equiv [OF _ assms(2)]) (auto simp: key_step_commute [OF assms(1)])
  then show "cur_value (fold (merge_contents R) ms c) k = cur_value (fold (merge_contents R) ms' c) k"
    unfolding fold_merge_value [OF k] fold_merge_value [OF k'] by simp
qed

text \<open>Merging a sequence of deltas, each with the identifier of its block.\<close>

fun merge_all :: "'db rocks \<Rightarrow> (string \<times> delta) list \<Rightarrow> 'db crdt_set \<Rightarrow> 'db crdt_set \<times> (crdt_error + unit)" where
  "merge_all R [] S = (S, Inr ())"
| "merge_all R ((i, d) # ms) S = (case Merge R S (Some d) i of (S, Inl e) \<Rightarrow> (S, Inl e) | (S, Inr _) \<Rightarrow> merge_all R ms S)"

lemma merge_all_ok:
  assumes "rocks_ok R" and "set_ok R S" and "\<forall>m \<in> set ms. good_delta m"
  shows "\<exists>S'. merge_all R ms S = (S', Inr ()) \<and> namespaceKey S' = namespaceKey S \<and> set_ok R S' \<and>
     set_contents R S' = fold (merge_contents R) ms (set_contents R S)"
  using assms(2,3)
proof (induction ms arbitrary: S)
  case (Cons m ms)
  obtain i d where m: "m = (i, d)" by (cases m)
  obtain S1 where S1: "Merge R S (Some d) i = (S1, Inr ())" "namespaceKey S1 = namespaceKey S" "set_ok R S1"
     "set_contents R S1 = merge_contents R (i, d) (set_contents R S)"
    using Merge_ok [OF assms(1) Cons.prems(1), of i d] Cons.prems(2) m by auto
  then show ?case using Cons.IH [OF S1(3)] Cons.prems(2) m by auto
qed simp

section \<open>Removal and queries\<close>

lemma removed_contents:
  assumes "rocks_ok R" and "set_ok R S" and "good_key k" and "no_clash (set_contents R S) k" and "good_id j"
  obtains d S' where "CreateDeltaToRemove R S k = Inr d" and "Merge R S (Some d) j = (S', Inr ())" and "set_ok R S'"
    and "namespaceKey S' = namespaceKey S" and "elem_set (set_contents R S') = elem_set (set_contents R S)"
    and "tomb_set (set_contents R S') = tomb_set (set_contents R S) \<union>
      {(k, i) | i. (k, i) \<in> elem_set (set_contents R S) - tomb_set (set_contents R S)}"
    and "cur_value (set_contents R S') = cur_value (set_contents R S)"
proof -
  obtain d where d: "CreateDeltaToRemove R S k = Inr d" "good_delta (j, d)" "elements d = []"
    "(\<lambda>t. (el_key t, plain_id (tomb_id j t))) ` set (tombstones d) =
      {(k, i) | i. (k, i) \<in> elem_set (set_contents R S) - tomb_set (set_contents R S)}"
    by (rule CreateDeltaToRemove_ok [OF assms])
  obtain S' where S': "Merge R S (Some d) j = (S', Inr ())" "namespaceKey S' = namespaceKey S" "set_ok R S'"
     "set_contents R S' = merge_contents R (j, d) (set_contents R S)"
    using Merge_ok [OF assms(1,2) d(2)] by blast
  have "set_contents R S' = (elem_set (set_contents R S),
      tomb_set (set_contents R S) \<union> {(k, i) | i. (k, i) \<in> elem_set (set_contents R S) - tomb_set (set_contents R S)},
      cur_value (set_contents R S))"
    unfolding S'(4) using d(4) by (cases "set_contents R S") (simp add: merge_contents_def tomb_contents_def d(3))
  then show thesis using that [OF d(1) S'(1,3,2)] by simp
qed

lemma good_val: "good_key ns \<Longrightarrow> good_key (val_key ns k)"
  by (auto simp: good_key_def val_key_def)

lemma query_keeps_values:
  assumes "rocks_ok R" and "set_ok R S" and "good_key k" and "cur_value (set_contents R S) k = Some (p, v)"
    and "\<forall>(k', i) \<in> elem_set (set_contents R S). \<not> prefix (ValueKey S k) (k' @ CHR ''/'' # i)"
  shows "\<exists>es. QueryElements R S k QUERY_VALUESUFFIX = Inr es \<and> (ValueKey S k, v) \<in> set es"
proof -
  let ?ns = "namespaceKey S"
  have ok: "map_ok ?ns (view R S [])" and ns: "good_key ?ns" using assms(2) by (auto simp: set_ok_def map_ok_def)
  obtain db where db: "dataStore S = Some db" using assms(2) by (auto simp: set_ok_def)
  have v: "view R S [] = db_Get R db" using db by (simp add: view_def)
  have vk: "ValueKey S k = val_key ?ns k" by (rule keys_eq(3) [OF ns assms(3)])
  have pre: "ElemsPrefix S (val_key ?ns k) = ?ns @ ''/s'' @ val_key ?ns k" by (rule keys_eq(1) [OF ns good_val [OF ns]])
  have kk: "KeysKey S k = ?ns @ ''/k'' @ k"
    using ns assms(3) good_key_ns [OF ns] by (simp add: KeysKey_def KeyPrefix_good ChildString_good)
  have "set (rocksdb_query R db (?ns @ ''/s'' @ val_key ?ns k)) = {}"
  proof (rule ccontr)
    assume "set (rocksdb_query R db (?ns @ ''/s'' @ val_key ?ns k)) \<noteq> {}"
    then obtain y w where y: "db_Get R db y = Some w" "prefix (?ns @ ''/s'' @ val_key ?ns k) y"
      by (auto simp: query_set [OF assms(1)])
    have "prefix (?ns @ ''/s'') y" using y(2) by (metis append.assoc append_prefixD)
    with map_ok_elems [OF ok, of y] obtain k' i where ki: "(k', i) \<in> elems_of ?ns (db_Get R db)" "y = elem_key ?ns k' i"
      using y(1) by (auto simp: v)
    then have "prefix (val_key ?ns k) (k' @ CHR ''/'' # i)" using y(2) by (simp add: elem_key_def)
    then show False using assms(5) ki(1) by (auto simp: vk set_contents_def contents_of_def v)
  qed
  then have "InElemsNotTombstoned R S (val_key ?ns k) = Inr True"
    by (simp add: InElemsNotTombstoned_def db pre Let_def)
  moreover have "db_Get R db (val_key ?ns k) = Some v"
    using assms(3,4) by (auto simp: set_contents_def contents_of_def value_of_def v split: option.splits if_splits)
  then have "(val_key ?ns k, v) \<in> set (rocksdb_query R db (KeysKey S k))"
    by (simp add: query_set [OF assms(1)] kk val_key_def)
  moreover have "suffix ''/v'' (val_key ?ns k)" by (simp add: val_key_def suffix_def)
  ultimately show ?thesis by (simp add: QueryElements_def db query_filter_def vk)
qed

section \<open>An instance of the database\<close>

definition list_rocks :: "(string \<times> string) list rocks" where
  "list_rocks = \<lparr>db_Get = map_of, get_status = (\<lambda>db k. if map_of db k = None then IsNotFound else StatusOK),
     db_Put = (\<lambda>k v db. (k, v) # db), put_status = (\<lambda>k v db. StatusOK),
     db_Write = (\<lambda>ws db. rev ws @ db), write_status = (\<lambda>ws db. StatusOK),
     db_Scan = (\<lambda>db. foldr (\<lambda>(k, v). smap_put k v) db []), lexical_cast = (\<lambda>s. Some (of_nat (digits_value s))),
     char_less = (<)\<rparr>"

lemma list_rocks_ok: "rocks_ok list_rocks"
proof -
  have "smap_ok (foldr (\<lambda>(k, v). smap_put k v) db ([] :: (string \<times> string) list)) \<and>
    map_of (foldr (\<lambda>(k, v). smap_put k v) db []) = map_of db" for db :: "(string \<times> string) list"
    by (induction db) auto
  moreover have "(\<lambda>a. map_of (rev ws @ db) a) = map_of db ++ map_of (rev ws)" for ws db :: "(string \<times> string) list" by simp
  moreover have "(of_nat (digits_value (to_string (unat n))) :: u64) = n" for n :: u64 by simp
  ultimately show ?thesis unfolding rocks_ok_def list_rocks_def by (auto simp: smap_ok_def)
qed

definition fresh_set :: "(string \<times> string) list crdt_set" where
  "fresh_set = CrdtSet (Some []) ''/crdt'' False False"

lemma fresh_set_ok: "set_ok list_rocks fresh_set" "set_contents list_rocks fresh_set = ({}, {}, \<lambda>k. None)"
  by (auto simp: set_ok_def fresh_set_def CrdtSet_def view_def list_rocks_def map_ok_def good_key_def set_contents_def
      contents_of_def elems_of_def tombs_of_def value_of_def)

lemma fresh_namespace: "namespaceKey fresh_set = ''/crdt''"
  by (simp add: fresh_set_def CrdtSet_def)

definition add_delta :: "string \<Rightarrow> string \<Rightarrow> u64 \<Rightarrow> delta" where
  "add_delta k v p = (CreateDeltaToAdd k v)\<lparr>priority := p\<rparr>"

definition tomb_delta :: "string \<Rightarrow> string \<Rightarrow> delta" where
  "tomb_delta k i = \<lparr>elements = [], tombstones = [\<lparr>el_key = k, el_id = i, el_value = []\<rparr>], priority = 0\<rparr>"

lemma add_delta_good: "good_id i \<Longrightarrow> good_key k \<Longrightarrow> p \<noteq> 0 \<Longrightarrow> good_delta (i, add_delta k v p)"
  by (simp add: add_delta_def CreateDeltaToAdd_def good_delta_def)

lemma tomb_delta_good: "good_id t \<Longrightarrow> good_id i \<Longrightarrow> good_key k \<Longrightarrow> good_delta (t, tomb_delta k i)"
  by (cases i) (auto simp: tomb_delta_def good_delta_def plain_id_def tomb_id_def good_id_def)

section \<open>Properties\<close>

text \<open>
  C20. Merging a well-formed delta implements an abstract set. The delta names no key twice, its keys start with a slash
  and do not end with one, its priority is not 0 unless it has no elements, and its identifiers are non-empty and
  contain no slash. On a well-formed database, merging it succeeds, keeps the database well formed, and has exactly this effect on its contents: the
  tombstones are added, the elements are added under the identifier of the delta, and the value of a key becomes that of the
  delta if the element is not tombstoned and the delta has a higher priority, or the same priority and a greater value.
\<close>
theorem merge_refines_contents:
  assumes "rocks_ok R" and "set_ok R S" and "good_delta (i, d)"
  shows "\<exists>S'. Merge R S (Some d) i = (S', Inr ()) \<and> set_ok R S' \<and>
     set_contents R S' = merge_contents R (i, d) (set_contents R S)"
  using Merge_ok [OF assms] by blast

theorem merge_refines_contents_witness:
  "\<exists>S'. Merge list_rocks fresh_set (Some (add_delta ''/a'' ''x'' 1)) ''Qm'' = (S', Inr ()) \<and>
     set_contents list_rocks S' = ({(''/a'', ''Qm'')}, {}, [''/a'' \<mapsto> (1, ''x'')])"
proof -
  have g: "good_delta (''Qm'', add_delta ''/a'' ''x'' 1)"
    by (rule add_delta_good) (auto simp: good_id_def good_key_def)
  show ?thesis using merge_refines_contents [OF list_rocks_ok fresh_set_ok(1) g]
    by (auto simp: fresh_set_ok(2) merge_contents_def tomb_contents_def put_contents_def add_delta_def CreateDeltaToAdd_def
        wins_def)
qed

text \<open>
  C21. Replicas converge. Merging the same well-formed deltas (no key twice in one delta, keys with a leading slash and
  no trailing one, a priority other than 0 where there are elements, identifiers without slashes) in any two orders
  succeeds and leaves two replicas that started from the same well-formed state with the same elements, the same
  tombstones, and the same value for every key that none of the deltas tombstones.
\<close>
theorem replicas_converge:
  assumes "rocks_ok R" and "set_ok R S" and "\<forall>m \<in> set ms. good_delta m" and "mset ms = mset ms'"
  shows "\<exists>S1 S2. merge_all R ms S = (S1, Inr ()) \<and> merge_all R ms' S = (S2, Inr ()) \<and>
    elem_set (set_contents R S1) = elem_set (set_contents R S2) \<and>
    tomb_set (set_contents R S1) = tomb_set (set_contents R S2) \<and>
    (\<forall>k. \<not> tombs_key k ms \<longrightarrow> cur_value (set_contents R S1) k = cur_value (set_contents R S2) k)"
proof -
  have "\<forall>m \<in> set ms'. good_delta m" using assms(3,4) mset_eq_setD by blast
  then obtain S1 S2 where "merge_all R ms S = (S1, Inr ())" "set_contents R S1 = fold (merge_contents R) ms (set_contents R S)"
    "merge_all R ms' S = (S2, Inr ())" "set_contents R S2 = fold (merge_contents R) ms' (set_contents R S)"
    using merge_all_ok [OF assms(1,2)] assms(3) by metis
  then show ?thesis using fold_merge_perm [OF assms(1,4)] by simp
qed

theorem replicas_converge_witness:
  "\<exists>S1 S2. merge_all list_rocks [(''Qa'', add_delta ''/a'' ''x'' 1), (''Qb'', add_delta ''/a'' ''y'' 1)] fresh_set = (S1, Inr ()) \<and>
    merge_all list_rocks [(''Qb'', add_delta ''/a'' ''y'' 1), (''Qa'', add_delta ''/a'' ''x'' 1)] fresh_set = (S2, Inr ()) \<and>
    cur_value (set_contents list_rocks S1) ''/a'' = cur_value (set_contents list_rocks S2) ''/a''"
proof -
  have g: "\<forall>m \<in> set [(''Qa'', add_delta ''/a'' ''x'' 1), (''Qb'', add_delta ''/a'' ''y'' 1)]. good_delta m"
    by (auto intro!: add_delta_good simp: good_id_def good_key_def)
  have "\<not> tombs_key ''/a'' [(''Qa'', add_delta ''/a'' ''x'' 1), (''Qb'', add_delta ''/a'' ''y'' 1)]"
    by (simp add: tombs_key_def add_delta_def CreateDeltaToAdd_def)
  then show ?thesis
    using replicas_converge [OF list_rocks_ok fresh_set_ok(1) g,
      of "[(''Qb'', add_delta ''/a'' ''y'' 1), (''Qa'', add_delta ''/a'' ''x'' 1)]"]
    by (auto simp: add_mset_commute)
qed

text \<open>
  C23. A removed element is gone. Merging the delta that \<^verbatim>\<open>CreateDeltaToRemove\<close> computes for a key succeeds; afterwards the
  key has no element and is not in the set, and every other key reads as before. The keys concerned must not be mistaken
  for block identifiers of other keys.
\<close>
theorem removed_element_gone:
  assumes "rocks_ok R" and "set_ok R S" and "good_key k" and "good_id j" and "no_clash (set_contents R S) k"
  shows "\<exists>d S'. CreateDeltaToRemove R S k = Inr d \<and> Merge R S (Some d) j = (S', Inr ()) \<and>
    (\<exists>e. GetElement R S' k = Inl e) \<and> IsValueInSet R S' k = Inr False \<and>
    (\<forall>k'. good_key k' \<longrightarrow> k' \<noteq> k \<longrightarrow> no_clash (set_contents R S) k' \<longrightarrow> GetElement R S' k' = GetElement R S k')"
proof -
  obtain d S' where d: "CreateDeltaToRemove R S k = Inr d" "Merge R S (Some d) j = (S', Inr ())" "set_ok R S'"
    "namespaceKey S' = namespaceKey S" "elem_set (set_contents R S') = elem_set (set_contents R S)"
    "tomb_set (set_contents R S') = tomb_set (set_contents R S) \<union>
      {(k, i) | i. (k, i) \<in> elem_set (set_contents R S) - tomb_set (set_contents R S)}"
    "cur_value (set_contents R S') = cur_value (set_contents R S)"
    by (rule removed_contents [OF assms(1-3,5,4)])
  have nc: "no_clash (set_contents R S') k' = no_clash (set_contents R S) k'" for k' by (simp add: no_clash_def d(5))
  have "\<nexists>i. (k, i) \<in> elem_set (set_contents R S') - tomb_set (set_contents R S')" by (auto simp: d(5,6))
  then have g: "\<exists>e. GetElement R S' k = Inl e"
    using GetElement_contents [OF assms(1) d(3) assms(3)] nc assms(5) by (auto split: option.splits)
  obtain db where db: "dataStore S' = Some db" using d(3) by (auto simp: set_ok_def)
  have "IsValueInSet R S' k = Inr False"
  proof (cases "cur_value (set_contents R S') k")
    case None
    then show ?thesis using value_contents [OF assms(1) d(3) assms(3)] db
      by (simp add: IsValueInSet_def rocksdb_contains_def GetValueFromDatastore_def)
  next
    case (Some x)
    then have "InElemsNotTombstoned R S' k = Inr False"
      using InElemsNotTombstoned_contents [OF assms(1) d(3) assms(3)] nc assms(5)
        \<open>\<nexists>i. (k, i) \<in> elem_set (set_contents R S') - tomb_set (set_contents R S')\<close> by simp
    then show ?thesis using db by (simp add: IsValueInSet_def)
  qed
  moreover have "GetElement R S' k' = GetElement R S k'" if "good_key k'" "k' \<noteq> k" "no_clash (set_contents R S) k'" for k'
  proof -
    have E: "(\<exists>i. (k', i) \<in> elem_set (set_contents R S') - tomb_set (set_contents R S')) =
        (\<exists>i. (k', i) \<in> elem_set (set_contents R S) - tomb_set (set_contents R S))"
      using that(2) by (auto simp: d(5,6))
    show ?thesis
      unfolding GetElement_contents [OF assms(1,2) that(1,3)] GetElement_contents [OF assms(1) d(3) that(1) nc [THEN iffD2, OF that(3)]]
        d(7) E by (rule refl)
  qed
  ultimately show ?thesis using d(1,2) g by blast
qed

theorem removed_element_gone_witness:
  "\<exists>S d S'. Merge list_rocks fresh_set (Some (add_delta ''/a'' ''x'' 1)) ''Qm'' = (S, Inr ()) \<and>
    GetElement list_rocks S ''/a'' = Inr ''x'' \<and>
    CreateDeltaToRemove list_rocks S ''/a'' = Inr d \<and> Merge list_rocks S (Some d) ''Qt'' = (S', Inr ()) \<and>
    (\<exists>e. GetElement list_rocks S' ''/a'' = Inl e) \<and> IsValueInSet list_rocks S' ''/a'' = Inr False"
proof -
  have g: "good_delta (''Qm'', add_delta ''/a'' ''x'' 1)" "good_key ''/a''" "good_id ''Qt''"
    by (auto intro!: add_delta_good simp: good_id_def good_key_def)
  obtain S where S: "Merge list_rocks fresh_set (Some (add_delta ''/a'' ''x'' 1)) ''Qm'' = (S, Inr ())" "set_ok list_rocks S"
      "set_contents list_rocks S = ({(''/a'', ''Qm'')}, {}, [''/a'' \<mapsto> (1, ''x'')])"
    using Merge_ok [OF list_rocks_ok fresh_set_ok(1) g(1)]
    by (auto simp: fresh_set_ok(2) merge_contents_def tomb_contents_def put_contents_def add_delta_def CreateDeltaToAdd_def
        wins_def)
  have nc: "no_clash (set_contents list_rocks S) ''/a''"
    by (auto simp: no_clash_def clash_def S(3))
  then have "GetElement list_rocks S ''/a'' = Inr ''x''"
    using GetElement_contents [OF list_rocks_ok S(2) g(2)] by (simp add: S(3))
  then show ?thesis
    using removed_element_gone [OF list_rocks_ok S(2) g(2,3) nc] S(1) by blast
qed

text \<open>
  C39. Replicas that see a tombstone at different times can disagree for good. Two versions of a key and a tombstone of the
  version with the higher priority: the replica that merges the tombstone last keeps the removed value, the one that
  merges it first has the other value.
\<close>
theorem tombstone_order_diverges:
  assumes "rocks_ok R" and "set_ok R S" and "set_contents R S = ({}, {}, \<lambda>k. None)" and "good_key k"
    and "good_id i" and "good_id j" and "good_id t" and "i \<noteq> j" and "0 < q" and "q < p"
  shows "\<exists>S1 S2. merge_all R [(i, add_delta k v p), (j, add_delta k w q), (t, tomb_delta k i)] S = (S1, Inr ()) \<and>
    merge_all R [(t, tomb_delta k i), (i, add_delta k v p), (j, add_delta k w q)] S = (S2, Inr ()) \<and>
    GetElement R S1 k = Inr v \<and> GetElement R S2 k = Inr w"
proof -
  have q: "q \<noteq> 0" "p \<noteq> 0" "\<not> p < q" "p \<noteq> q" using assms(9,10) by auto
  have g: "good_delta (i, add_delta k v p)" "good_delta (j, add_delta k w q)" "good_delta (t, tomb_delta k i)"
    using assms q by (auto intro: add_delta_good tomb_delta_good)
  have pl: "plain_id i = i" using assms(5) by (cases i) (auto simp: plain_id_def good_id_def)
  have i: "i \<noteq> []" using assms(5) by (simp add: good_id_def)
  obtain S1 where S1: "merge_all R [(i, add_delta k v p), (j, add_delta k w q), (t, tomb_delta k i)] S = (S1, Inr ())" "set_ok R S1"
    "set_contents R S1 = ({(k, i), (k, j)}, {(k, i)}, [k \<mapsto> (p, v)])"
    using merge_all_ok [OF assms(1,2), of "[(i, add_delta k v p), (j, add_delta k w q), (t, tomb_delta k i)]"] g q i
    by (auto simp: assms(3) merge_contents_def tomb_contents_def put_contents_def add_delta_def CreateDeltaToAdd_def
        tomb_delta_def wins_def tomb_id_def pl insert_commute)
  obtain S2 where S2: "merge_all R [(t, tomb_delta k i), (i, add_delta k v p), (j, add_delta k w q)] S = (S2, Inr ())" "set_ok R S2"
    "set_contents R S2 = ({(k, i), (k, j)}, {(k, i)}, [k \<mapsto> (q, w)])"
    using merge_all_ok [OF assms(1,2), of "[(t, tomb_delta k i), (i, add_delta k v p), (j, add_delta k w q)]"] g assms(8) i
    by (auto simp: assms(3) merge_contents_def tomb_contents_def put_contents_def add_delta_def CreateDeltaToAdd_def
        tomb_delta_def wins_def tomb_id_def pl insert_commute)
  have "no_clash (set_contents R S1) k" "no_clash (set_contents R S2) k" by (auto simp: no_clash_def clash_def S1 S2)
  then have "GetElement R S1 k = Inr v" "GetElement R S2 k = Inr w"
    using GetElement_contents [OF assms(1) S1(2) assms(4)] GetElement_contents [OF assms(1) S2(2) assms(4)] assms(8)
    by (auto simp: S1 S2)
  then show ?thesis using S1(1) S2(1) by blast
qed

theorem tombstone_order_diverges_witness:
  "\<exists>S1 S2. merge_all list_rocks [(''Qa'', add_delta ''/a'' ''x'' 2), (''Qb'', add_delta ''/a'' ''y'' 1), (''Qt'', tomb_delta ''/a'' ''Qa'')] fresh_set = (S1, Inr ()) \<and>
    merge_all list_rocks [(''Qt'', tomb_delta ''/a'' ''Qa''), (''Qa'', add_delta ''/a'' ''x'' 2), (''Qb'', add_delta ''/a'' ''y'' 1)] fresh_set = (S2, Inr ()) \<and>
    GetElement list_rocks S1 ''/a'' = Inr ''x'' \<and> GetElement list_rocks S2 ''/a'' = Inr ''y''"
  by (rule tombstone_order_diverges [OF list_rocks_ok fresh_set_ok]) (auto simp: good_key_def good_id_def)

text \<open>
  C40. A query returns removed elements. \<^verbatim>\<open>QueryElements\<close> looks for tombstones under the whole key of the stored value instead
  of the key of the element, so the value of a key whose elements are all tombstoned is still listed, although reading
  the key fails.
\<close>
theorem query_returns_removed:
  assumes "rocks_ok R" and "set_ok R S" and "good_key k" and "no_clash (set_contents R S) k"
    and "cur_value (set_contents R S) k = Some (p, v)" and "{i. (k, i) \<in> elem_set (set_contents R S) - tomb_set (set_contents R S)} = {}"
    and "\<forall>(k', i) \<in> elem_set (set_contents R S). \<not> prefix (ValueKey S k) (k' @ CHR ''/'' # i)"
  shows "GetElement R S k = Inl EMPTY_ERROR \<and>
    (\<exists>es. QueryElements R S k QUERY_VALUESUFFIX = Inr es \<and> (ValueKey S k, v) \<in> set es)"
  using GetElement_contents [OF assms(1-4)] query_keeps_values [OF assms(1-3,5,7)] assms(5,6) by auto

theorem query_returns_removed_witness:
  "\<exists>S'. merge_all list_rocks [(''Qa'', add_delta ''/a'' ''x'' 1), (''Qt'', tomb_delta ''/a'' ''Qa'')] fresh_set = (S', Inr ()) \<and>
    GetElement list_rocks S' ''/a'' = Inl EMPTY_ERROR \<and>
    (\<exists>es. QueryElements list_rocks S' ''/a'' QUERY_VALUESUFFIX = Inr es \<and> (''/crdt/k/a/v'', ''x'') \<in> set es)"
proof -
  have g: "\<forall>m \<in> set [(''Qa'', add_delta ''/a'' ''x'' 1), (''Qt'', tomb_delta ''/a'' ''Qa'')]. good_delta m"
    by (auto intro!: add_delta_good tomb_delta_good simp: good_id_def good_key_def)
  obtain S' where S': "merge_all list_rocks [(''Qa'', add_delta ''/a'' ''x'' 1), (''Qt'', tomb_delta ''/a'' ''Qa'')] fresh_set = (S', Inr ())"
    "namespaceKey S' = ''/crdt''" "set_ok list_rocks S'" "set_contents list_rocks S' = ({(''/a'', ''Qa'')}, {(''/a'', ''Qa'')}, [''/a'' \<mapsto> (1, ''x'')])"
    using merge_all_ok [OF list_rocks_ok fresh_set_ok(1) g]
    by (auto simp: fresh_set_ok(2) merge_contents_def tomb_contents_def put_contents_def add_delta_def CreateDeltaToAdd_def
        tomb_delta_def wins_def tomb_id_def plain_id_def fresh_namespace)
  have k: "good_key ''/a''" "ValueKey S' ''/a'' = ''/crdt/k/a/v''"
    using keys_eq(3) [of S' "''/a''"] S'(2) by (auto simp: good_key_def val_key_def)
  show ?thesis using query_returns_removed [OF list_rocks_ok S'(3) k(1)] S'(1) k(2)
    by (auto simp: S'(4) no_clash_def clash_def)
qed

end
