(* ===== verification/Atomic_Transaction.thy ===== *)
theory Atomic_Transaction
  imports Crdt_Merge
begin

text \<open>
  The transactions on the shared database, \<^verbatim>\<open>src/crdt/impl/atomic_transaction.cpp\<close>: puts and removals are collected and
  published as one delta. The datastore behind a transaction is a record of the two operations that the commit calls and
  that read or change it; \<open>set_datastore\<close> is the one of \<^verbatim>\<open>src/crdt/impl/crdt_datastore.cpp\<close>, which merges the delta into the
  replicated set. What it takes from the heads and from the exchange of blocks, which are threads and network, is the
  record \<open>dag_layer\<close>.
\<close>

section \<open>Pending operations\<close>

datatype operation = PUT | REMOVE

record pending_operation =
  po_type :: operation
  po_key :: string
  po_value :: bytes

record atomic_transaction =
  operations :: "pending_operation list"
  modified_keys :: "string set"
  is_committed :: bool

definition AtomicTransaction :: atomic_transaction where
  "AtomicTransaction = \<lparr>operations = [], modified_keys = {}, is_committed = False\<rparr>"

definition at_Put :: "string \<Rightarrow> bytes \<Rightarrow> atomic_transaction \<Rightarrow> (crdt_error + unit) \<times> atomic_transaction" where
  "at_Put key val t =
     (if is_committed t then (Inl EMPTY_ERROR, t)
      else (Inr (), t\<lparr>operations := operations t @ [\<lparr>po_type = PUT, po_key = key, po_value = val\<rparr>],
                      modified_keys := insert key (modified_keys t)\<rparr>))"

definition at_Remove :: "string \<Rightarrow> atomic_transaction \<Rightarrow> (crdt_error + unit) \<times> atomic_transaction" where
  "at_Remove key t =
     (if is_committed t then (Inl EMPTY_ERROR, t)
      else (Inr (), t\<lparr>operations := operations t @ [\<lparr>po_type = REMOVE, po_key = key, po_value = []\<rparr>]\<rparr>))"

definition FindLatestOperation :: "string \<Rightarrow> atomic_transaction \<Rightarrow> pending_operation option" where
  "FindLatestOperation key t = find (\<lambda>po. po_key po = key) (rev (operations t))"

definition at_Get :: "string \<Rightarrow> atomic_transaction \<Rightarrow> crdt_error + bytes" where
  "at_Get key t = (case FindLatestOperation key t of
       Some po \<Rightarrow> (case po_type po of REMOVE \<Rightarrow> Inl EMPTY_ERROR | PUT \<Rightarrow> Inr (po_value po))
     | None \<Rightarrow> Inl EMPTY_ERROR)"

definition at_Erase :: "string \<Rightarrow> atomic_transaction \<Rightarrow> (crdt_error + unit) \<times> atomic_transaction" where
  "at_Erase key t =
     (if is_committed t then (Inl EMPTY_ERROR, t)
      else let kept = filter (\<lambda>po. po_key po \<noteq> key) (operations t)
           in (Inr (), if length kept \<noteq> length (operations t)
                 then t\<lparr>operations := kept, modified_keys := modified_keys t - {key}\<rparr> else t))"

definition at_HasKey :: "string \<Rightarrow> atomic_transaction \<Rightarrow> bool" where
  "at_HasKey key t \<longleftrightarrow> key \<in> modified_keys t"

definition at_Rollback :: "atomic_transaction \<Rightarrow> atomic_transaction" where
  "at_Rollback t = t\<lparr>operations := [], modified_keys := {}\<rparr>"

section \<open>Committing\<close>

record 'd datastore =
  ds_CreateDeltaToRemove :: "'d \<Rightarrow> string \<Rightarrow> crdt_error + delta"
  ds_Publish :: "delta \<Rightarrow> string set \<Rightarrow> 'd \<Rightarrow> (crdt_error + unit) \<times> 'd"

definition toString :: "bytes \<Rightarrow> string" where
  "toString buf = map (\<lambda>b. char_of (unat b)) buf"

fun combine_loop :: "'d datastore \<Rightarrow> 'd \<Rightarrow> pending_operation list \<Rightarrow> delta \<Rightarrow> u64 \<Rightarrow> crdt_error + delta" where
  "combine_loop ds d [] combined_delta max_priority = Inr (combined_delta\<lparr>priority := max_priority\<rparr>)"
| "combine_loop ds d (po # pos) combined_delta max_priority =
     rbind (case po_type po of
         PUT \<Rightarrow> Inr (CreateDeltaToAdd (po_key po) (toString (po_value po)))
       | REMOVE \<Rightarrow> ds_CreateDeltaToRemove ds d (po_key po)) (\<lambda>delta.
     combine_loop ds d pos
       (combined_delta\<lparr>elements := elements combined_delta @ elements delta,
          tombstones := tombstones combined_delta @ tombstones delta\<rparr>)
       (max max_priority (priority delta)))"

definition empty_delta :: delta where
  "empty_delta = \<lparr>elements = [], tombstones = [], priority = 0\<rparr>"

definition at_Commit :: "'d datastore \<Rightarrow> string set \<Rightarrow> atomic_transaction \<Rightarrow> 'd \<Rightarrow> (crdt_error + unit) \<times> atomic_transaction \<times> 'd" where
  "at_Commit ds topics t d =
     (if is_committed t then (Inl EMPTY_ERROR, t, d)
      else case combine_loop ds d (operations t) empty_delta 0 of
        Inl e \<Rightarrow> (Inl e, t, d)
      | Inr combined_delta \<Rightarrow>
          (case ds_Publish ds combined_delta topics d of
             (Inl e, d) \<Rightarrow> (Inl e, t, d)
           | (Inr _, d) \<Rightarrow> (Inr (), t\<lparr>is_committed := True\<rparr>, d)))"

section \<open>The datastore\<close>

text \<open>
  The greatest height of the heads of the topics; the content identifier of the block made of the delta; and what the steps
  behind the merge return, which move the heads and hand the block to the exchange. Each may fail.
\<close>

record dag_layer =
  heads_height :: "string set \<Rightarrow> crdt_error + u64"
  block_cid :: "delta \<Rightarrow> crdt_error + string"
  block_added :: "delta \<Rightarrow> crdt_error + unit"

definition AddDAGNode :: "'db rocks \<Rightarrow> dag_layer \<Rightarrow> delta \<Rightarrow> string set \<Rightarrow> 'db crdt_set \<Rightarrow> (crdt_error + unit) \<times> 'db crdt_set" where
  "AddDAGNode R dag aDelta topics S = (case heads_height dag topics of
       Inl e \<Rightarrow> (Inl e, S)
     | Inr height \<Rightarrow>
         let aDelta = aDelta\<lparr>priority := height + 1\<rparr>
         in case block_cid dag aDelta of
              Inl e \<Rightarrow> (Inl e, S)
            | Inr cid \<Rightarrow>
                (case Merge R S (Some aDelta) (HierarchicalKey cid) of
                   (S, Inl e) \<Rightarrow> (Inl e, S)
                 | (S, Inr _) \<Rightarrow> (block_added dag aDelta, S)))"

definition Publish :: "'db rocks \<Rightarrow> dag_layer \<Rightarrow> delta \<Rightarrow> string set \<Rightarrow> 'db crdt_set \<Rightarrow> (crdt_error + unit) \<times> 'db crdt_set" where
  "Publish R dag aDelta topics S = AddDAGNode R dag aDelta topics S"

definition set_datastore :: "'db rocks \<Rightarrow> dag_layer \<Rightarrow> 'db crdt_set datastore" where
  "set_datastore R dag = \<lparr>ds_CreateDeltaToRemove = CreateDeltaToRemove R, ds_Publish = Publish R dag\<rparr>"

section \<open>What a transaction collects\<close>

fun at_puts :: "(string \<times> bytes) list \<Rightarrow> atomic_transaction \<Rightarrow> (crdt_error + unit) \<times> atomic_transaction" where
  "at_puts [] t = (Inr (), t)"
| "at_puts (kv # kvs) t = (case at_Put (fst kv) (snd kv) t of (Inl e, t) \<Rightarrow> (Inl e, t) | (Inr _, t) \<Rightarrow> at_puts kvs t)"

definition put_op :: "string \<times> bytes \<Rightarrow> pending_operation" where
  "put_op kv = \<lparr>po_type = PUT, po_key = fst kv, po_value = snd kv\<rparr>"

lemma at_puts_open:
  "\<not> is_committed t \<Longrightarrow> at_puts kvs t =
     (Inr (), t\<lparr>operations := operations t @ map put_op kvs, modified_keys := modified_keys t \<union> fst ` set kvs\<rparr>)"
  by (induction kvs arbitrary: t) (simp_all add: at_Put_def put_op_def)

lemma at_puts_committed: "is_committed t \<Longrightarrow> at_puts kvs t = (if kvs = [] then Inr () else Inl EMPTY_ERROR, t)"
  by (cases kvs) (simp_all add: at_Put_def)

definition put_element :: "string \<times> bytes \<Rightarrow> element" where
  "put_element kv = \<lparr>el_key = fst kv, el_id = [], el_value = toString (snd kv)\<rparr>"

lemma combine_puts:
  "combine_loop ds d (map put_op kvs) c n = Inr (c\<lparr>elements := elements c @ map put_element kvs, priority := n\<rparr>)"
  by (induction kvs arbitrary: c) (simp_all add: put_op_def put_element_def CreateDeltaToAdd_def)

lemma at_Commit_puts:
  assumes "\<not> is_committed t" and "operations t = map put_op kvs"
  shows "at_Commit ds topics t d =
    (case ds_Publish ds \<lparr>elements = map put_element kvs, tombstones = [], priority = 0\<rparr> topics d of
       (Inl e, d) \<Rightarrow> (Inl e, t, d)
     | (Inr _, d) \<Rightarrow> (Inr (), t\<lparr>is_committed := True\<rparr>, d))"
  using assms by (simp add: at_Commit_def combine_puts empty_delta_def)

section \<open>Identifiers with a leading slash\<close>

lemma ChildString_slash: "good_id i \<Longrightarrow> ChildString k (CHR ''/'' # i) = ChildString k i"
  by (cases i) (auto simp: ChildString_def good_id_def)

lemma InTombs_slash: "good_id i \<Longrightarrow> InTombsKeyID R S k (CHR ''/'' # i) = InTombsKeyID R S k i"
  by (simp add: InTombsKeyID_def ChildString_slash split: option.split)

lemma put_elems_slash: "good_id i \<Longrightarrow> put_elems_loop R S b es (CHR ''/'' # i) p = put_elems_loop R S b es i p"
  by (induction R S b es i p rule: put_elems_loop.induct)
     (simp_all add: Let_def SetValue_batch_def InTombs_slash ChildString_slash split: prod.split sum.split)

lemma tomb_slash: "good_id i \<Longrightarrow> ChildString k (tomb_id (CHR ''/'' # i) t) = ChildString k (tomb_id i t)"
  by (simp add: tomb_id_def ChildString_slash)

lemma Put_slash:
  assumes "good_id i"
  shows "PutTombs R S ts (CHR ''/'' # i) = PutTombs R S ts i" "PutElems R S es (CHR ''/'' # i) p = PutElems R S es i p"
  unfolding PutTombs_def PutElems_def put_elems_slash [OF assms] tomb_slash [OF assms] by (rule refl)+

lemma Merge_slash: "good_id i \<Longrightarrow> Merge R S d (CHR ''/'' # i) = Merge R S d i"
  by (simp add: Merge_def Put_slash split: option.split)

lemma HierarchicalKey_id: "good_id i \<Longrightarrow> HierarchicalKey i = CHR ''/'' # i"
  by (auto simp: HierarchicalKey_def good_id_def Let_def dest: last_in_set) (metis hd_in_set last_in_set)+

section \<open>A key that is put twice\<close>

text \<open>
  The priority of a key is written at once and its value only with the batch: the second element with the same key finds
  its own priority and no value.
\<close>

lemma SetValue_batch_first:
  assumes R: "rocks_ok R" and ns: "good_key (namespaceKey S)" and db: "dataStore S = Some db" and k: "good_key k" and i: "good_id i"
    and p: "p \<noteq> 0" and get: "db_Get R db (tomb_key (namespaceKey S) k i) = None" "db_Get R db (prio_key (namespaceKey S) k) = None"
  obtains S' batch' db' where "SetValue_batch R S batch k i v p = (S', Inr batch')" and "namespaceKey S' = namespaceKey S"
    and "dataStore S' = Some db'" and "db_Get R db' = (db_Get R db)(prio_key (namespaceKey S) k \<mapsto> to_string (unat (p + 1)))"
proof -
  let ?db = "db_Put R (prio_key (namespaceKey S) k) (to_string (unat (p + 1))) db"
  let ?S = "S\<lparr>dataStore := Some ?db\<rparr>"
  have "InTombsKeyID R S k i = Inr False" "GetPriority R S k = Inr 0"
    using get db R by (simp_all add: InTombsKeyID_def GetPriority_def GetValueFromDatastore_def rocksdb_contains_def rocksdb_get_ok
        keys_eq(3,4) [OF ns k] id_keys_eq [OF ns k i])
  then have "SetValue_batch R S batch k i v p = store_value R S batch k v p"
    using p by (simp add: SetValue_batch_def)
  also have "\<dots> = (if putHookFunc ?S then ?S\<lparr>hook_calls := hook_calls ?S @ [PutHook k v]\<rparr> else ?S, Inr (batch_put batch (ValueKey S k) v))"
    using db R by (simp add: store_value_def SetPriority_def rocksdb_put_def keys_eq [OF ns k])
  finally show thesis
    using R by (intro that [of "if putHookFunc ?S then ?S\<lparr>hook_calls := hook_calls ?S @ [PutHook k v]\<rparr> else ?S" _ ?db]) simp_all
qed

lemma SetValue_batch_again:
  assumes R: "rocks_ok R" and ns: "good_key (namespaceKey S)" and db: "dataStore S = Some db" and k: "good_key k" and i: "good_id i"
    and get: "db_Get R db (tomb_key (namespaceKey S) k i) = None" "db_Get R db (prio_key (namespaceKey S) k) = Some (to_string (unat (p + 1)))"
      "db_Get R db (val_key (namespaceKey S) k) = None"
  shows "SetValue_batch R S batch k i v p = (S, Inl NOT_FOUND)"
proof -
  have "InTombsKeyID R S k i = Inr False" "GetPriority R S k = Inr p" "GetValueFromDatastore R S (ValueKey S k) = Inl NOT_FOUND"
    using get db R by (simp_all add: InTombsKeyID_def GetPriority_def GetValueFromDatastore_def rocksdb_contains_def rocksdb_get_ok
        keys_eq(3,4) [OF ns k] id_keys_eq [OF ns k i])
  then show ?thesis
    by (simp add: SetValue_batch_def)
qed

lemma put_elems_repeated:
  assumes R: "rocks_ok R" and i: "good_id i" and p: "p \<noteq> 0" and ns: "good_key ns" "namespaceKey S = ns" and db: "dataStore S = Some db"
    and es: "\<forall>e \<in> set es. good_key (el_key e) \<and> db_Get R db (val_key ns (el_key e)) = None \<and> db_Get R db (tomb_key ns (el_key e) i) = None \<and>
      db_Get R db (prio_key ns (el_key e)) = (if el_key e \<in> seen then Some (to_string (unat (p + 1))) else None)"
    and rep: "\<not> (distinct (map el_key es) \<and> el_key ` set es \<inter> seen = {})"
  shows "\<exists>S' db'. put_elems_loop R S batch es i p = (S', Inl NOT_FOUND) \<and> namespaceKey S' = ns \<and> dataStore S' = Some db' \<and>
     (\<forall>x. (\<forall>k. x \<noteq> prio_key ns k) \<longrightarrow> db_Get R db' x = db_Get R db x)"
  using ns(2) db es rep
proof (induction es arbitrary: S db batch seen)
  case (Cons e es)
  let ?b = "batch_put batch (ChildString (ElemsPrefix S (el_key e)) i) []"
  have k: "good_key (el_key e)" and gns: "good_key (namespaceKey S)" using Cons.prems(1,3) ns(1) by simp_all
  show ?case
  proof (cases "el_key e \<in> seen")
    case True
    then have "SetValue_batch R S ?b (el_key e) i (el_value e) p = (S, Inl NOT_FOUND)"
      using Cons.prems by (intro SetValue_batch_again [OF R gns Cons.prems(2) k i]) simp_all
    then show ?thesis using Cons.prems(1,2) by simp
  next
    case False
    obtain S' batch' db' where S': "SetValue_batch R S ?b (el_key e) i (el_value e) p = (S', Inr batch')" "namespaceKey S' = ns"
        "dataStore S' = Some db'" "db_Get R db' = (db_Get R db)(prio_key ns (el_key e) \<mapsto> to_string (unat (p + 1)))"
      using Cons.prems False
      by (auto intro: SetValue_batch_first [OF R gns Cons.prems(2) k i p, of ?b "el_value e"])
    have "\<forall>e' \<in> set es. good_key (el_key e') \<and> db_Get R db' (val_key ns (el_key e')) = None \<and> db_Get R db' (tomb_key ns (el_key e') i) = None \<and>
      db_Get R db' (prio_key ns (el_key e')) = (if el_key e' \<in> insert (el_key e) seen then Some (to_string (unat (p + 1))) else None)"
      using Cons.prems(3) by (auto simp: S'(4))
    moreover have "\<not> (distinct (map el_key es) \<and> el_key ` set es \<inter> insert (el_key e) seen = {})"
      using Cons.prems(4) False by auto
    ultimately have "\<exists>S'' db''. put_elems_loop R S' batch' es i p = (S'', Inl NOT_FOUND) \<and> namespaceKey S'' = ns \<and> dataStore S'' = Some db'' \<and>
     (\<forall>x. (\<forall>k. x \<noteq> prio_key ns k) \<longrightarrow> db_Get R db'' x = db_Get R db' x)"
      by (rule Cons.IH [OF S'(2,3)])
    then show ?thesis using S'(1,4) by (auto simp: Let_def)
  qed
qed simp

text \<open>Reading an element does not look at priorities.\<close>

lemma ChildString_prefix: "good_key key \<Longrightarrow> prefix key (ChildString key s)"
  by (auto simp: ChildString_def HierarchicalKey_def good_key_def Let_def butlast_append)

lemma GetElement_priorities:
  assumes R: "rocks_ok R" and ns: "good_key (namespaceKey S)" "namespaceKey S' = namespaceKey S" and k: "good_key k"
    and db: "dataStore S = Some db" "dataStore S' = Some db'"
    and same: "\<And>x. (\<forall>k. x \<noteq> prio_key (namespaceKey S) k) \<Longrightarrow> db_Get R db' x = db_Get R db x"
  shows "GetElement R S' k = GetElement R S k"
proof -
  let ?ns = "namespaceKey S"
  have ns': "good_key (namespaceKey S')" using ns by simp
  have pre: "ElemsPrefix S k = ?ns @ ''/s'' @ k" "ElemsPrefix S' k = ?ns @ ''/s'' @ k"
    "TombsPrefix S k = ?ns @ ''/t'' @ k" "TombsPrefix S' k = ?ns @ ''/t'' @ k"
    using keys_eq [OF ns(1) k] keys_eq [OF ns' k] ns(2) by simp_all
  have val: "GetValueFromDatastore R S' (ValueKey S' k) = GetValueFromDatastore R S (ValueKey S k)"
    using keys_eq [OF ns(1) k] keys_eq [OF ns' k] ns(2) same [of "val_key ?ns k"] R db
    by (simp add: GetValueFromDatastore_def rocksdb_get_ok)
  have "\<not> prefix (?ns @ ''/s'') (prio_key ?ns k')" for k' by (simp add: prio_key_def)
  then have "prefix (?ns @ ''/s'' @ k) x \<Longrightarrow> db_Get R db' x = db_Get R db x" for x
    using same [of x] by (metis append.assoc append_prefixD)
  then have q: "set (rocksdb_query R db' (?ns @ ''/s'' @ k)) = set (rocksdb_query R db (?ns @ ''/s'' @ k))"
    by (auto simp: query_set [OF R])
  then have ids: "set (elem_ids (?ns @ ''/s'' @ k) (rocksdb_query R db' (?ns @ ''/s'' @ k))) =
      set (elem_ids (?ns @ ''/s'' @ k) (rocksdb_query R db (?ns @ ''/s'' @ k)))"
    by (simp add: elem_ids_def)
  have e: "rocksdb_query R db' (?ns @ ''/s'' @ k) = [] \<longleftrightarrow> rocksdb_query R db (?ns @ ''/s'' @ k) = []"
    using q by (metis set_empty)
  have "ChildString (?ns @ ''/t'' @ k) j \<noteq> prio_key ?ns k'" for j k'
    using ChildString_prefix [of "?ns @ ''/t'' @ k" j] ns(1) k by (auto simp: good_key_def prio_key_def prefix_def)
  then have "InTombsKeyID R S' k j = InTombsKeyID R S k j" for j
    using same [of "ChildString (?ns @ ''/t'' @ k) j"] R db by (simp add: InTombsKeyID_def pre rocksdb_contains_def rocksdb_get_ok)
  then have "InElemsNotTombstoned R S' k = InElemsNotTombstoned R S k"
    using ids e db by (simp add: InElemsNotTombstoned_def pre Let_def)
  then show ?thesis
    using val by (simp add: GetElement_def)
qed

section \<open>What a commit does to the set\<close>

definition puts_delta :: "(string \<times> bytes) list \<Rightarrow> u64 \<Rightarrow> delta" where
  "puts_delta kvs p = \<lparr>elements = map put_element kvs, tombstones = [], priority = p\<rparr>"

lemma commit_puts_merge:
  assumes "at_puts kvs AtomicTransaction = (Inr (), t)" and "heads_height dag topics = Inr h"
    and "block_cid dag (puts_delta kvs (h + 1)) = Inr i" and "good_id i" and "block_added dag (puts_delta kvs (h + 1)) = Inr ()"
  shows "at_Commit (set_datastore R dag) topics t S =
    (case Merge R S (Some (puts_delta kvs (h + 1))) i of
       (S, Inl e) \<Rightarrow> (Inl e, t, S) | (S, Inr _) \<Rightarrow> (Inr (), t\<lparr>is_committed := True\<rparr>, S))"
proof -
  have t: "\<not> is_committed t" "operations t = map put_op kvs"
    using assms(1) by (auto simp: at_puts_open AtomicTransaction_def)
  show ?thesis
    using assms(2-5)
    by (simp add: at_Commit_puts [OF t] set_datastore_def Publish_def AddDAGNode_def puts_delta_def Merge_slash
        HierarchicalKey_id split: prod.split sum.split)
qed

lemma merged_puts_value:
  assumes "distinct (map fst kvs)" and "(k, i) \<notin> tomb_set c" and "\<And>q v. cur_value c k = Some (q, v) \<Longrightarrow> q < p"
  shows "cur_value (merge_contents R (i, puts_delta kvs p) c) k =
    (case map_of kvs k of Some v \<Rightarrow> Some (p, toString v) | None \<Rightarrow> cur_value c k)"
proof -
  have "filter (\<lambda>e. el_key e = k) (map put_element kvs) = (case map_of kvs k of Some v \<Rightarrow> [put_element (k, v)] | None \<Rightarrow> [])"
    using assms(1)
  proof (induction kvs)
    case (Cons kv kvs)
    have "fst kv = k \<Longrightarrow> map_of kvs k = None" using Cons.prems by (auto simp: map_of_eq_None_iff)
    then show ?case using Cons by (cases kv) (auto simp: put_element_def)
  qed simp
  moreover have "latest R (p, w) (cur_value c k) = Some (p, w)" for w
    using assms(3) by (cases "cur_value c k") (auto simp: latest_def wins_def)
  ultimately show ?thesis
    using assms(2) by (simp add: merge_value key_step_def merge_sets puts_delta_def put_element_def split: option.split)
qed

lemma fresh_key_unread:
  assumes R: "rocks_ok R" and S: "set_ok R S" "dataStore S = Some db" and k: "good_key k" "good_id i"
    and c: "cur_value (set_contents R S) k = None" "(k, i) \<notin> tomb_set (set_contents R S)"
  shows "db_Get R db (val_key (namespaceKey S) k) = None" "db_Get R db (prio_key (namespaceKey S) k) = None"
    "db_Get R db (tomb_key (namespaceKey S) k i) = None"
proof -
  have ok: "map_ok (namespaceKey S) (db_Get R db)" using S by (simp add: set_ok_def view_def)
  have c': "value_of R (namespaceKey S) (db_Get R db) k = None" "(k, i) \<notin> tombs_of (namespaceKey S) (db_Get R db)"
    using c S(2) by (simp_all add: set_contents_def contents_of_def view_def)
  show "db_Get R db (prio_key (namespaceKey S) k) = None"
    using value_of_known(2) [OF R ok k(1)] c'(1) by (cases "db_Get R db (prio_key (namespaceKey S) k)") auto
  then show "db_Get R db (val_key (namespaceKey S) k) = None"
    using value_of_known(1) [OF R ok k(1)] by blast
  show "db_Get R db (tomb_key (namespaceKey S) k i) = None"
    using c'(2) k by (simp add: tombs_of_def)
qed

lemma merge_puts_distinct:
  assumes R: "rocks_ok R" and S: "set_ok R S" and k: "\<forall>k \<in> fst ` set kvs. good_key k" and i: "good_id i"
    and d: "distinct (map fst kvs)" and p: "p \<noteq> 0"
  obtains S' where "Merge R S (Some (puts_delta kvs p)) i = (S', Inr ())" "set_ok R S'"
    "set_contents R S' = merge_contents R (i, puts_delta kvs p) (set_contents R S)"
proof -
  have "el_key \<circ> put_element = fst" by (simp add: put_element_def fun_eq_iff)
  then have "good_delta (i, puts_delta kvs p)"
    using i k p d by (auto simp: good_delta_def puts_delta_def put_element_def [of "(_, _)"])
  then show thesis using Merge_ok [OF R S] that by blast
qed

lemma merged_puts_read:
  assumes R: "rocks_ok R" and S: "set_ok R S" "set_ok R S'" and d: "distinct (map fst kvs)"
    and c: "set_contents R S' = merge_contents R (i, puts_delta kvs p) (set_contents R S)"
    and h: "\<And>q v. cur_value (set_contents R S) k = Some (q, v) \<Longrightarrow> q < p" and i: "(k, i) \<notin> tomb_set (set_contents R S)"
    and k: "good_key k" and nc: "no_clash (set_contents R S) k" "\<forall>k' \<in> fst ` set kvs. \<not> clash k k' i"
  shows "GetElement R S' k = (case map_of kvs k of Some v \<Rightarrow> Inr (toString v) | None \<Rightarrow> GetElement R S k)"
proof -
  let ?c = "set_contents R S"
  have v: "cur_value (set_contents R S') k = (case map_of kvs k of Some v \<Rightarrow> Some (p, toString v) | None \<Rightarrow> cur_value ?c k)"
    unfolding c using d i h by (rule merged_puts_value)
  have T: "tomb_set (set_contents R S') = tomb_set ?c" unfolding c merge_sets by (simp add: puts_delta_def)
  have E: "elem_set (set_contents R S') = elem_set ?c \<union> (\<lambda>kv. (fst kv, i)) ` set kvs"
    unfolding c merge_sets by (simp add: puts_delta_def image_image put_element_def)
  have nc': "no_clash (set_contents R S') k" using nc unfolding no_clash_def E by auto
  show ?thesis
  proof (cases "map_of kvs k")
    case None
    then have "(\<exists>j. (k, j) \<in> elem_set (set_contents R S') - tomb_set ?c) \<longleftrightarrow> (\<exists>j. (k, j) \<in> elem_set ?c - tomb_set ?c)"
      unfolding E by (auto simp: map_of_eq_None_iff)
    then show ?thesis
      unfolding GetElement_contents [OF R S(2) k nc'] GetElement_contents [OF R S(1) k nc(1)] v T by (simp only: None option.case)
  next
    case (Some w)
    then have "(k, i) \<in> elem_set (set_contents R S') - tomb_set (set_contents R S')"
      unfolding E T using i map_of_SomeD [OF Some] by force
    then have "\<exists>j. (k, j) \<in> elem_set (set_contents R S') - tomb_set (set_contents R S')" by blast
    then show ?thesis unfolding GetElement_contents [OF R S(2) k nc'] v by (simp add: Some)
  qed
qed

lemma merge_puts_repeated:
  assumes R: "rocks_ok R" and S: "set_ok R S" and k: "\<forall>k \<in> fst ` set kvs. good_key k" and i: "good_id i"
    and d: "\<not> distinct (map fst kvs)" and p: "p \<noteq> 0"
    and c: "\<forall>k \<in> fst ` set kvs. cur_value (set_contents R S) k = None" "\<forall>k. (k, i) \<notin> tomb_set (set_contents R S)"
  shows "\<exists>S'. Merge R S (Some (puts_delta kvs p)) i = (S', Inl NOT_FOUND) \<and>
    (\<forall>k. good_key k \<longrightarrow> GetElement R S' k = GetElement R S k)"
proof -
  obtain db where db: "dataStore S = Some db" using S by (auto simp: set_ok_def)
  have ns: "good_key (namespaceKey S)" using S by (simp add: set_ok_def map_ok_def)
  have keys: "map el_key (map put_element kvs) = map fst kvs" by (simp add: put_element_def)
  have "\<exists>S' db'. put_elems_loop R S [] (map put_element kvs) i p = (S', Inl NOT_FOUND) \<and> namespaceKey S' = namespaceKey S \<and>
      dataStore S' = Some db' \<and> (\<forall>x. (\<forall>k. x \<noteq> prio_key (namespaceKey S) k) \<longrightarrow> db_Get R db' x = db_Get R db x)"
  proof (rule put_elems_repeated [OF R i p ns refl db])
    show "\<forall>e \<in> set (map put_element kvs). good_key (el_key e) \<and> db_Get R db (val_key (namespaceKey S) (el_key e)) = None \<and>
        db_Get R db (tomb_key (namespaceKey S) (el_key e) i) = None \<and>
        db_Get R db (prio_key (namespaceKey S) (el_key e)) = (if el_key e \<in> {} then Some (to_string (unat (p + 1))) else None)"
      using fresh_key_unread [OF R S db _ i] k c by (auto simp: put_element_def)
    show "\<not> (distinct (map el_key (map put_element kvs)) \<and> el_key ` set (map put_element kvs) \<inter> {} = {})"
      using d unfolding keys by simp
  qed
  then obtain S' db' where S': "put_elems_loop R S [] (map put_element kvs) i p = (S', Inl NOT_FOUND)"
      "namespaceKey S' = namespaceKey S" "dataStore S' = Some db'"
      "\<And>x. (\<forall>k. x \<noteq> prio_key (namespaceKey S) k) \<Longrightarrow> db_Get R db' x = db_Get R db x"
    by blast
  have "kvs \<noteq> []" using d by auto
  then have "Merge R S (Some (puts_delta kvs p)) i = (S', Inl NOT_FOUND)"
    using S'(1) db by (simp add: Merge_def PutTombs_def PutElems_def puts_delta_def)
  moreover have "GetElement R S' k = GetElement R S k" if "good_key k" for k
    using S'(4) by (rule GetElement_priorities [OF R ns S'(2) that db S'(3)])
  ultimately show ?thesis by blast
qed

section \<open>Properties\<close>


definition toy_dag :: dag_layer where
  "toy_dag = \<lparr>heads_height = \<lambda>topics. Inr 0, block_cid = \<lambda>delta. Inr ''Qm'', block_added = \<lambda>delta. Inr ()\<rparr>"


end
