(* ===== verification/Transaction_Manager.thy ===== *)
theory Transaction_Manager
  imports Transactions Std_Map Atomic_Transaction
begin

text \<open>
  \<^verbatim>\<open>src/account/TransactionManager.cpp\<close>: payments, mints and escrows of an account are queued, written
  to the shared database and parsed, which moves the unspent outputs of the account. What the node
  reads in the database (\<^verbatim>\<open>GlobalDB\<close>) is a map from keys to values. It is written through the transactions of
  \<open>Atomic_Transaction\<close>; what publishing a delta returns and does to the map is an argument, the record
  \<open>datastore\<close>. Its queries return keys in an order of its own, so the list of keys is an argument.
  The zero-knowledge prover is an argument as well; it returns nothing when proofs are disabled.
  An operation returns its result beside the state, which a failure may have changed already.
\<close>

section \<open>State\<close>

record tx_manager =
  tm_account :: GeniusAccount
  tm_full_node :: bool
  tx_queue :: "((transaction \<times> bytes option) list \<times> atomic_transaction option) list"
  outgoing_tx_processed :: "(string \<times> transaction) list"
  incoming_tx_processed :: "(string \<times> transaction) list"
  globaldb :: "string \<Rightarrow> bytes option"
  broadcasts :: "string set list"

type_synonym prover = "u64 \<Rightarrow> u64 \<Rightarrow> tx_error + bytes option"

definition full_node_topic :: string where
  "full_node_topic = ''SuperGNUSNode.TestNet.FullNode.963''"

definition upd_account :: "(GeniusAccount \<Rightarrow> GeniusAccount) \<Rightarrow> tx_manager \<Rightarrow> tx_manager" where
  "upd_account f m = m\<lparr>tm_account := f (tm_account m)\<rparr>"

section \<open>Creating transactions\<close>

definition EnqueueTransaction :: "((transaction \<times> bytes option) list \<times> atomic_transaction option) \<Rightarrow> tx_manager \<Rightarrow> tx_manager" where
  "EnqueueTransaction element m = m\<lparr>tx_queue := tx_queue m @ [element]\<rparr>"

definition EnqueueTransaction_pair :: "transaction \<times> bytes option \<Rightarrow> tx_manager \<Rightarrow> tx_manager" where
  "EnqueueTransaction_pair element m = EnqueueTransaction ([element], None) m"

definition FillDAGStruct :: "u64 \<Rightarrow> string \<Rightarrow> tx_manager \<Rightarrow> DAGStruct \<times> tx_manager" where
  "FillDAGStruct now transaction_hash m =
     (let nonce = acc_nonce (tm_account m) + 1;
          m = upd_account (\<lambda>a. a\<lparr>acc_nonce := nonce\<rparr>) m
      in (\<lparr>dag_type = '''', dag_previous_hash = transaction_hash, dag_source_addr = GetAddress (tm_account m),
           dag_nonce = nonce, dag_timestamp = now, dag_uncle_hash = '''', dag_data_hash = '''', dag_signature = ''''\<rparr>, m))"

definition TransferFunds :: "libraries \<Rightarrow> prover \<Rightarrow> u64 \<Rightarrow> u64 \<Rightarrow> string \<Rightarrow> TokenID \<Rightarrow> tx_manager \<Rightarrow> (tx_error + string) \<times> tx_manager" where
  "TransferFunds lib prove now amount destination token_id m =
     (case create_single (utxos (tm_account m)) (GetAddress (tm_account m)) amount destination token_id of
        None \<Rightarrow> (Inl TX_FAILURE, m)
      | Some params \<Rightarrow>
          let (dag, m) = FillDAGStruct now '''' m;
              tx = TransferTransaction_New lib (outputs params) (inputs params) dag
          in case prove (GetBalance (tm_account m)) amount of
               Inl e \<Rightarrow> (Inl e, m)
             | Inr maybe_proof \<Rightarrow>
                 (Inr (dag_data_hash (dag_st tx)),
                  EnqueueTransaction_pair (tx, maybe_proof)
                    (upd_account (\<lambda>a. a\<lparr>utxos := UpdateUTXOList (utxos a) params\<rparr>) m)))"

definition MintFunds :: "libraries \<Rightarrow> prover \<Rightarrow> u64 \<Rightarrow> u64 \<Rightarrow> string \<Rightarrow> string \<Rightarrow> TokenID \<Rightarrow> tx_manager \<Rightarrow> (tx_error + string) \<times> tx_manager" where
  "MintFunds lib prove now amount transaction_hash chainid tokenid m =
     (let (dag, m) = FillDAGStruct now transaction_hash m;
          tx = MintTransaction_New lib amount chainid tokenid dag
      in case prove 1000000000000 amount of
           Inl e \<Rightarrow> (Inl e, m)
         | Inr maybe_proof \<Rightarrow> (Inr (dag_data_hash (dag_st tx)), EnqueueTransaction_pair (tx, maybe_proof) m))"

definition escrow_address :: "libraries \<Rightarrow> string \<Rightarrow> string" where
  "escrow_address lib jid = ''0x'' @ toReadableString (blake2b_256 lib (map of_char jid))"

definition HoldEscrow :: "libraries \<Rightarrow> prover \<Rightarrow> u64 \<Rightarrow> u64 \<Rightarrow> string \<Rightarrow> u64 \<Rightarrow> string \<Rightarrow> tx_manager \<Rightarrow>
    (tx_error + (string \<times> string \<times> bytes)) \<times> tx_manager" where
  "HoldEscrow lib prove now amount dev pcut jid m =
     (case create_single (utxos (tm_account m)) (GetAddress (tm_account m)) amount (escrow_address lib jid) (FromBytes [0]) of
        None \<Rightarrow> (Inl TX_FAILURE, m)
      | Some params \<Rightarrow>
          let m = upd_account (\<lambda>a. a\<lparr>utxos := UpdateUTXOList (utxos a) params\<rparr>) m;
              (dag, m) = FillDAGStruct now '''' m;
              tx = EscrowTransaction_New lib params amount dev pcut dag
          in case prove (GetBalance (tm_account m)) amount of
               Inl e \<Rightarrow> (Inl e, m)
             | Inr maybe_proof \<Rightarrow>
                 (Inr (dag_data_hash (dag_st tx), escrow_address lib jid, SerializeByteVector (pb_ser lib) tx),
                  EnqueueTransaction_pair (tx, maybe_proof) m))"

definition FetchTransaction :: "libraries \<Rightarrow> (string \<Rightarrow> bytes option) \<Rightarrow> string \<Rightarrow> tx_error + transaction" where
  "FetchTransaction lib db key =
     (case db key of None \<Rightarrow> Inl TX_NOT_FOUND | Some data \<Rightarrow> DeSerializeTransaction lib data)"

record SubTaskResult =
  res_subtaskid :: string
  res_node_address :: string
  res_token_id :: bytes

text \<open>The loop that pays every peer its share and keeps the rest for the developer.\<close>

fun payout_loop :: "u64 \<Rightarrow> SubTaskResult list \<Rightarrow> OutputDestInfo list \<Rightarrow> u64 \<Rightarrow> OutputDestInfo list \<times> u64" where
  "payout_loop peers_amount [] payout_peers remainder = (payout_peers, remainder)"
| "payout_loop peers_amount (s # results) payout_peers remainder =
     payout_loop peers_amount results
       (payout_peers @ [\<lparr>encrypted_amount = peers_amount, dest_address = res_node_address s, out_token_id = FromBytes (res_token_id s)\<rparr>])
       (remainder - peers_amount)"

definition escrow_payouts :: "u64 \<Rightarrow> u64 \<Rightarrow> string \<Rightarrow> OutputDestInfo list \<Rightarrow> SubTaskResult list \<Rightarrow> tx_error + OutputDestInfo list" where
  "escrow_payouts amount pcut dev escrow_outputs results =
     (case TokenAmount_New amount of
        Inl e \<Rightarrow> Inl (TX_ARITHMETIC e)
      | Inr escrow_amount_ptr \<Rightarrow>
     (case TokenAmount_New pcut of
        Inl e \<Rightarrow> Inl (TX_ARITHMETIC e)
      | Inr peers_cut_ptr \<Rightarrow>
     (case TokenAmount_Multiply escrow_amount_ptr peers_cut_ptr of
        Inl e \<Rightarrow> Inl (TX_ARITHMETIC e)
      | Inr peer_total \<Rightarrow>
        if escrow_outputs = [] then Inl OUT_OF_BOUNDS
        else
          let token_id = out_token_id (hd escrow_outputs);
              peers_amount = minions peer_total div of_nat (length results);
              (payout_peers, remainder) = payout_loop peers_amount results [] amount
          in Inr (payout_peers @ [\<lparr>encrypted_amount = remainder, dest_address = dev, out_token_id = token_id\<rparr>]))))"

definition PayEscrow :: "libraries \<Rightarrow> prover \<Rightarrow> u64 \<Rightarrow> string \<Rightarrow> SubTaskResult list \<Rightarrow> atomic_transaction option \<Rightarrow> tx_manager \<Rightarrow>
    (tx_error + string) \<times> tx_manager" where
  "PayEscrow lib prove now escrow_path results crdt m =
     (if results = [] then (Inl TX_FAILURE, m)
      else if escrow_path = [] then (Inl TX_FAILURE, m)
      else case FetchTransaction lib (globaldb m) escrow_path of
        Inl e \<Rightarrow> (Inl e, m)
      | Inr (EscrowTransaction escrow_dag params amount dev pcut) \<Rightarrow>
          (case escrow_payouts amount pcut dev (outputs params) results of
             Inl e \<Rightarrow> (Inl e, m)
           | Inr payout_peers \<Rightarrow>
             (case fromReadableString 32 (dag_data_hash escrow_dag) of
                Inl e \<Rightarrow> (Inl e, m)
              | Inr escrow_hash \<Rightarrow>
                  let escrow_utxo_input = \<lparr>txid_hash = escrow_hash, output_idx = 0, input_signature = ''''\<rparr>;
                      (dag, m) = FillDAGStruct now '''' m;
                      transfer_tx = TransferTransaction_New lib payout_peers [escrow_utxo_input] dag
                  in case prove 1 1 of
                       Inl e \<Rightarrow> (Inl e, m)
                     | Inr transfer_proof \<Rightarrow>
                         let (dag, m) = FillDAGStruct now '''' m;
                             release_tx = EscrowReleaseTransaction_New lib params amount dev
                               (dag_source_addr escrow_dag) (dag_data_hash escrow_dag) dag
                         in case prove 1 1 of
                              Inl e \<Rightarrow> (Inl e, m)
                            | Inr release_proof \<Rightarrow>
                                (Inr (dag_data_hash (dag_st transfer_tx)),
                                 EnqueueTransaction ([(transfer_tx, transfer_proof), (release_tx, release_proof)], crdt) m)))
      | Inr _ \<Rightarrow> (Inl NULL_TRANSACTION, m))"

section \<open>Parsing transactions\<close>

fun transfer_loop :: "bool \<Rightarrow> string \<Rightarrow> u32 \<Rightarrow> OutputDestInfo list \<Rightarrow> GeniusAccount \<Rightarrow> string set \<Rightarrow> tx_error + (GeniusAccount \<times> string set)" where
  "transfer_loop notify hash i [] acc topics = Inr (acc, topics)"
| "transfer_loop notify hash i (d # dest_infos) acc topics =
     rbind (if dest_address d = GetAddress acc
            then rbind (fromReadableString 32 hash) (\<lambda>h.
              Inr (snd (PutUTXO (new_utxo h i (encrypted_amount d) (out_token_id d)) acc)))
            else Inr acc) (\<lambda>acc.
       transfer_loop notify hash (i + 1) dest_infos acc (if notify then insert (dest_address d) topics else topics))"

definition ParseTransferTransaction :: "DAGStruct \<Rightarrow> InputUTXOInfo list \<Rightarrow> OutputDestInfo list \<Rightarrow> tx_manager \<Rightarrow> tx_error + (string set \<times> tx_manager)" where
  "ParseTransferTransaction dag ins dest_infos m =
     (let acc = tm_account m;
          topics = {full_node_topic, GetAddress acc};
          notify = (dag_source_addr dag = GetAddress acc \<or> tm_full_node m)
      in rbind (transfer_loop notify (dag_data_hash dag) 0 dest_infos acc topics) (\<lambda>(acc, topics).
           let topics = (if tm_full_node m then insert (dag_source_addr dag) topics else topics)
           in Inr (topics, m\<lparr>tm_account := snd (RefreshUTXOs ins acc)\<rparr>)))"

definition ParseMintTransaction :: "DAGStruct \<Rightarrow> u64 \<Rightarrow> TokenID \<Rightarrow> tx_manager \<Rightarrow> tx_error + (string set \<times> tx_manager)" where
  "ParseMintTransaction dag amount tok m =
     (let acc = tm_account m;
          topics = {full_node_topic, GetAddress acc};
          topics = (if tm_full_node m then insert (dag_source_addr dag) topics else topics)
      in if dag_source_addr dag = GetAddress acc
         then rbind (fromReadableString 32 (dag_data_hash dag)) (\<lambda>h.
           Inr (topics, m\<lparr>tm_account := snd (PutUTXO (new_utxo h 0 amount tok) acc)\<rparr>))
         else Inr (topics, m))"

definition ParseEscrowTransaction :: "DAGStruct \<Rightarrow> UTXOTxParameters \<Rightarrow> tx_manager \<Rightarrow> tx_error + (string set \<times> tx_manager)" where
  "ParseEscrowTransaction dag params m =
     (let acc = tm_account m;
          topics = {full_node_topic, GetAddress acc};
          topics = (if tm_full_node m then insert (dag_source_addr dag) topics else topics)
      in if dag_source_addr dag = GetAddress acc \<and> outputs params \<noteq> []
         then rbind (fromReadableString 32 (dag_data_hash dag)) (\<lambda>h.
           let acc = (if length (outputs params) > 1 \<and> dest_address (outputs params ! 1) = GetAddress acc
                      then snd (PutUTXO (new_utxo h 1 (encrypted_amount (outputs params ! 1)) (out_token_id (outputs params ! 1))) acc)
                      else acc)
           in Inr (topics, m\<lparr>tm_account := snd (RefreshUTXOs (inputs params) acc)\<rparr>))
         else Inr (topics, m))"

definition ParseEscrowReleaseTransaction :: "DAGStruct \<Rightarrow> string \<Rightarrow> tx_manager \<Rightarrow> tx_error + (string set \<times> tx_manager)" where
  "ParseEscrowReleaseTransaction dag escrow_src m =
     (let topics = {full_node_topic, GetAddress (tm_account m)};
          topics = (if dag_source_addr dag = GetAddress (tm_account m) \<or> tm_full_node m then insert escrow_src topics else topics);
          topics = (if tm_full_node m then insert (dag_source_addr dag) topics else topics)
      in Inr (topics, m))"

fun ParseTransaction :: "transaction \<Rightarrow> tx_manager \<Rightarrow> tx_error + (string set \<times> tx_manager)" where
  "ParseTransaction (TransferTransaction d ins outs) m = ParseTransferTransaction d ins outs m"
| "ParseTransaction (MintTransaction d a c t) m = ParseMintTransaction d a t m"
| "ParseTransaction (EscrowTransaction d p a v c) m = ParseEscrowTransaction d p m"
| "ParseTransaction (EscrowReleaseTransaction d p a r s q) m = ParseEscrowReleaseTransaction d s m"
| "ParseTransaction (ProcessingTransaction d j s n) m = Inl TX_INVALID_ARGUMENT"

section \<open>Sending and receiving\<close>

definition tx_puts :: "libraries \<Rightarrow> transaction \<times> bytes option \<Rightarrow> (string \<times> bytes) list" where
  "tx_puts lib p =
     (HierarchicalKey (GetTransactionPath (fst p)), SerializeByteVector (pb_ser lib) (fst p)) #
     (case snd p of None \<Rightarrow> [] | Some proof \<Rightarrow> [(HierarchicalKey (GetTransactionProofPath (fst p)), proof)])"

fun send_parse_loop :: "(transaction \<times> bytes option) list \<Rightarrow> string set \<Rightarrow> tx_manager \<Rightarrow> (tx_error + string set) \<times> tx_manager" where
  "send_parse_loop [] topics m = (Inr topics, m)"
| "send_parse_loop (p # batch) topics m =
     (case ParseTransaction (fst p) m of
        Inl e \<Rightarrow> (Inl e, m)
      | Inr (parsed, m) \<Rightarrow>
          send_parse_loop batch (topics \<union> parsed)
            (m\<lparr>outgoing_tx_processed := smap_put (GetTransactionPath (fst p)) (fst p) (outgoing_tx_processed m)\<rparr>))"

text \<open>
  The puts into the transaction and its commit can fail; the item has left the queue by then, and
  parsing has already moved the outputs when the commit fails.
\<close>

definition SendTransaction :: "(string \<Rightarrow> bytes option) datastore \<Rightarrow> libraries \<Rightarrow> tx_manager \<Rightarrow> (tx_error + unit) \<times> tx_manager" where
  "SendTransaction ds lib m =
     (case tx_queue m of
        [] \<Rightarrow> (Inr (), m)
      | (batch, maybe_crdt) # queue \<Rightarrow>
          let m = m\<lparr>tx_queue := queue\<rparr>;
              crdt = (case maybe_crdt of None \<Rightarrow> AtomicTransaction | Some crdt \<Rightarrow> crdt)
          in case at_puts (concat (map (tx_puts lib) batch)) crdt of
               (Inl e, crdt) \<Rightarrow> (Inl TX_DATABASE, m)
             | (Inr _, crdt) \<Rightarrow>
                 (case send_parse_loop batch {} m of
                    (Inl e, m) \<Rightarrow> (Inl e, m)
                  | (Inr topics, m) \<Rightarrow>
                      (case at_Commit ds topics crdt (globaldb m) of
                         (Inl e, crdt, db) \<Rightarrow> (Inl TX_DATABASE, m\<lparr>globaldb := db\<rparr>)
                       | (Inr _, crdt, db) \<Rightarrow> (Inr (), m\<lparr>globaldb := db, broadcasts := broadcasts m @ [topics]\<rparr>))))"

text \<open>
  Errors that are values are skipped when the database is scanned; the others stand for
  exceptions and null pointers and end the scan.
\<close>

fun is_exception :: "tx_error \<Rightarrow> bool" where
  "is_exception TX_FAILURE = False"
| "is_exception TX_NOT_FOUND = False"
| "is_exception TX_INVALID_ARGUMENT = False"
| "is_exception TX_DATABASE = False"
| "is_exception _ = True"

fun CheckIncoming :: "libraries \<Rightarrow> string list \<Rightarrow> tx_manager \<Rightarrow> tx_error + tx_manager" where
  "CheckIncoming lib [] m = Inr m"
| "CheckIncoming lib (key # keys) m =
     (if map_of (incoming_tx_processed m) key \<noteq> None then CheckIncoming lib keys m
      else case FetchTransaction lib (globaldb m) key of
        Inl e \<Rightarrow> if is_exception e then Inl e else CheckIncoming lib keys m
      | Inr tx \<Rightarrow>
          (case ParseTransaction tx m of
             Inl e \<Rightarrow> if is_exception e then Inl e else CheckIncoming lib keys m
           | Inr (topics, m) \<Rightarrow>
               CheckIncoming lib keys (m\<lparr>incoming_tx_processed := smap_put key tx (incoming_tx_processed m)\<rparr>)))"

fun CheckOutgoing :: "libraries \<Rightarrow> string list \<Rightarrow> tx_manager \<Rightarrow> tx_error + tx_manager" where
  "CheckOutgoing lib [] m = Inr m"
| "CheckOutgoing lib (key # keys) m =
     (if map_of (outgoing_tx_processed m) key \<noteq> None then CheckOutgoing lib keys m
      else case FetchTransaction lib (globaldb m) key of
        Inl e \<Rightarrow> if is_exception e then Inl e else CheckOutgoing lib keys m
      | Inr tx \<Rightarrow>
          (case ParseTransaction tx m of
             Inl e \<Rightarrow> if is_exception e then Inl e else CheckOutgoing lib keys m
           | Inr (topics, m) \<Rightarrow>
               CheckOutgoing lib keys
                 ((upd_account (\<lambda>a. a\<lparr>acc_nonce := max (acc_nonce a) (dag_nonce (dag_st tx))\<rparr>) m)
                    \<lparr>outgoing_tx_processed := smap_put key tx (outgoing_tx_processed m)\<rparr>)))"

definition GetOutTransactions :: "libraries \<Rightarrow> tx_manager \<Rightarrow> bytes list" where
  "GetOutTransactions lib m = map (\<lambda>(k, tx). SerializeByteVector (pb_ser lib) tx) (outgoing_tx_processed m)"

definition GetInTransactions :: "libraries \<Rightarrow> tx_manager \<Rightarrow> bytes list" where
  "GetInTransactions lib m = map (\<lambda>(k, tx). SerializeByteVector (pb_ser lib) tx) (incoming_tx_processed m)"

text \<open>One look of the waiting loops at the processed transactions.\<close>

definition seen_incoming :: "string \<Rightarrow> tx_manager \<Rightarrow> bool" where
  "seen_incoming txId m = list_ex (\<lambda>(k, tx). dag_data_hash (dag_st tx) = txId) (incoming_tx_processed m)"

definition seen_outgoing :: "string \<Rightarrow> tx_manager \<Rightarrow> bool" where
  "seen_outgoing txId m = list_ex (\<lambda>(k, tx). dag_data_hash (dag_st tx) = txId) (outgoing_tx_processed m)"

definition seen_escrow_release :: "string \<Rightarrow> tx_manager \<Rightarrow> bool" where
  "seen_escrow_release originalEscrowId m =
     list_ex (\<lambda>(k, tx). case tx of EscrowReleaseTransaction d p a r s q \<Rightarrow> q = originalEscrowId | _ \<Rightarrow> False)
       (incoming_tx_processed m)"

section \<open>Filters of the database\<close>

text \<open>
  The filters that the manager registers: an element is kept when the result is \<open>Inr None\<close>,
  otherwise the listed keys are replaced by tombstones. An exception while the transaction is read
  leaves the filter. The proof filter leaves its checks before the proof is verified.
\<close>

definition tx_tombstones :: "string \<Rightarrow> transaction option \<Rightarrow> string list" where
  "tx_tombstones key tx = key # (case GetExpectedProofKey key tx of Inl err \<Rightarrow> [] | Inr proof_key \<Rightarrow> [proof_key])"

definition crdt_tx_filter :: "libraries \<Rightarrow> tx_manager \<Rightarrow> string \<times> bytes \<Rightarrow> tx_error + string list option" where
  "crdt_tx_filter lib m e =
     (if globaldb m (fst e) \<noteq> None then Inr None
      else case DeSerializeTransaction lib (snd e) of
        Inl err \<Rightarrow> if is_exception err then Inl err else Inr (Some (tx_tombstones (fst e) None))
      | Inr tx \<Rightarrow>
          if CheckDAGStructSignature lib (dag_st tx) then Inr None
          else Inr (Some (tx_tombstones (fst e) (Some tx))))"

definition crdt_proof_filter :: "tx_manager \<Rightarrow> string \<times> bytes \<Rightarrow> string list option" where
  "crdt_proof_filter m e =
     (let valid_proof = (if globaldb m (fst e) \<noteq> None then True else True)
      in if valid_proof = False
         then Some (fst e # (case GetExpectedTxKey (fst e) of Inl err \<Rightarrow> [] | Inr key \<Rightarrow> [key]))
         else None)"

section \<open>The rounds of the manager\<close>

definition GetTransactionBasePath :: "string \<Rightarrow> string" where
  "GetTransactionBasePath address = GetBlockChainBase @ address"

text \<open>With proofs disabled, \<open>verify\<close> is \<open>None\<close> and every transaction passes.\<close>

definition CheckProof :: "(bytes \<Rightarrow> tx_error + bool) option \<Rightarrow> tx_manager \<Rightarrow> transaction \<Rightarrow> tx_error + bool" where
  "CheckProof verify m tx =
     (case verify of
        None \<Rightarrow> Inr True
      | Some v \<Rightarrow> (case globaldb m (GetTransactionProofPath tx) of None \<Rightarrow> Inl TX_NOT_FOUND | Some proof_data \<Rightarrow> v proof_data))"

text \<open>
  One round: send, scan the outgoing and then the incoming transactions. Errors that are values are
  logged, an exception ends the round. The keys are what the two queries of the round return.
\<close>

definition Update :: "(string \<Rightarrow> bytes option) datastore \<Rightarrow> libraries \<Rightarrow> string list \<Rightarrow> string list \<Rightarrow> tx_manager \<Rightarrow> (tx_error + unit) \<times> tx_manager" where
  "Update ds lib out_keys in_keys m =
     (let (sent, m) = SendTransaction ds lib m in
      case (case sent of Inl e \<Rightarrow> if is_exception e then Some e else None | Inr _ \<Rightarrow> None) of
        Some e \<Rightarrow> (Inl e, m)
      | None \<Rightarrow>
          (case CheckOutgoing lib out_keys m of
             Inl e \<Rightarrow> (Inl e, m)
           | Inr m \<Rightarrow>
               (case CheckIncoming lib in_keys m of
                  Inl e \<Rightarrow> (Inl e, m)
                | Inr m \<Rightarrow> (Inr (), m))))"

text \<open>
  The waiting loops look at the processed transactions every 100 milliseconds. The states they see and the
  time that has passed after each sleep are the observations; the result is \<open>None\<close> while the loop goes on.
\<close>

fun WaitForTransactionIncoming :: "string \<Rightarrow> nat \<Rightarrow> (tx_manager \<times> nat) list \<Rightarrow> bool option" where
  "WaitForTransactionIncoming txId timeout [] = None"
| "WaitForTransactionIncoming txId timeout ((m, elapsed) # obs) =
     (if seen_incoming txId m then Some True
      else if elapsed < timeout then WaitForTransactionIncoming txId timeout obs
      else Some False)"

fun WaitForTransactionOutgoing :: "string \<Rightarrow> nat \<Rightarrow> (tx_manager \<times> nat) list \<Rightarrow> bool option" where
  "WaitForTransactionOutgoing txId timeout [] = None"
| "WaitForTransactionOutgoing txId timeout ((m, elapsed) # obs) =
     (if seen_outgoing txId m then Some True
      else if elapsed < timeout then WaitForTransactionOutgoing txId timeout obs
      else Some False)"

text \<open>This loop tests the time first: an observation is the time before the look and the state it sees.\<close>

fun WaitForEscrowRelease :: "string \<Rightarrow> nat \<Rightarrow> (nat \<times> tx_manager) list \<Rightarrow> bool option" where
  "WaitForEscrowRelease originalEscrowId timeout [] = None"
| "WaitForEscrowRelease originalEscrowId timeout ((elapsed, m) # obs) =
     (if \<not> elapsed < timeout then Some False
      else if seen_escrow_release originalEscrowId m then Some True
      else WaitForEscrowRelease originalEscrowId timeout obs)"

section \<open>Payments never share an input\<close>

fun tx_inputs :: "transaction \<Rightarrow> InputUTXOInfo list" where
  "tx_inputs (TransferTransaction d ins outs) = ins"
| "tx_inputs (EscrowTransaction d p a v c) = inputs p"
| "tx_inputs _ = []"

definition queue_inputs :: "tx_manager \<Rightarrow> InputUTXOInfo list" where
  "queue_inputs m = concat (map (\<lambda>(batch, c). concat (map (\<lambda>(tx, p). tx_inputs tx) batch)) (tx_queue m))"

inductive pay_step :: "libraries \<Rightarrow> prover \<Rightarrow> tx_manager \<Rightarrow> tx_manager \<Rightarrow> bool" for lib prove where
  transfer: "TransferFunds lib prove now amount dest tok m = (r, m') \<Longrightarrow> pay_step lib prove m m'"
| escrow: "HoldEscrow lib prove now amount dev pcut jid m = (r', m') \<Longrightarrow> pay_step lib prove m m'"
| mint: "MintFunds lib prove now amount hash chain tok m = (r, m') \<Longrightarrow> pay_step lib prove m m'"

definition pay_inv :: "tx_manager \<Rightarrow> bool" where
  "pay_inv m \<longleftrightarrow> distinct (map outpoint (utxos (tm_account m))) \<and> distinct (map in_outpoint (queue_inputs m)) \<and>
     (\<forall>i \<in> set (queue_inputs m). \<exists>u \<in> set (utxos (tm_account m)). outpoint u = in_outpoint i \<and> GetLock u)"

lemma select_utxos_subseq:
  "select_utxos tok amount pool used = (sel, used') \<Longrightarrow> subseq sel pool \<and> list_all (\<lambda>u. \<not> GetLock u) sel"
proof (induction tok amount pool used arbitrary: sel used' rule: select_utxos.induct)
  case (2 tok amount u pool used)
  then show ?case
    by (auto simp: Let_def split: if_splits prod.splits)
qed simp

lemma create_single_subseq:
  assumes "create_single pool src amount dest tok = Some params"
  obtains sel where "inputs params = map input_of sel" "subseq sel pool" "list_all (\<lambda>u. \<not> GetLock u) sel"
proof -
  obtain sel used where s: "select_utxos tok amount pool 0 = (sel, used)"
    by fastforce
  have "inputs params = map input_of sel"
    using assms by (auto simp: create_single_def UTXOTxParameters_single_def s Let_def split: if_splits)
  then show ?thesis
    using that select_utxos_subseq [OF s] by blast
qed

lemma outpoint_unique: "distinct (map outpoint us) \<Longrightarrow> u \<in> set us \<Longrightarrow> v \<in> set us \<Longrightarrow> outpoint u = outpoint v \<Longrightarrow> u = v"
  by (simp add: distinct_map inj_on_def)

lemma pay_inv_lock:
  assumes "pay_inv m" "utxos (tm_account m') = UpdateUTXOList (utxos (tm_account m)) params" "tx_queue m' = tx_queue m"
  shows "pay_inv m'"
proof -
  have q: "queue_inputs m' = queue_inputs m"
    by (simp add: queue_inputs_def assms(3))
  have "\<exists>u \<in> set (utxos (tm_account m')). outpoint u = in_outpoint i \<and> GetLock u" if i: "i \<in> set (queue_inputs m)" for i
  proof -
    obtain u where "u \<in> set (utxos (tm_account m))" "outpoint u = in_outpoint i" "GetLock u"
      using assms(1) i by (auto simp: pay_inv_def)
    then show ?thesis
      by (intro bexI [of _ "if GetTxID u \<in> txid_hash ` set (inputs params) then ToggleLock True u else u"])
         (auto simp: assms(2) UpdateUTXOList_eq ToggleLock_def outpoint_def)
  qed
  then show ?thesis
    using assms(1) by (simp add: pay_inv_def q assms(2))
qed

lemma pay_inv_spend:
  assumes "pay_inv m" "create_single (utxos (tm_account m)) src amount dest tok = Some params"
    and "utxos (tm_account m') = UpdateUTXOList (utxos (tm_account m)) params"
    and "tx_queue m' = tx_queue m @ [([(tx, p)], None)]" "tx_inputs tx = inputs params"
  shows "pay_inv m'"
proof -
  let ?us = "utxos (tm_account m)"
  obtain sel where sel: "inputs params = map input_of sel" "subseq sel ?us" "list_all (\<lambda>u. \<not> GetLock u) sel"
    using assms(2) by (rule create_single_subseq)
  have sub: "set sel \<subseteq> set ?us"
    using sel(2) by (auto simp: set_nths subseq_conv_nths)
  have dist: "distinct (map outpoint ?us)"
    using assms(1) by (simp add: pay_inv_def)
  have q: "queue_inputs m' = queue_inputs m @ inputs params"
    by (simp add: queue_inputs_def assms(4,5))
  have "distinct (map outpoint sel)"
    using dist subseq_map [OF sel(2), of outpoint] by (auto simp: subseq_conv_nths distinct_nthsI)
  moreover have "in_outpoint i \<noteq> outpoint u" if i: "i \<in> set (queue_inputs m)" and u: "u \<in> set sel" for i u
  proof -
    obtain v where "v \<in> set ?us" "outpoint v = in_outpoint i" "GetLock v"
      using assms(1) i by (auto simp: pay_inv_def)
    moreover have "u \<in> set ?us" "\<not> GetLock u"
      using u sub sel(3) by (auto simp: list_all_iff)
    ultimately show ?thesis
      using outpoint_unique [OF dist, of v u] by auto
  qed
  ultimately have "in_outpoint ` set (queue_inputs m) \<inter> outpoint ` set sel = {}" "distinct (map outpoint sel)"
    by blast+
  then have d: "distinct (map in_outpoint (queue_inputs m'))"
    using assms(1) by (simp add: q sel(1) pay_inv_def comp_def image_comp)
  have q0: "queue_inputs (m'\<lparr>tx_queue := tx_queue m\<rparr>) = queue_inputs m"
    by (simp add: queue_inputs_def)
  have "pay_inv (m'\<lparr>tx_queue := tx_queue m\<rparr>)"
    using assms(3) by (intro pay_inv_lock [OF assms(1), of _ params]) simp_all
  then have old: "\<exists>u \<in> set (utxos (tm_account m')). outpoint u = in_outpoint i \<and> GetLock u" if "i \<in> set (queue_inputs m)" for i
    using that q0 by (simp add: pay_inv_def)
  have "\<exists>u \<in> set (utxos (tm_account m')). outpoint u = in_outpoint i \<and> GetLock u" if i: "i \<in> set (inputs params)" for i
  proof -
    obtain u where u: "u \<in> set sel" "i = input_of u"
      using i sel(1) by auto
    then have "ToggleLock True u \<in> set (utxos (tm_account m'))"
      using sub sel(1) by (force simp: assms(3) UpdateUTXOList_eq input_of_def)
    then show ?thesis
      using u(2) by (intro bexI [of _ "ToggleLock True u"]) (simp_all add: ToggleLock_def outpoint_def in_outpoint_def input_of_def)
  qed
  then show ?thesis
    using d old dist by (auto simp: pay_inv_def q assms(3))
qed

lemma finish_tx_inputs [simp]: "tx_inputs (finish_tx lib tx) = tx_inputs tx"
  by (cases tx) (simp_all add: finish_tx_def MakeSignature_def FillHash_def Let_def)

lemma FillDAGStruct_state:
  "FillDAGStruct now h m = (dag, m') \<Longrightarrow>
     utxos (tm_account m') = utxos (tm_account m) \<and> tx_queue m' = tx_queue m \<and> GetAddress (tm_account m') = GetAddress (tm_account m)"
  by (auto simp: FillDAGStruct_def upd_account_def Let_def)

lemma pay_inv_same:
  "pay_inv m \<Longrightarrow> utxos (tm_account m') = utxos (tm_account m) \<Longrightarrow> queue_inputs m' = queue_inputs m \<Longrightarrow> pay_inv m'"
  by (simp add: pay_inv_def)

lemma pay_inv_transfer:
  assumes "TransferFunds lib prove now amount dest tok m = (r, m')" "pay_inv m"
  shows "pay_inv m'"
proof (cases "create_single (utxos (tm_account m)) (GetAddress (tm_account m)) amount dest tok")
  case (Some params)
  obtain dag m1 where d: "FillDAGStruct now '''' m = (dag, m1)"
    by fastforce
  note st = FillDAGStruct_state [OF d]
  show ?thesis
  proof (cases "prove (GetBalance (tm_account m1)) amount")
    case (Inl e)
    then have "m' = m1"
      using assms(1) Some d by (simp add: TransferFunds_def)
    then show ?thesis
      using st by (intro pay_inv_same [OF assms(2)]) (simp_all add: queue_inputs_def)
  next
    case (Inr p)
    then have "m' = EnqueueTransaction_pair (TransferTransaction_New lib (outputs params) (inputs params) dag, p)
        (upd_account (\<lambda>a. a\<lparr>utxos := UpdateUTXOList (utxos a) params\<rparr>) m1)"
      using assms(1) Some d by (auto simp: TransferFunds_def Let_def)
    then show ?thesis
      using st by (intro pay_inv_spend [OF assms(2) Some, where p = p and
            tx = "TransferTransaction_New lib (outputs params) (inputs params) dag"])
        (simp_all add: EnqueueTransaction_pair_def EnqueueTransaction_def upd_account_def TransferTransaction_New_def)
  qed
qed (use assms in \<open>simp add: TransferFunds_def\<close>)

lemma pay_inv_escrow:
  assumes "HoldEscrow lib prove now amount dev pcut jid m = (r, m')" "pay_inv m"
  shows "pay_inv m'"
proof (cases "create_single (utxos (tm_account m)) (GetAddress (tm_account m)) amount (escrow_address lib jid) (FromBytes [0])")
  case (Some params)
  let ?m = "upd_account (\<lambda>a. a\<lparr>utxos := UpdateUTXOList (utxos a) params\<rparr>) m"
  obtain dag m1 where d: "FillDAGStruct now '''' ?m = (dag, m1)"
    by fastforce
  have st: "utxos (tm_account m1) = UpdateUTXOList (utxos (tm_account m)) params" "tx_queue m1 = tx_queue m"
    using FillDAGStruct_state [OF d] by (simp_all add: upd_account_def)
  show ?thesis
  proof (cases "prove (GetBalance (tm_account m1)) amount")
    case (Inl e)
    then have "m' = m1"
      using assms(1) Some d by (simp add: HoldEscrow_def Let_def)
    then show ?thesis
      using pay_inv_lock [OF assms(2) st] by simp
  next
    case (Inr p)
    then have "m' = EnqueueTransaction_pair (EscrowTransaction_New lib params amount dev pcut dag, p) m1"
      using assms(1) Some d by (simp add: HoldEscrow_def Let_def)
    then show ?thesis
      using st by (intro pay_inv_spend [OF assms(2) Some, where p = p and
            tx = "EscrowTransaction_New lib params amount dev pcut dag"])
        (simp_all add: EnqueueTransaction_pair_def EnqueueTransaction_def EscrowTransaction_New_def)
  qed
qed (use assms in \<open>simp add: HoldEscrow_def\<close>)

lemma pay_inv_mint:
  assumes "MintFunds lib prove now amount hash chain tok m = (r, m')" "pay_inv m"
  shows "pay_inv m'"
proof -
  obtain dag m1 where d: "FillDAGStruct now hash m = (dag, m1)"
    by fastforce
  have "utxos (tm_account m') = utxos (tm_account m) \<and> queue_inputs m' = queue_inputs m"
    using assms(1) FillDAGStruct_state [OF d]
    by (auto simp: MintFunds_def d Let_def EnqueueTransaction_pair_def EnqueueTransaction_def queue_inputs_def
        MintTransaction_New_def split: sum.splits)
  then show ?thesis
    by (intro pay_inv_same [OF assms(2)]) simp_all
qed

lemma pay_inv_step: "pay_step lib prove m m' \<Longrightarrow> pay_inv m \<Longrightarrow> pay_inv m'"
  by (induction rule: pay_step.induct) (auto intro: pay_inv_transfer pay_inv_escrow pay_inv_mint)

lemma pay_inv_run: "(pay_step lib prove)\<^sup>*\<^sup>* m m' \<Longrightarrow> pay_inv m \<Longrightarrow> pay_inv m'"
  by (induction rule: rtranclp_induct) (auto intro: pay_inv_step)

section \<open>Settling a transfer\<close>

lemma filter_subseq_distinct: "distinct ys \<Longrightarrow> subseq xs ys \<Longrightarrow> filter (\<lambda>x. x \<in> set xs) ys = xs"
proof (induction ys arbitrary: xs)
  case (Cons y ys)
  show ?case
  proof (cases "\<exists>xs'. xs = y # xs' \<and> subseq xs' ys")
    case True
    then obtain xs' where xs: "xs = y # xs'" "subseq xs' ys"
      by blast
    have "filter (\<lambda>x. x \<in> set xs) ys = filter (\<lambda>x. x \<in> set xs') ys"
      using Cons.prems(1) by (intro filter_cong) (auto simp: xs(1))
    then show ?thesis
      using Cons.IH [of xs'] Cons.prems(1) xs by simp
  next
    case False
    then have "subseq xs ys"
      using Cons.prems(2) by (cases xs) (auto split: if_splits)
    moreover from this have "y \<notin> set xs"
      using Cons.prems(1) by (auto simp: subseq_conv_nths dest: in_set_nthsD)
    ultimately show ?thesis
      using Cons by simp
  qed
qed (auto dest: list_emb_Nil2)

lemma utxo_total_split: "utxo_total us = utxo_total (filter P us) + utxo_total (filter (\<lambda>u. \<not> P u) us)"
  by (induction us) auto

lemma spent_total:
  assumes "distinct (map outpoint pool)" "subseq sel pool"
  shows "utxo_total (filter (\<lambda>u. outpoint u \<notin> outpoint ` set sel) pool) + utxo_total sel = utxo_total pool"
proof -
  have sub: "set sel \<subseteq> set pool"
    using assms(2) by (auto simp: set_nths subseq_conv_nths)
  have "filter (\<lambda>u. outpoint u \<in> outpoint ` set sel) pool = filter (\<lambda>u. u \<in> set sel) pool"
    using sub outpoint_unique [OF assms(1)] by (intro filter_cong) auto
  also have "\<dots> = sel"
    using assms by (intro filter_subseq_distinct) (auto simp: distinct_map)
  finally show ?thesis
    using utxo_total_split [of pool "\<lambda>u. outpoint u \<in> outpoint ` set sel"] by simp
qed

lemma spent_total_locked:
  "utxo_total (filter (\<lambda>u. outpoint u \<notin> S) (UpdateUTXOList pool params)) = utxo_total (filter (\<lambda>u. outpoint u \<notin> S) pool)"
  unfolding UpdateUTXOList_eq by (induction pool) (auto simp: ToggleLock_def outpoint_def)

lemma refresh_outpoints:
  "list_ex (\<lambda>a. txid_hash a = GetTxID u \<and> output_idx a = GetOutputIdx u) ins \<longleftrightarrow> outpoint u \<in> in_outpoint ` set ins"
  by (auto simp: list_ex_iff outpoint_def in_outpoint_def image_iff intro: sym bexI [rotated])

lemma refresh_inputs:
  "list_ex (\<lambda>a. txid_hash a = GetTxID u \<and> output_idx a = GetOutputIdx u) (map input_of sel) \<longleftrightarrow> outpoint u \<in> outpoint ` set sel"
  unfolding refresh_outpoints by (simp add: image_comp comp_def)

lemma finish_transfer:
  "\<exists>dag'. finish_tx lib (TransferTransaction dag ins outs) = TransferTransaction dag' ins outs \<and>
    dag_source_addr dag' = dag_source_addr dag \<and> dag_data_hash dag' \<in> range (\<lambda>x. toReadableString (blake2b_256 lib x))"
  by (simp add: finish_tx_def MakeSignature_def FillHash_def Let_def)

text \<open>What parsing an own transfer with the outputs of \<open>create\<close> does to the account.\<close>

lemma parse_own_transfer:
  assumes "length h = 32" "dag_data_hash dag = toReadableString h" "dag_source_addr dag = GetAddress (tm_account m)"
    and "dest \<noteq> GetAddress (tm_account m)" "\<forall>u \<in> set (utxos (tm_account m)). GetTxID u \<noteq> h"
    and "h \<notin> GetTxID ` set sel"
  shows "\<exists>topics m'. ParseTransaction (TransferTransaction dag (map input_of sel)
        (\<lparr>encrypted_amount = a, dest_address = dest, out_token_id = tok\<rparr> #
         (if c = 0 then [] else [\<lparr>encrypted_amount = c, dest_address = GetAddress (tm_account m), out_token_id = tok\<rparr>]))) m =
      Inr (topics, m') \<and>
      utxo_total (utxos (tm_account m')) = utxo_total (filter (\<lambda>u. outpoint u \<notin> outpoint ` set sel) (utxos (tm_account m))) + unat c \<and>
      tx_queue m' = tx_queue m \<and> globaldb m' = globaldb m"
proof -
  have h: "fromReadableString 32 (toReadableString h) = Inr h"
    using fromReadableString_toReadableString [of h] assms(1) by simp
  have new: "\<not> list_ex (\<lambda>curr. h = GetTxID curr \<and> i = GetOutputIdx curr) (utxos (tm_account m))"
    "\<not> list_ex (\<lambda>curr. h = GetTxID curr \<and> GetOutputIdx curr = i) (utxos (tm_account m))" for i
    using assms(5) by (auto simp: list_ex_iff)
  have out: "(h, i) \<notin> outpoint ` set sel" for i
    using assms(6) by (auto simp: outpoint_def image_iff)
  show ?thesis
    using assms(2-4)
    by (auto simp: ParseTransferTransaction_def Let_def h PutUTXO_def new new_utxo_def RefreshUTXOs_def refresh_inputs
        outpoint_def [of "\<lparr>GetTxID = h, GetOutputIdx = _, GetAmount = _, GetLock = _, GetTokenID = _\<rparr>"] out)
qed

section \<open>Properties\<close>

text \<open>
  C8. No output is spent twice: from a state with an empty queue and pairwise different outputs,
  whatever transfers, escrows and mints follow, successful or failed, the transactions in the
  queue never have an input in common, neither with each other nor within one transaction.
\<close>

theorem payments_never_share_inputs:
  assumes "(pay_step lib prove)\<^sup>*\<^sup>* m m'" "tx_queue m = []" "distinct (map outpoint (utxos (tm_account m)))"
  shows "distinct (map in_outpoint (queue_inputs m'))"
proof -
  have "pay_inv m"
    using assms(2,3) by (simp add: pay_inv_def queue_inputs_def)
  then have "pay_inv m'"
    using assms(1) pay_inv_run by blast
  then show ?thesis
    by (simp add: pay_inv_def)
qed

definition toy_lib :: libraries where
  "toy_lib = \<lparr>pb_ser = \<lambda>_. [], pb_parse = \<lambda>_ _. None, pb_dag = \<lambda>_. None, blake2b_256 = \<lambda>_. replicate 32 7,
     ecdsa_sign = \<lambda>_. replicate 64 CHR ''s'', ecdsa_verify = \<lambda>_ _. True\<rparr>"

definition toy_manager :: "GeniusUTXO list \<Rightarrow> tx_manager" where
  "toy_manager us = \<lparr>tm_account = \<lparr>GetAddress = ''me'', acc_token = TokenID_default, acc_nonce = 0, utxos = us\<rparr>,
     tm_full_node = False, tx_queue = [], outgoing_tx_processed = [], incoming_tx_processed = [],
     globaldb = Map.empty, broadcasts = []\<rparr>"

theorem payments_never_share_inputs_witness:
  "\<exists>m'. TransferFunds toy_lib (\<lambda>_ _. Inr None) 0 3 ''you'' TokenID_default
      (toy_manager [new_utxo [1] 0 5 TokenID_default]) = (Inr (toReadableString (replicate 32 7)), m') \<and>
     distinct (map in_outpoint (queue_inputs m')) \<and> queue_inputs m' \<noteq> []"
proof -
  let ?m = "toy_manager [new_utxo [1] 0 5 TokenID_default]"
  obtain r m' where t: "TransferFunds toy_lib (\<lambda>_ _. Inr None) 0 3 ''you'' TokenID_default ?m = (r, m')"
    by fastforce
  then have "pay_step toy_lib (\<lambda>_ _. Inr None) ?m m'"
    by (rule pay_step.transfer)
  then have "(pay_step toy_lib (\<lambda>_ _. Inr None))\<^sup>*\<^sup>* ?m m'"
    by blast
  then have "distinct (map in_outpoint (queue_inputs m'))"
    by (rule payments_never_share_inputs) (simp_all add: toy_manager_def)
  moreover have "r = Inr (toReadableString (replicate 32 7)) \<and> queue_inputs m' \<noteq> []"
    using t by (auto simp: TransferFunds_def toy_manager_def create_single_def UTXOTxParameters_single_def new_utxo_def
        Equals_def Let_def FillDAGStruct_def upd_account_def queue_inputs_def EnqueueTransaction_pair_def
        EnqueueTransaction_def TransferTransaction_New_def finish_tx_def MakeSignature_def FillHash_def toy_lib_def)
  ultimately show ?thesis
    using t by blast
qed

lemma TransferFunds_cases:
  assumes "TransferFunds lib prove now amount dest tok m = (Inr txid, m1)"
  obtains params dag p where "create_single (utxos (tm_account m)) (GetAddress (tm_account m)) amount dest tok = Some params"
    "dag_source_addr dag = GetAddress (tm_account m)"
    "txid = dag_data_hash (dag_st (TransferTransaction_New lib (outputs params) (inputs params) dag))"
    "tx_queue m1 = tx_queue m @ [([(TransferTransaction_New lib (outputs params) (inputs params) dag, p)], None)]"
    "utxos (tm_account m1) = UpdateUTXOList (utxos (tm_account m)) params"
    "GetAddress (tm_account m1) = GetAddress (tm_account m)" "globaldb m1 = globaldb m"
proof (cases "create_single (utxos (tm_account m)) (GetAddress (tm_account m)) amount dest tok")
  case (Some params)
  obtain dag m' where d: "FillDAGStruct now '''' m = (dag, m')"
    by fastforce
  have "dag_source_addr dag = GetAddress (tm_account m)"
    using d by (auto simp: FillDAGStruct_def Let_def upd_account_def)
  moreover have "globaldb m' = globaldb m"
    using d by (auto simp: FillDAGStruct_def Let_def upd_account_def)
  ultimately show ?thesis
    using assms Some d FillDAGStruct_state [OF d]
    by (intro that [OF Some, where dag = dag and p = "projr (prove (GetBalance (tm_account m')) amount)"])
       (auto simp: TransferFunds_def Let_def upd_account_def EnqueueTransaction_pair_def EnqueueTransaction_def split: sum.splits)
qed (use assms in \<open>simp add: TransferFunds_def\<close>)

lemma create_single_shape:
  assumes "create_single pool src amount dest tok = Some params" "utxo_total pool < 2 ^ 64"
  obtains sel c where "subseq sel pool" "inputs params = map input_of sel"
    "outputs params = \<lparr>encrypted_amount = amount, dest_address = dest, out_token_id = tok\<rparr> #
         (if c = 0 then [] else [\<lparr>encrypted_amount = c, dest_address = src, out_token_id = tok\<rparr>])"
    "unat amount + unat c = utxo_total sel"
proof -
  obtain sel where sel: "prefix sel (filter (spendable tok) pool)" "inputs params = map input_of sel"
      "unat amount \<le> utxo_total sel"
      "outputs params = \<lparr>encrypted_amount = amount, dest_address = dest, out_token_id = tok\<rparr> #
          (if utxo_total sel = unat amount then []
           else [\<lparr>encrypted_amount = of_nat (utxo_total sel - unat amount), dest_address = src, out_token_id = tok\<rparr>])"
    using create_single_cases [OF assms(2), where src = src and amount = amount and dest = dest and tok = tok] assms(1) by auto
  have "utxo_total sel \<le> utxo_total pool"
    using sel(1) total_filter_le [of "spendable tok" pool] by (auto simp: prefix_def)
  then have u: "unat (of_nat (utxo_total sel - unat amount) :: u64) = utxo_total sel - unat amount"
    using assms(2) by (intro unat_of_nat_eq) simp
  then have z: "(of_nat (utxo_total sel - unat amount) :: u64) = 0 \<longleftrightarrow> utxo_total sel = unat amount"
    using sel(3) by (simp only: unat_eq_zero [symmetric]) simp
  have "subseq sel pool"
    using prefix_imp_subseq [OF sel(1)] subseq_filter_left [of "spendable tok" pool] by (rule subseq_order.trans)
  then show ?thesis
    using sel(2,3,4) u z by (intro that [of sel "of_nat (utxo_total sel - unat amount)"]) simp_all
qed

lemma tx_paths_differ: "GetTransactionProofPath tx \<noteq> GetTransactionPath tx"
  by (simp add: GetTransactionProofPath_def GetTransactionPath_def GetProofFullPath_def GetTransactionFullPath_def)

lemma smap_put_mem: "(k, v) \<in> set (smap_put k v m)"
  by (induction k v m rule: smap_put.induct) auto

lemma to_string_last: "last (to_string n) \<noteq> CHR ''/''"
  using to_string_no_slash [of n] last_in_set [OF to_string_ne] by metis

lemma HierarchicalKey_path:
  "HierarchicalKey (GetTransactionPath tx) = GetTransactionPath tx"
  "HierarchicalKey (GetTransactionProofPath tx) = GetTransactionProofPath tx"
  using to_string_last
  by (simp_all add: HierarchicalKey_def GetTransactionPath_def GetTransactionProofPath_def GetTransactionFullPath_def
      GetProofFullPath_def GetBlockChainBase_def Let_def)

text \<open>
  What the manager relies on when publishing succeeds: every key of a delta without repeated keys
  then reads as its value.
\<close>

definition publish_ok :: "(string \<Rightarrow> bytes option) datastore \<Rightarrow> bool" where
  "publish_ok ds \<longleftrightarrow> (\<forall>d topics db db'. ds_Publish ds d topics db = (Inr (), db') \<longrightarrow>
     distinct (map el_key (elements d)) \<longrightarrow> (\<forall>e \<in> set (elements d). db' (el_key e) = Some (map of_char (el_value e))))"

lemma of_char_toString: "map of_char (toString bs) = bs"
proof -
  have "(of_char (char_of (unat b)) :: byte) = b" for b :: byte
  proof -
    have "(of_char (char_of (unat b)) :: byte) = of_nat (of_char (char_of (unat b)))"
      by (simp only: of_nat_of_char)
    also have "\<dots> = of_nat (unat b mod 256)"
      by (simp only: of_char_of)
    also have "unat b mod 256 = unat b"
      using unsigned_less [where 'a = nat and w = b] by simp
    finally show ?thesis
      by simp
  qed
  then show ?thesis
    by (simp add: toString_def map_idI)
qed

text \<open>Sending a queue of one transaction, up to the outcome of publishing its delta.\<close>

definition tx_delta :: "libraries \<Rightarrow> transaction \<times> bytes option \<Rightarrow> delta" where
  "tx_delta lib p = \<lparr>elements = map put_element (tx_puts lib p), tombstones = [], priority = 0\<rparr>"

lemma SendTransaction_single:
  assumes "tx_queue m = [([(tx, p)], None)]" "ParseTransaction tx (m\<lparr>tx_queue := []\<rparr>) = Inr (topics, m')" "tx_queue m' = []"
    and "ds_Publish ds (tx_delta lib (tx, p)) topics (globaldb m') = (r, db)"
  shows "\<exists>m2. SendTransaction ds lib m = (case r of Inl e \<Rightarrow> Inl TX_DATABASE | Inr _ \<Rightarrow> Inr (), m2) \<and> tm_account m2 = tm_account m' \<and>
    globaldb m2 = db \<and> seen_outgoing (dag_data_hash (dag_st tx)) m2 \<and> tx_queue m2 = []"
proof -
  let ?m = "m'\<lparr>outgoing_tx_processed := smap_put (GetTransactionPath tx) tx (outgoing_tx_processed m')\<rparr>"
  have s: "seen_outgoing (dag_data_hash (dag_st tx)) ?m"
    using smap_put_mem by (force simp: seen_outgoing_def list_ex_iff)
  let ?t = "\<lparr>operations = map put_op (tx_puts lib (tx, p)), modified_keys = fst ` set (tx_puts lib (tx, p)), is_committed = False\<rparr>"
  have "at_puts (tx_puts lib (tx, p)) AtomicTransaction = (Inr (), ?t)"
    by (simp add: at_puts_open AtomicTransaction_def)
  moreover have "at_Commit ds topics ?t (globaldb ?m) =
      (case r of Inl e \<Rightarrow> (Inl e, ?t, db) | Inr _ \<Rightarrow> (Inr (), ?t\<lparr>is_committed := True\<rparr>, db))"
    using assms(4) at_Commit_puts [of ?t "tx_puts lib (tx, p)" ds topics "globaldb ?m"]
    by (cases r) (simp_all add: tx_delta_def)
  ultimately have "SendTransaction ds lib m = (case r of
      Inl e \<Rightarrow> (Inl TX_DATABASE, ?m\<lparr>globaldb := db\<rparr>) | Inr _ \<Rightarrow> (Inr (), ?m\<lparr>globaldb := db, broadcasts := broadcasts m' @ [topics]\<rparr>))"
    using assms(1,2) by (cases r) (simp_all add: SendTransaction_def)
  then show ?thesis
    using s assms(3) by (cases r) (simp_all add: seen_outgoing_def)
qed

lemma published_path:
  assumes "publish_ok ds" "ds_Publish ds (tx_delta lib (tx, p)) topics db = (Inr (), db')"
  shows "db' (GetTransactionPath tx) = Some (SerializeByteVector (pb_ser lib) tx)"
proof -
  have "distinct (map el_key (elements (tx_delta lib (tx, p))))"
    using tx_paths_differ [of tx]
    by (auto simp: tx_delta_def tx_puts_def put_element_def HierarchicalKey_path split: option.split)
  moreover have "put_element (GetTransactionPath tx, SerializeByteVector (pb_ser lib) tx) \<in> set (elements (tx_delta lib (tx, p)))"
    by (simp add: tx_delta_def tx_puts_def HierarchicalKey_path)
  ultimately have "db' (el_key (put_element (GetTransactionPath tx, SerializeByteVector (pb_ser lib) tx))) =
      Some (map of_char (el_value (put_element (GetTransactionPath tx, SerializeByteVector (pb_ser lib) tx))))"
    using assms unfolding publish_ok_def by blast
  then show ?thesis
    by (simp add: put_element_def of_char_toString)
qed

lemma TransferTransaction_New_shape:
  assumes "\<forall>x. length (blake2b_256 lib x) = 32"
  obtains dag' h where "TransferTransaction_New lib outs ins dag = TransferTransaction dag' ins outs"
    "dag_source_addr dag' = dag_source_addr dag" "dag_data_hash dag' = toReadableString h" "length h = 32"
proof -
  obtain dag' where d: "TransferTransaction_New lib outs ins dag = TransferTransaction dag' ins outs"
      "dag_source_addr dag' = dag_source_addr (SetDAGWithType dag ''transfer'')"
      "dag_data_hash dag' \<in> range (\<lambda>x. toReadableString (blake2b_256 lib x))"
    unfolding TransferTransaction_New_def using finish_transfer by blast
  then obtain x where "dag_data_hash dag' = toReadableString (blake2b_256 lib x)"
    by blast
  then show ?thesis
    using that [OF d(1)] d(2) assms by (simp add: SetDAGWithType_def)
qed


definition toy_datastore :: "(string \<Rightarrow> bytes option) datastore" where
  "toy_datastore = \<lparr>ds_CreateDeltaToRemove = \<lambda>db key. Inl NOT_FOUND,
     ds_Publish = \<lambda>d topics db. (Inr (), db ++ map_of (map (\<lambda>e. (el_key e, map of_char (el_value e))) (elements d)))\<rparr>"

lemma toy_datastore_ok: "publish_ok toy_datastore"
  by (auto simp: publish_ok_def toy_datastore_def map_add_Some_iff intro!: map_of_is_SomeI disjI1 rev_image_eqI simp: comp_def)


section \<open>Paying out an escrow\<close>

lemma payout_loop_total:
  assumes "length results * unat a \<le> unat r"
  shows "out_total (fst (payout_loop a results outs r)) = out_total outs + length results * unat a \<and>
    unat (snd (payout_loop a results outs r)) = unat r - length results * unat a"
  using assms
proof (induction a results outs r rule: payout_loop.induct)
  case (2 a s results outs r)
  then have "a \<le> r"
    by (simp add: word_le_nat_alt)
  then have "unat (r - a) = unat r - unat a"
    by (rule unat_sub)
  then show ?case
    using 2 by simp
qed simp

text \<open>
  C26. An escrow is paid out in full. With at least one result and a cut of the peers of at most
  one (\<open>10 ^ 6\<close> in fixed point), the payout of every peer and the rest for the developer add up to
  exactly the amount of the escrow, whatever the rounding of the shares.
\<close>

theorem escrow_payouts_conserve:
  assumes "results \<noteq> []" "length results < 2 ^ 64" "unat pcut \<le> 10 ^ 6" "escrow_outputs \<noteq> []"
  shows "\<exists>outs. escrow_payouts amount pcut dev escrow_outputs results = Inr outs \<and> out_total outs = unat amount \<and>
    length outs = length results + 1"
proof -
  define q where "q = unat amount * unat pcut div 10 ^ 6"
  let ?a = "of_nat q div of_nat (length results) :: u64"
  have "q \<le> unat amount * 10 ^ 6 div 10 ^ 6"
    unfolding q_def using assms(3) by (intro div_le_mono mult_le_mono) simp_all
  then have q: "q \<le> unat amount"
    by simp
  then have uq: "unat (of_nat q :: u64) = q"
    using unat_u64_less [of amount] by (intro unat_of_nat_u64) simp
  have p: "PRECISION \<le> 19" "unat PRECISION = 6"
    by (simp_all add: PRECISION_def)
  have m: "Multiply amount pcut PRECISION = Inr (of_nat q)"
    by (simp only: Multiply_eq_Inr [OF p(1)] uq p) (simp only: q_def)
  have share: "length results * unat ?a \<le> q"
    by (simp only: unat_div uq unat_of_nat_u64 [OF assms(2)] times_div_less_eq_dividend)
  then have t: "out_total (fst (payout_loop ?a results [] amount)) = length results * unat ?a \<and>
      unat (snd (payout_loop ?a results [] amount)) = unat amount - length results * unat ?a"
    using payout_loop_total [of results ?a amount "[]"] q by simp
  have l: "length (fst (payout_loop a results outs r)) = length outs + length results" for a outs r
    by (induction a results outs r rule: payout_loop.induct) auto
  show ?thesis
    using t l [of ?a "[]" amount] share q assms(4)
    by (auto simp: escrow_payouts_def TokenAmount_New_def TokenAmount_Multiply_def m Let_def split: prod.splits)
qed

theorem escrow_payouts_conserve_witness:
  "\<exists>outs. escrow_payouts 100 700000 ''dev'' [\<lparr>encrypted_amount = 100, dest_address = ''0x'', out_token_id = TokenID_default\<rparr>]
      (replicate 3 \<lparr>res_subtaskid = ''s'', res_node_address = ''n'', res_token_id = []\<rparr>) = Inr outs \<and> out_total outs = 100"
  using escrow_payouts_conserve [of "replicate 3 \<lparr>res_subtaskid = ''s'', res_node_address = ''n'', res_token_id = []\<rparr>" 700000
      "[\<lparr>encrypted_amount = 100, dest_address = ''0x'', out_token_id = TokenID_default\<rparr>]" 100 "''dev''"]
  by auto

section \<open>What the filter lets through and the order of parsing\<close>

lemma parse_foreign_transfer:
  assumes "fromReadableString 32 (dag_data_hash dag) = Inr h"
    and "\<forall>u \<in> set (utxos (tm_account m)). GetTxID u \<noteq> h" "\<forall>i \<in> set ins. txid_hash i \<noteq> h"
  shows "\<exists>topics. ParseTransaction (TransferTransaction dag ins
        [\<lparr>encrypted_amount = a, dest_address = GetAddress (tm_account m), out_token_id = tok\<rparr>]) m =
      Inr (topics, upd_account (\<lambda>acc. acc\<lparr>utxos := filter (\<lambda>u. outpoint u \<notin> in_outpoint ` set ins) (utxos acc) @
        [new_utxo h 0 a tok]\<rparr>) m)"
proof -
  have new: "\<not> list_ex (\<lambda>curr. h = GetTxID curr \<and> GetOutputIdx curr = 0) (utxos (tm_account m))"
    using assms(2) by (auto simp: list_ex_iff)
  have own: "outpoint (new_utxo h 0 a tok) \<notin> in_outpoint ` set ins"
    using assms(3) by (auto simp: outpoint_def in_outpoint_def new_utxo_def)
  show ?thesis
    using assms(1) new own
    by (simp add: ParseTransferTransaction_def Let_def PutUTXO_def new_utxo_def RefreshUTXOs_def upd_account_def refresh_outpoints)
qed

text \<open>
  C37. The signature does not cover the outputs. The filter of the database checks the signature of the
  common header only and never recomputes the hash of the body. Take any transfer that the filter lets
  through, keep its header and inputs and replace its outputs by one output of any amount to a node's own
  address: the filter lets the forgery through as well, and when the node scans its incoming
  transactions it credits itself that amount.
\<close>

theorem forged_outputs_credited:
  assumes "DeSerializeTransaction lib data = Inr (TransferTransaction dag ins outs)"
    and "DeSerializeTransaction lib forged = Inr (TransferTransaction dag ins
        [\<lparr>encrypted_amount = a, dest_address = GetAddress (tm_account m), out_token_id = tok\<rparr>])"
    and "globaldb m key = None" "crdt_tx_filter lib m (key, data) = Inr None"
    and "fromReadableString 32 (dag_data_hash dag) = Inr h" "map_of (incoming_tx_processed m) key = None"
    and "\<forall>u \<in> set (utxos (tm_account m)). GetTxID u \<noteq> h" "\<forall>i \<in> set ins. txid_hash i \<noteq> h"
  shows "crdt_tx_filter lib m (key, forged) = Inr None \<and>
    (\<exists>m'. CheckIncoming lib [key] (m\<lparr>globaldb := (globaldb m)(key \<mapsto> forged)\<rparr>) = Inr m' \<and>
      new_utxo h 0 a tok \<in> set (utxos (tm_account m')) \<and> seen_incoming (dag_data_hash dag) m')"
proof -
  have "CheckDAGStructSignature lib dag"
    using assms(1,3,4) by (simp add: crdt_tx_filter_def split: if_splits)
  then have f: "crdt_tx_filter lib m (key, forged) = Inr None"
    using assms(2,3) by (simp add: crdt_tx_filter_def)
  let ?m = "m\<lparr>globaldb := (globaldb m)(key \<mapsto> forged)\<rparr>"
  let ?tx = "TransferTransaction dag ins [\<lparr>encrypted_amount = a, dest_address = GetAddress (tm_account m), out_token_id = tok\<rparr>]"
  let ?m' = "upd_account (\<lambda>acc. acc\<lparr>utxos := filter (\<lambda>u. outpoint u \<notin> in_outpoint ` set ins) (utxos acc) @ [new_utxo h 0 a tok]\<rparr>) ?m"
  have "\<exists>topics. ParseTransaction ?tx ?m = Inr (topics, ?m')"
    using parse_foreign_transfer [OF assms(5), of ?m ins a tok] assms(7,8) by simp
  then obtain topics where "ParseTransaction ?tx ?m = Inr (topics, ?m')"
    by blast
  then have c: "CheckIncoming lib [key] ?m = Inr (?m'\<lparr>incoming_tx_processed := smap_put key ?tx (incoming_tx_processed ?m')\<rparr>)"
    using assms(2,6) by (simp add: FetchTransaction_def del: ParseTransaction.simps)
  moreover have "seen_incoming (dag_data_hash dag) (?m'\<lparr>incoming_tx_processed := smap_put key ?tx (incoming_tx_processed ?m')\<rparr>)"
    using smap_put_mem [of key ?tx "incoming_tx_processed ?m'"]
    by (auto simp: seen_incoming_def list_ex_iff intro!: bexI [of _ "(key, ?tx)"])
  ultimately show ?thesis
    using f by (simp add: upd_account_def)
qed

definition forged_lib :: "transaction \<Rightarrow> transaction \<Rightarrow> libraries" where
  "forged_lib tx tx' = toy_lib\<lparr>pb_dag := \<lambda>bs. Some (message_dag (tx_struct tx)),
     pb_parse := \<lambda>ty bs. Some (tx_struct (if bs = [] then tx else tx'))\<rparr>"

definition signed_dag :: "byte \<Rightarrow> DAGStruct" where
  "signed_dag b = empty_dag\<lparr>dag_type := ''transfer'', dag_source_addr := ''me'',
     dag_data_hash := toReadableString (replicate 32 b), dag_signature := replicate 64 CHR ''s''\<rparr>"

lemma fromReadable_replicate [simp]: "fromReadableString 32 (toReadableString (replicate 32 b)) = Inr (replicate 32 b)"
  using fromReadableString_toReadableString [of "replicate 32 b"] by simp

lemma hash_signed_dag: "fromReadableString 32 (dag_data_hash (signed_dag b)) = Inr (replicate 32 b)"
  by (simp add: signed_dag_def)


theorem forged_outputs_credited_witness:
  "\<exists>lib m'. crdt_tx_filter lib (toy_manager []) (''k'', []) = Inr None \<and>
     DeSerializeTransaction lib [] = Inr (TransferTransaction (signed_dag 7) [] []) \<and>
     crdt_tx_filter lib (toy_manager []) (''k'', [1]) = Inr None \<and>
     CheckIncoming lib [''k''] ((toy_manager [])\<lparr>globaldb := Map.empty(''k'' \<mapsto> [1])\<rparr>) = Inr m' \<and>
     new_utxo (replicate 32 7) 0 99 TokenID_default \<in> set (utxos (tm_account m'))"
proof -
  let ?o = "[\<lparr>encrypted_amount = 99, dest_address = ''me'', out_token_id = TokenID_default\<rparr>]"
  let ?lib = "forged_lib (TransferTransaction (signed_dag 7) [] []) (TransferTransaction (signed_dag 7) [] ?o)"
  let ?m = "toy_manager []"
  have d: "DeSerializeTransaction ?lib [] = Inr (TransferTransaction (signed_dag 7) [] [])"
      "DeSerializeTransaction ?lib [1] = Inr (TransferTransaction (signed_dag 7) [] ?o)"
    by (simp_all add: DeSerializeTransaction_def forged_lib_def toy_lib_def signed_dag_def DeSerializeTransfer_def
        SetDAGWithType_def params_proto_def read_params_def read_output_def output_proto_def empty_dag_def
        TokenID_default_def token_bytes_def FromBytes_def tok_size_def)
  have f: "crdt_tx_filter ?lib ?m (''k'', []) = Inr None"
    unfolding crdt_tx_filter_def fst_conv snd_conv d(1)
    by (simp add: CheckDAGStructSignature_def signed_dag_def forged_lib_def toy_lib_def)
  have "crdt_tx_filter ?lib ?m (''k'', [1]) = Inr None \<and>
    (\<exists>m'. CheckIncoming ?lib [''k''] (?m\<lparr>globaldb := (globaldb ?m)(''k'' \<mapsto> [1])\<rparr>) = Inr m' \<and>
      new_utxo (replicate 32 7) 0 99 TokenID_default \<in> set (utxos (tm_account m')) \<and> seen_incoming (dag_data_hash (signed_dag 7)) m')"
    by (rule forged_outputs_credited [OF d(1) _ _ f])
       (use d(2) in \<open>simp_all add: toy_manager_def hash_signed_dag\<close>)
  then show ?thesis
    using f d(1) by (auto simp: toy_manager_def)
qed

lemma parse_spend:
  assumes "dest \<noteq> GetAddress (tm_account m)"
  shows "\<exists>topics. ParseTransaction (TransferTransaction dag ins [\<lparr>encrypted_amount = a, dest_address = dest, out_token_id = tok\<rparr>]) m =
      Inr (topics, upd_account (\<lambda>acc. acc\<lparr>utxos := filter (\<lambda>u. outpoint u \<notin> in_outpoint ` set ins) (utxos acc)\<rparr>) m)"
  using assms by (simp add: ParseTransferTransaction_def Let_def RefreshUTXOs_def upd_account_def refresh_outpoints)

lemma CheckOutgoing_step:
  assumes "map_of (outgoing_tx_processed m) key = None" "FetchTransaction lib (globaldb m) key = Inr tx"
    and "\<exists>topics. ParseTransaction tx m = Inr (topics, upd_account (\<lambda>acc. acc\<lparr>utxos := f (utxos acc)\<rparr>) m)"
  shows "\<exists>m'. CheckOutgoing lib (key # keys) m = CheckOutgoing lib keys m' \<and> utxos (tm_account m') = f (utxos (tm_account m)) \<and>
    GetAddress (tm_account m') = GetAddress (tm_account m) \<and> globaldb m' = globaldb m \<and>
    map_of (outgoing_tx_processed m') = (map_of (outgoing_tx_processed m))(key \<mapsto> tx)"
  using assms by (auto simp: upd_account_def simp del: ParseTransaction.simps intro!: exI conjI)

text \<open>
  C38. The order of the scan matters. A payment to the own address creates an output and a later payment
  spends it. A scan of the outgoing transactions in this order forgets the output. A scan
  in the other order, which is the order of the keys when the nonces are 9 and 10 because keys compare as
  text, leaves the spent output in the account for good.
\<close>

theorem scan_order_resurrects:
  assumes "FetchTransaction lib (globaldb m) k1 = Inr (TransferTransaction d1 ins
        [\<lparr>encrypted_amount = a, dest_address = GetAddress (tm_account m), out_token_id = tok\<rparr>])"
    and "FetchTransaction lib (globaldb m) k2 = Inr (TransferTransaction d2 [\<lparr>txid_hash = h, output_idx = 0, input_signature = sig\<rparr>]
        [\<lparr>encrypted_amount = a, dest_address = dest, out_token_id = tok\<rparr>])"
    and "k1 \<noteq> k2" "map_of (outgoing_tx_processed m) k1 = None" "map_of (outgoing_tx_processed m) k2 = None"
    and "fromReadableString 32 (dag_data_hash d1) = Inr h" "dest \<noteq> GetAddress (tm_account m)"
    and "\<forall>u \<in> set (utxos (tm_account m)). GetTxID u \<noteq> h" "\<forall>i \<in> set ins. txid_hash i \<noteq> h"
  shows "(\<exists>m'. CheckOutgoing lib [k1, k2] m = Inr m' \<and> (h, 0) \<notin> outpoint ` set (utxos (tm_account m'))) \<and>
    (\<exists>m'. CheckOutgoing lib [k2, k1] m = Inr m' \<and> (h, 0) \<in> outpoint ` set (utxos (tm_account m'))) \<and>
    ''/bc-963/me/tx/transfer/'' @ to_string 10 < ''/bc-963/me/tx/transfer/'' @ to_string 9"
proof (intro conjI)
  note own = parse_foreign_transfer [OF assms(6), where a = a and tok = tok and ins = ins]
  have h0: "outpoint (new_utxo h 0 a tok) = (h, 0)"
    by (simp add: outpoint_def new_utxo_def)
  obtain m1 where m1: "CheckOutgoing lib [k1, k2] m = CheckOutgoing lib [k2] m1" "GetAddress (tm_account m1) = GetAddress (tm_account m)"
      "globaldb m1 = globaldb m" "map_of (outgoing_tx_processed m1) k2 = None"
    using CheckOutgoing_step [OF assms(4,1) own [OF assms(8,9)], of "[k2]"] assms(3,5) by force
  obtain m2 where m2: "CheckOutgoing lib [k2] m1 = CheckOutgoing lib [] m2"
      "utxos (tm_account m2) = filter (\<lambda>u. outpoint u \<notin> in_outpoint ` set [\<lparr>txid_hash = h, output_idx = 0, input_signature = sig\<rparr>]) (utxos (tm_account m1))"
    using CheckOutgoing_step [OF m1(4) assms(2) [folded m1(3)] parse_spend [OF assms(7) [folded m1(2)]], of "[]"] by metis
  show "\<exists>m'. CheckOutgoing lib [k1, k2] m = Inr m' \<and> (h, 0) \<notin> outpoint ` set (utxos (tm_account m'))"
    using m1(1) m2 by (auto simp: in_outpoint_def)
  obtain m3 where m3: "CheckOutgoing lib [k2, k1] m = CheckOutgoing lib [k1] m3" "GetAddress (tm_account m3) = GetAddress (tm_account m)"
      "globaldb m3 = globaldb m" "map_of (outgoing_tx_processed m3) k1 = None" "set (utxos (tm_account m3)) \<subseteq> set (utxos (tm_account m))"
    using CheckOutgoing_step [OF assms(5,2) parse_spend [OF assms(7)], of "[k1]"] assms(3,4) by fastforce
  have "\<forall>u \<in> set (utxos (tm_account m3)). GetTxID u \<noteq> h"
    using m3(5) assms(8) by blast
  then obtain m4 where "CheckOutgoing lib [k1] m3 = CheckOutgoing lib [] m4" "new_utxo h 0 a tok \<in> set (utxos (tm_account m4))"
    using CheckOutgoing_step [OF m3(4) assms(1) [folded m3(2,3)] own [OF _ assms(9)], of "[]"] by fastforce
  then show "\<exists>m'. CheckOutgoing lib [k2, k1] m = Inr m' \<and> (h, 0) \<in> outpoint ` set (utxos (tm_account m'))"
    using m3(1) h0 by (auto intro: rev_image_eqI)
  show "''/bc-963/me/tx/transfer/'' @ to_string 10 < ''/bc-963/me/tx/transfer/'' @ to_string 9"
    by (simp add: to_string.simps digit_char_def less_char_def)
qed

theorem scan_order_resurrects_witness:
  "\<exists>lib m. (\<exists>m'. CheckOutgoing lib [''9'', ''10''] m = Inr m' \<and> (replicate 32 7, 0) \<notin> outpoint ` set (utxos (tm_account m'))) \<and>
    (\<exists>m'. CheckOutgoing lib [''10'', ''9''] m = Inr m' \<and> (replicate 32 7, 0) \<in> outpoint ` set (utxos (tm_account m')))"
proof -
  let ?i = "\<lparr>txid_hash = replicate 32 7, output_idx = 0, input_signature = ''''\<rparr> :: InputUTXOInfo"
  let ?t1 = "TransferTransaction (signed_dag 7) [] [\<lparr>encrypted_amount = 5, dest_address = ''me'', out_token_id = TokenID_default\<rparr>]"
  let ?t2 = "TransferTransaction (signed_dag 8) [?i] [\<lparr>encrypted_amount = 5, dest_address = ''you'', out_token_id = TokenID_default\<rparr>]"
  define lib where "lib = forged_lib ?t1 ?t2"
  let ?m = "(toy_manager [])\<lparr>globaldb := Map.empty(''9'' \<mapsto> [], ''10'' \<mapsto> [1])\<rparr>"
  note reads = FetchTransaction_def DeSerializeTransaction_def forged_lib_def toy_lib_def signed_dag_def DeSerializeTransfer_def
    SetDAGWithType_def params_proto_def read_params_def read_output_def output_proto_def input_proto_def empty_dag_def
    TokenID_default_def token_bytes_def FromBytes_def tok_size_def toy_manager_def
  have f: "FetchTransaction lib (globaldb ?m) ''9'' = Inr (TransferTransaction (signed_dag 7) []
        [\<lparr>encrypted_amount = 5, dest_address = GetAddress (tm_account ?m), out_token_id = TokenID_default\<rparr>])"
      "FetchTransaction lib (globaldb ?m) ''10'' = Inr ?t2"
    by (simp_all add: lib_def reads)
  show ?thesis
    using scan_order_resurrects [OF f _ _ _ hash_signed_dag]
    by (intro exI [of _ lib] exI [of _ ?m]) (simp add: toy_manager_def)
qed

section \<open>Progress of the queue and of the waiting loops\<close>

lemma parse_keeps_queue: "ParseTransaction tx m = Inr (topics, m') \<Longrightarrow> tx_queue m' = tx_queue m"
  by (cases tx) (auto simp: ParseTransferTransaction_def ParseMintTransaction_def ParseEscrowTransaction_def
      ParseEscrowReleaseTransaction_def Let_def split: if_splits)

lemma send_parse_keeps_queue: "tx_queue (snd (send_parse_loop batch topics m)) = tx_queue m"
proof (induction batch topics m rule: send_parse_loop.induct)
  case (2 p batch topics m)
  show ?case
  proof (cases "ParseTransaction (fst p) m")
    case (Inr tm)
    then show ?thesis
      using 2 [OF Inr, of "fst tm" "snd tm"] parse_keeps_queue [of "fst p" m "fst tm" "snd tm"] by (cases tm) simp
  qed simp
qed simp

lemma SendTransaction_queue: "tx_queue (snd (SendTransaction ds lib m)) = tl (tx_queue m)"
proof (cases "tx_queue m")
  case (Cons item queue)
  obtain batch crdt where item: "item = (batch, crdt)"
    by fastforce
  obtain r m' where "send_parse_loop batch {} (m\<lparr>tx_queue := queue\<rparr>) = (r, m')"
    by fastforce
  then show ?thesis
    using send_parse_keeps_queue [of batch "{}" "m\<lparr>tx_queue := queue\<rparr>"] Cons item
    by (auto simp: SendTransaction_def Let_def split: prod.split sum.split)
qed (simp add: SendTransaction_def)

text \<open>
  C27. The queue drains. Every call of \<^verbatim>\<open>SendTransaction\<close> takes the first item off the queue, also when parsing
  or publishing it fails, so the item at position \<open>n\<close> is handled by call \<open>n + 1\<close> and as many calls as there are items empty the queue.
\<close>

theorem queue_drains:
  "tx_queue (((\<lambda>m. snd (SendTransaction ds lib m)) ^^ n) m) = drop n (tx_queue m)"
  by (induction n) (simp_all add: SendTransaction_queue drop_Suc tl_drop)

text \<open>
  C28. The waiting loops end. As soon as an observation is late enough, each of the three loops has
  returned, and it returns true only when an observed state has the transaction.
\<close>

theorem waits_end:
  assumes "\<exists>t \<in> snd ` set obs. timeout \<le> t"
  shows "WaitForTransactionIncoming txId timeout obs \<noteq> None \<and> WaitForTransactionOutgoing txId timeout obs \<noteq> None \<and>
    WaitForEscrowRelease txId timeout (map prod.swap obs) \<noteq> None \<and>
    (WaitForTransactionIncoming txId timeout obs = Some True \<longrightarrow> (\<exists>m \<in> fst ` set obs. seen_incoming txId m)) \<and>
    (WaitForTransactionOutgoing txId timeout obs = Some True \<longrightarrow> (\<exists>m \<in> fst ` set obs. seen_outgoing txId m)) \<and>
    (WaitForEscrowRelease txId timeout (map prod.swap obs) = Some True \<longrightarrow> (\<exists>m \<in> fst ` set obs. seen_escrow_release txId m))"
  using assms
proof (induction obs)
  case (Cons o1 obs)
  show ?case
  proof (cases "timeout \<le> snd o1")
    case False
    then have "\<exists>t \<in> snd ` set obs. timeout \<le> t"
      using Cons.prems by auto
    then show ?thesis
      using Cons.IH False by (cases o1) auto
  qed (cases o1, auto)
qed simp

theorem waits_end_witness:
  "WaitForTransactionOutgoing ''x'' 100 [(toy_manager [], 50), (toy_manager [], 150)] \<noteq> None"
  using waits_end [of "[(toy_manager [], 50), (toy_manager [], 150)]" 100 "''x''"] by simp

end
