(* ===== verification/Wasm_Memory.thy ===== *)
theory Wasm_Memory
  imports Prelude
begin

unbundle bit_operations_syntax

text \<open>
  \<^verbatim>\<open>src/runtime/binaryen/wasm_memory_impl.cpp\<close> and \<^verbatim>\<open>src/extensions/impl/memory_extension.cpp\<close>: the
  allocator of the WebAssembly memory. Pointers and sizes are 32-bit words and wrap around as in the
  code. \<^verbatim>\<open>allocate\<close>, \<^verbatim>\<open>freealloc\<close> and \<^verbatim>\<open>growAlloc\<close> call each other, so they run on fuel, of which growing takes one; \<open>None\<close> means
  that the calls have not ended. The map of free chunks is an unordered map, so the order in which it is
  walked is an argument \<open>iter\<close>. The bytes of the memory belong to the interpreter, a library; they are
  an argument as well, with the functions that read and write a byte.
\<close>

section \<open>The allocator\<close>

record wasm_memory =
  wm_size :: u32
  wm_offset :: u32
  wm_allocated :: "u32 \<rightharpoonup> u32"
  wm_deallocated :: "u32 \<rightharpoonup> u32"

type_synonym iteration = "(u32 \<rightharpoonup> u32) \<Rightarrow> (u32 \<times> u32) list"

definition kMaxMemorySize :: u32 where
  "kMaxMemorySize = 0xFFFFFFFF"

definition wm_resize :: "u32 \<Rightarrow> wasm_memory \<Rightarrow> wasm_memory" where
  "wm_resize new_size m = m\<lparr>wm_size := new_size\<rparr>"

definition WasmMemoryImpl :: "u32 \<Rightarrow> wasm_memory" where
  "WasmMemoryImpl sz = wm_resize sz \<lparr>wm_size = sz, wm_offset = 1, wm_allocated = Map.empty, wm_deallocated = Map.empty\<rparr>"

definition wm_reset :: "wasm_memory \<Rightarrow> wasm_memory" where
  "wm_reset m = m\<lparr>wm_offset := 1, wm_allocated := Map.empty, wm_deallocated := Map.empty\<rparr>"

text \<open>The smallest free chunk that is large enough, the first one among equals.\<close>

fun find_loop :: "u32 \<Rightarrow> (u32 \<times> u32) list \<Rightarrow> u32 \<Rightarrow> u32 \<Rightarrow> u32" where
  "find_loop sz [] min_value min_key = min_key"
| "find_loop sz ((key, v) # chunks) min_value min_key =
     (if v < min_value \<and> v \<ge> sz then find_loop sz chunks v key else find_loop sz chunks min_value min_key)"

definition findContaining :: "iteration \<Rightarrow> u32 \<Rightarrow> wasm_memory \<Rightarrow> u32" where
  "findContaining iter sz m = find_loop sz (iter (wm_deallocated m)) 0xFFFFFFFF 0"

fun allocate :: "iteration \<Rightarrow> nat \<Rightarrow> u32 \<Rightarrow> wasm_memory \<Rightarrow> (u32 \<times> wasm_memory) option"
  and freealloc :: "iteration \<Rightarrow> nat \<Rightarrow> u32 \<Rightarrow> wasm_memory \<Rightarrow> (u32 \<times> wasm_memory) option"
  and growAlloc :: "iteration \<Rightarrow> nat \<Rightarrow> u32 \<Rightarrow> wasm_memory \<Rightarrow> (u32 \<times> wasm_memory) option"
  where
  "allocate iter fuel sz m =
     (if sz = 0 then Some (0, m)
      else
        let ptr = wm_offset m;
            new_offset = ptr + sz
        in if new_offset < ptr then Some (0, m)
           else if new_offset \<le> wm_size m
           then Some (ptr, m\<lparr>wm_offset := new_offset, wm_allocated := (wm_allocated m)(ptr \<mapsto> sz)\<rparr>)
           else freealloc iter fuel sz m)"
| "freealloc iter fuel sz m =
     (let ptr = findContaining iter sz m
      in if ptr = 0 then growAlloc iter fuel sz m
         else Some (ptr, m\<lparr>wm_deallocated := (wm_deallocated m)(ptr := None),
                           wm_allocated := (wm_allocated m)(ptr \<mapsto> sz)\<rparr>))"
| "growAlloc iter 0 sz m = None"
| "growAlloc iter (Suc fuel) sz m =
     (if wm_offset m > kMaxMemorySize - sz then Some (0, m)
      else if wm_offset m < kMaxMemorySize - sz * 4
      then allocate iter fuel sz (wm_resize (wm_offset m + sz * 4) m)
      else allocate iter fuel sz (wm_resize (wm_offset m + sz) m))"

definition deallocate :: "u32 \<Rightarrow> wasm_memory \<Rightarrow> u32 option \<times> wasm_memory" where
  "deallocate ptr m =
     (case wm_allocated m ptr of
        None \<Rightarrow> (None, m)
      | Some sz \<Rightarrow> (Some sz, m\<lparr>wm_allocated := (wm_allocated m)(ptr := None),
                               wm_deallocated := (wm_deallocated m)(ptr \<mapsto> sz)\<rparr>))"

declare allocate.simps [simp del] freealloc.simps [simp del] growAlloc.simps [simp del]

section \<open>Buffers in the memory\<close>

definition loadN :: "(nat \<Rightarrow> 'mem \<Rightarrow> byte) \<Rightarrow> u32 \<Rightarrow> u32 \<Rightarrow> 'mem \<Rightarrow> bytes" where
  "loadN get addr n mem = map (\<lambda>i. get i mem) [unat addr ..< unat (addr + n)]"

fun store_loop :: "(nat \<Rightarrow> byte \<Rightarrow> 'mem \<Rightarrow> 'mem) \<Rightarrow> nat \<Rightarrow> bytes \<Rightarrow> 'mem \<Rightarrow> 'mem" where
  "store_loop put i [] mem = mem"
| "store_loop put i (b # bs) mem = store_loop put (i + 1) bs (put i b mem)"

definition storeBuffer_at :: "(nat \<Rightarrow> byte \<Rightarrow> 'mem \<Rightarrow> 'mem) \<Rightarrow> u32 \<Rightarrow> bytes \<Rightarrow> 'mem \<Rightarrow> 'mem" where
  "storeBuffer_at put addr v mem = store_loop put (unat addr) v mem"

definition combine :: "u32 \<Rightarrow> u32 \<Rightarrow> u64" where
  "combine address len = ucast address OR push_bit 32 (ucast len)"

definition splitSpan :: "u64 \<Rightarrow> u32 \<times> u32" where
  "splitSpan span = (ucast (span AND 0xFFFFFFFF), ucast (drop_bit 32 span AND 0xFFFFFFFF))"

definition storeBuffer :: "iteration \<Rightarrow> nat \<Rightarrow> (nat \<Rightarrow> byte \<Rightarrow> 'mem \<Rightarrow> 'mem) \<Rightarrow> bytes \<Rightarrow> wasm_memory \<Rightarrow> 'mem \<Rightarrow>
    (u64 \<times> wasm_memory \<times> 'mem) option" where
  "storeBuffer iter fuel put v m mem =
     (case allocate iter fuel (of_nat (length v)) m of
        None \<Rightarrow> None
      | Some (wasm_pointer, m) \<Rightarrow>
          if wasm_pointer = 0 then Some (0, m, mem)
          else Some (combine wasm_pointer (of_nat (length v)), m, storeBuffer_at put wasm_pointer v mem))"

section \<open>The host functions\<close>

definition ext_malloc :: "iteration \<Rightarrow> nat \<Rightarrow> u32 \<Rightarrow> wasm_memory \<Rightarrow> (u32 \<times> wasm_memory) option" where
  "ext_malloc iter fuel sz m = allocate iter fuel sz m"

definition ext_free :: "u32 \<Rightarrow> wasm_memory \<Rightarrow> wasm_memory" where
  "ext_free ptr m = snd (deallocate ptr m)"

section \<open>Chunks never overlap\<close>

definition iter_ok :: "iteration \<Rightarrow> bool" where
  "iter_ok iter \<longleftrightarrow> (\<forall>m. map_of (iter m) = m \<and> distinct (map fst (iter m)))"

definition chunk :: "u32 \<Rightarrow> u32 \<Rightarrow> nat set" where
  "chunk p s = {unat p ..< unat p + unat s}"

definition chunks :: "wasm_memory \<Rightarrow> u32 \<rightharpoonup> u32" where
  "chunks m = wm_allocated m ++ wm_deallocated m"

definition wm_inv :: "wasm_memory \<Rightarrow> bool" where
  "wm_inv m \<longleftrightarrow> dom (wm_allocated m) \<inter> dom (wm_deallocated m) = {} \<and>
     0 < unat (wm_offset m) \<and> wm_offset m \<le> wm_size m \<and>
     (\<forall>p s. chunks m p = Some s \<longrightarrow> p \<noteq> 0 \<and> s \<noteq> 0 \<and> unat p + unat s \<le> unat (wm_offset m)) \<and>
     (\<forall>p s q t. chunks m p = Some s \<longrightarrow> chunks m q = Some t \<longrightarrow> p \<noteq> q \<longrightarrow> chunk p s \<inter> chunk q t = {})"

lemma wm_inv_init: "0 < sz \<Longrightarrow> wm_inv (WasmMemoryImpl sz)"
  by (simp add: wm_inv_def WasmMemoryImpl_def wm_resize_def chunks_def word_le_nat_alt word_less_nat_alt)

lemma wm_inv_reset: "wm_inv m \<Longrightarrow> wm_inv (wm_reset m)"
  by (auto simp: wm_inv_def wm_reset_def chunks_def word_le_nat_alt)

lemma wm_inv_resize: "wm_inv m \<Longrightarrow> wm_offset m \<le> sz \<Longrightarrow> wm_inv (wm_resize sz m)"
  by (simp add: wm_inv_def wm_resize_def chunks_def)

lemma chunks_deallocate: "wm_inv m \<Longrightarrow> chunks (snd (deallocate p m)) = chunks m"
  by (auto simp: deallocate_def chunks_def wm_inv_def map_add_def fun_eq_iff split: option.splits)

lemma wm_inv_deallocate:
  assumes "wm_inv m"
  shows "wm_inv (snd (deallocate p m))"
proof -
  have "wm_offset (snd (deallocate p m)) = wm_offset m" "wm_size (snd (deallocate p m)) = wm_size m"
    "dom (wm_allocated (snd (deallocate p m))) \<inter> dom (wm_deallocated (snd (deallocate p m))) = {}"
    using assms by (auto simp: deallocate_def wm_inv_def split: option.splits)
  then show ?thesis
    using assms by (simp add: wm_inv_def chunks_deallocate [OF assms])
qed

lemma find_loop_mem:
  "find_loop sz cs mv mk = mk \<or> (\<exists>v. (find_loop sz cs mv mk, v) \<in> set cs \<and> sz \<le> v)"
  by (induction sz cs mv mk rule: find_loop.induct) auto

lemma findContaining_free:
  assumes "iter_ok iter" "findContaining iter sz m \<noteq> 0"
  obtains v where "wm_deallocated m (findContaining iter sz m) = Some v" "sz \<le> v"
proof -
  obtain v where "(findContaining iter sz m, v) \<in> set (iter (wm_deallocated m))" "sz \<le> v"
    using find_loop_mem [of sz "iter (wm_deallocated m)" "0xFFFFFFFF" 0] assms(2) by (auto simp: findContaining_def)
  moreover have "map_of (iter (wm_deallocated m)) = wm_deallocated m" "distinct (map fst (iter (wm_deallocated m)))"
    using assms(1) by (auto simp: iter_ok_def)
  ultimately show ?thesis
    using that map_of_is_SomeI by metis
qed

lemma no_overflow_plus: "\<not> (a :: u32) + b < a \<Longrightarrow> unat (a + b) = unat a + unat b"
  by (simp add: not_less unat_plus_simple)

lemma unat_lt_u32: "unat (b :: u32) < 2 ^ 32"
  using unsigned_less [of b] by simp

lemma below_max_plus:
  assumes "(a :: u32) \<le> kMaxMemorySize - b"
  shows "unat (a + b) = unat a + unat b"
proof -
  have "b \<le> 0xFFFFFFFF"
    using unat_lt_u32 [of b] by (simp add: word_le_nat_alt)
  then have "unat (kMaxMemorySize - b) = 2 ^ 32 - 1 - unat b"
    by (simp add: kMaxMemorySize_def unat_sub)
  then have "unat a + unat b < 2 ^ 32"
    using assms unat_lt_u32 [of b] by (simp add: word_le_nat_alt)
  then show ?thesis
    by (subst unat_add_lem [symmetric]) simp
qed

text \<open>What a successful allocation leaves behind.\<close>

definition allocated_ok :: "u32 \<Rightarrow> wasm_memory \<Rightarrow> u32 \<times> wasm_memory \<Rightarrow> bool" where
  "allocated_ok sz m r \<longleftrightarrow> wm_inv (snd r) \<and>
     (if fst r = 0 then wm_allocated (snd r) = wm_allocated m
      else wm_allocated m (fst r) = None \<and> wm_allocated (snd r) = (wm_allocated m)(fst r \<mapsto> sz) \<and>
        unat (fst r) + unat sz \<le> unat (wm_size (snd r)) \<and>
        (\<forall>q t. wm_allocated m q = Some t \<longrightarrow> chunk (fst r) sz \<inter> chunk q t = {}))"

lemma chunks_None_iff: "chunks m p = None \<longleftrightarrow> wm_allocated m p = None \<and> wm_deallocated m p = None"
  by (auto simp: chunks_def)

lemma allocated_chunks: "wm_inv m \<Longrightarrow> wm_allocated m p = Some s \<Longrightarrow> chunks m p = Some s"
  by (auto simp: wm_inv_def chunks_def map_add_Some_iff)

lemma deallocated_chunks: "wm_deallocated m p = Some s \<Longrightarrow> chunks m p = Some s"
  by (simp add: chunks_def)

lemma noop_ok: "wm_inv m \<Longrightarrow> allocated_ok sz m (0, m)"
  by (simp add: allocated_ok_def)

lemma bump_ok:
  assumes "wm_inv m" "sz \<noteq> 0" "\<not> wm_offset m + sz < wm_offset m" "wm_offset m + sz \<le> wm_size m"
  shows "allocated_ok sz m (wm_offset m, m\<lparr>wm_offset := wm_offset m + sz, wm_allocated := (wm_allocated m)(wm_offset m \<mapsto> sz)\<rparr>)"
proof -
  let ?p = "wm_offset m"
  let ?m = "m\<lparr>wm_offset := ?p + sz, wm_allocated := (wm_allocated m)(?p \<mapsto> sz)\<rparr>"
  have sum: "unat (?p + sz) = unat ?p + unat sz"
    using assms(3) by (rule no_overflow_plus)
  have below: "p \<noteq> 0 \<and> s \<noteq> 0 \<and> unat p + unat s \<le> unat ?p" if "chunks m p = Some s" for p s
    using assms(1) that unfolding wm_inv_def by blast
  have p0: "?p \<noteq> 0"
    using assms(1) by (auto simp: wm_inv_def)
  have new: "chunks m ?p = None"
  proof (cases "chunks m ?p")
    case (Some s)
    then show ?thesis
      using below [OF Some] by (auto simp: unat_eq_0)
  qed simp
  then have c: "chunks ?m = (chunks m)(?p \<mapsto> sz)"
    by (auto simp: chunks_def map_add_def fun_eq_iff split: option.splits)
  have off: "chunk q t \<inter> chunk ?p sz = {}" if "chunks m q = Some t" for q t
    using below [OF that] by (auto simp: chunk_def)
  have "wm_inv ?m"
    unfolding wm_inv_def c
  proof (intro conjI allI impI)
    show "dom (wm_allocated ?m) \<inter> dom (wm_deallocated ?m) = {}"
      using assms(1) new by (auto simp: wm_inv_def chunks_None_iff)
    show "0 < unat (wm_offset ?m)" "wm_offset ?m \<le> wm_size ?m"
      using assms(1,4) sum by (simp_all add: wm_inv_def)
  next
    fix p s
    assume "((chunks m)(?p \<mapsto> sz)) p = Some s"
    then have "p \<noteq> 0 \<and> s \<noteq> 0 \<and> unat p + unat s \<le> unat ?p + unat sz"
      using below [of p s] assms(2) p0 by (cases "p = ?p") auto
    then show "p \<noteq> 0" "s \<noteq> 0" "unat p + unat s \<le> unat (wm_offset ?m)"
      using sum by simp_all
  next
    fix p s q t
    assume "((chunks m)(?p \<mapsto> sz)) p = Some s" "((chunks m)(?p \<mapsto> sz)) q = Some t" "p \<noteq> q"
    then show "chunk p s \<inter> chunk q t = {}"
      using off [of p s] off [of q t] assms(1) by (auto simp: wm_inv_def split: if_splits)
  qed
  then show ?thesis
    using p0 new sum assms(4) off allocated_chunks [OF assms(1)]
    by (auto simp: allocated_ok_def chunks_None_iff word_le_nat_alt)
qed

lemma reuse_ok:
  assumes "wm_inv m" "sz \<noteq> 0" "wm_deallocated m p = Some v" "sz \<le> v"
  shows "allocated_ok sz m (p, m\<lparr>wm_deallocated := (wm_deallocated m)(p := None), wm_allocated := (wm_allocated m)(p \<mapsto> sz)\<rparr>)"
proof -
  let ?m = "m\<lparr>wm_deallocated := (wm_deallocated m)(p := None), wm_allocated := (wm_allocated m)(p \<mapsto> sz)\<rparr>"
  have old: "chunks m p = Some v"
    using assms(3) by (rule deallocated_chunks)
  have free: "wm_allocated m p = None"
    using assms(1,3) by (auto simp: wm_inv_def)
  have c: "chunks ?m = (chunks m)(p \<mapsto> sz)"
    by (auto simp: chunks_def map_add_def fun_eq_iff split: option.splits)
  have sub: "chunk p sz \<subseteq> chunk p v"
    using assms(4) by (auto simp: chunk_def word_le_nat_alt)
  have sep: "chunk p v \<inter> chunk q t = {}" if "chunks m q = Some t" "q \<noteq> p" for q t
    using assms(1) old that unfolding wm_inv_def by blast
  have "p \<noteq> 0 \<and> v \<noteq> 0 \<and> unat p + unat v \<le> unat (wm_offset m)"
    using assms(1) old unfolding wm_inv_def by blast
  then have bound: "p \<noteq> 0" "unat p + unat sz \<le> unat (wm_offset m)"
    using assms(4) by (auto simp: word_le_nat_alt)
  have "wm_inv ?m"
    unfolding wm_inv_def c
  proof (intro conjI allI impI)
    show "dom (wm_allocated ?m) \<inter> dom (wm_deallocated ?m) = {}"
      using assms(1) by (auto simp: wm_inv_def)
    show "0 < unat (wm_offset ?m)" "wm_offset ?m \<le> wm_size ?m"
      using assms(1) by (simp_all add: wm_inv_def)
  next
    fix q t
    assume "((chunks m)(p \<mapsto> sz)) q = Some t"
    then show "q \<noteq> 0" "t \<noteq> 0" "unat q + unat t \<le> unat (wm_offset ?m)"
      using bound assms(1,2) by (auto simp: wm_inv_def split: if_splits)
  next
    fix q t r u
    assume "((chunks m)(p \<mapsto> sz)) q = Some t" "((chunks m)(p \<mapsto> sz)) r = Some u" "q \<noteq> r"
    then show "chunk q t \<inter> chunk r u = {}"
      using sub sep [of q t] sep [of r u] assms(1) by (auto simp: wm_inv_def split: if_splits)
  qed
  moreover have "chunk p sz \<inter> chunk q t = {}" if "wm_allocated m q = Some t" for q t
    using sub sep [OF allocated_chunks [OF assms(1) that]] free that by (cases "q = p") auto
  ultimately show ?thesis
    using free bound assms(1) by (auto simp: allocated_ok_def wm_inv_def word_le_nat_alt)
qed

lemma allocated_ok_resize: "allocated_ok sz (wm_resize n m) r \<longleftrightarrow> allocated_ok sz m r"
  by (simp add: allocated_ok_def wm_resize_def)

lemma allocate_cases:
  assumes "allocate iter fuel sz m = Some r"
  obtains "sz = 0 \<or> wm_offset m + sz < wm_offset m" "r = (0, m)"
  | "sz \<noteq> 0" "\<not> wm_offset m + sz < wm_offset m" "wm_offset m + sz \<le> wm_size m"
    "r = (wm_offset m, m\<lparr>wm_offset := wm_offset m + sz, wm_allocated := (wm_allocated m)(wm_offset m \<mapsto> sz)\<rparr>)"
  | "sz \<noteq> 0" "findContaining iter sz m \<noteq> 0"
    "r = (findContaining iter sz m, m\<lparr>wm_deallocated := (wm_deallocated m)(findContaining iter sz m := None),
        wm_allocated := (wm_allocated m)(findContaining iter sz m \<mapsto> sz)\<rparr>)"
  | "sz \<noteq> 0" "growAlloc iter fuel sz m = Some r"
proof -
  let ?c = "findContaining iter sz m"
  have eq: "allocate iter fuel sz m =
     (if sz = 0 \<or> wm_offset m + sz < wm_offset m then Some (0, m)
      else if wm_offset m + sz \<le> wm_size m
      then Some (wm_offset m, m\<lparr>wm_offset := wm_offset m + sz, wm_allocated := (wm_allocated m)(wm_offset m \<mapsto> sz)\<rparr>)
      else if ?c = 0 then growAlloc iter fuel sz m
      else Some (?c, m\<lparr>wm_deallocated := (wm_deallocated m)(?c := None), wm_allocated := (wm_allocated m)(?c \<mapsto> sz)\<rparr>))"
    by (simp only: allocate.simps [of iter fuel sz m] freealloc.simps [of iter fuel sz m] Let_def split: if_split) simp
  show ?thesis
  proof (cases "sz = 0 \<or> wm_offset m + sz < wm_offset m")
    case True
    then show ?thesis
      using assms that(1) unfolding eq by simp
  next
    case no: False
    show ?thesis
    proof (cases "wm_offset m + sz \<le> wm_size m \<or> ?c = 0")
      case True
      then show ?thesis
        using assms no that(2,4) unfolding eq by (cases "wm_offset m + sz \<le> wm_size m") simp_all
    next
      case False
      then show ?thesis
        using assms no that(3) unfolding eq by simp
    qed
  qed
qed

lemma allocate_ok:
  assumes "iter_ok iter" "wm_inv m" "allocate iter fuel sz m = Some r"
  shows "allocated_ok sz m r"
  using assms(2,3)
proof (induction fuel arbitrary: m)
  case 0
  from 0(2) show ?case
    by (cases rule: allocate_cases)
       (use 0(1) in \<open>auto simp: growAlloc.simps intro: noop_ok bump_ok reuse_ok elim!: findContaining_free [OF assms(1)]\<close>)
next
  case (Suc fuel)
  have grow: "allocated_ok sz m r" if "growAlloc iter (Suc fuel) sz m = Some r"
  proof (cases "wm_offset m > kMaxMemorySize - sz")
    case False
    let ?n = "if wm_offset m < kMaxMemorySize - sz * 4 then wm_offset m + sz * 4 else wm_offset m + sz"
    have "wm_offset m \<le> ?n"
      using False below_max_plus [of "wm_offset m" "sz * 4", OF less_imp_le] below_max_plus [of "wm_offset m" sz]
      by (auto simp: word_le_nat_alt not_less)
    then have "wm_inv (wm_resize ?n m)"
      using Suc.prems(1) by (rule wm_inv_resize [rotated])
    moreover have "allocate iter fuel sz (wm_resize ?n m) = Some r"
      using that False by (auto simp: growAlloc.simps split: if_splits)
    ultimately show ?thesis
      using Suc.IH [of "wm_resize ?n m"] by (simp add: allocated_ok_resize)
  qed (use that Suc.prems(1) noop_ok in \<open>auto simp: growAlloc.simps\<close>)
  from Suc.prems(2) show ?case
    by (cases rule: allocate_cases)
       (use Suc.prems(1) in \<open>auto intro: noop_ok bump_ok reuse_ok grow elim!: findContaining_free [OF assms(1)]\<close>)
qed

section \<open>Running time of an allocation\<close>

lemma allocate_fits:
  assumes "sz \<noteq> 0" "wm_offset m \<le> kMaxMemorySize - sz" "unat (wm_offset m) + unat sz \<le> unat (wm_size m)"
  shows "allocate iter fuel sz m = Some (wm_offset m, m\<lparr>wm_offset := wm_offset m + sz, wm_allocated := (wm_allocated m)(wm_offset m \<mapsto> sz)\<rparr>)"
proof -
  have "unat (wm_offset m + sz) = unat (wm_offset m) + unat sz"
    using assms(2) by (rule below_max_plus)
  then have "\<not> wm_offset m + sz < wm_offset m" "wm_offset m + sz \<le> wm_size m"
    using assms(3) by (simp_all add: word_less_nat_alt word_le_nat_alt)
  then show ?thesis
    using assms(1) by (simp add: allocate.simps Let_def)
qed

section \<open>Reading what was stored\<close>

lemma store_loop_get:
  assumes "\<forall>i b j mem. get j (put i b mem) = (if j = i then b else get j mem)"
  shows "get j (store_loop put i v mem) = (if i \<le> j \<and> j < i + length v then v ! (j - i) else get j mem)"
proof (induction v arbitrary: i mem)
  case (Cons b bs)
  then show ?case
    using assms by (auto simp: nth_Cons')
qed auto

lemma splitSpan_combine [simp]: "splitSpan (combine p n) = (p, n)"
proof -
  have m: "(0xFFFFFFFF :: u64) = mask 32"
    by (simp add: mask_eq_exp_minus_1)
  have "ucast (combine p n AND 0xFFFFFFFF) = p"
    unfolding m by (rule bit_word_eqI) (auto simp: combine_def bit_simps)
  moreover have "ucast (drop_bit 32 (combine p n) AND 0xFFFFFFFF) = n"
    unfolding m by (rule bit_word_eqI) (auto simp: combine_def bit_simps dest: bit_imp_le_length)
  ultimately show ?thesis
    by (simp add: splitSpan_def)
qed

section \<open>Properties\<close>

text \<open>
  The states of a memory and of its bytes under allocations, stores, deallocations, resets and resizes that keep what is in
  use. The free chunks may be walked in another order in every step.
\<close>

inductive wm_reachable :: "(nat \<Rightarrow> byte \<Rightarrow> 'mem \<Rightarrow> 'mem) \<Rightarrow> wasm_memory \<times> 'mem \<Rightarrow> bool" for put where
  init: "0 < sz \<Longrightarrow> wm_reachable put (WasmMemoryImpl sz, mem)"
| alloc: "wm_reachable put (m, mem) \<Longrightarrow> iter_ok iter \<Longrightarrow> ext_malloc iter fuel sz m = Some (p, m') \<Longrightarrow>
    wm_reachable put (m', mem)"
| store: "wm_reachable put (m, mem) \<Longrightarrow> iter_ok iter \<Longrightarrow> storeBuffer iter fuel put v m mem = Some (span, m', mem') \<Longrightarrow>
    wm_reachable put (m', mem')"
| store_at: "wm_reachable put (m, mem) \<Longrightarrow> wm_reachable put (m, storeBuffer_at put addr v mem)"
| free: "wm_reachable put (m, mem) \<Longrightarrow> wm_reachable put (ext_free p m, mem)"
| resize: "wm_reachable put (m, mem) \<Longrightarrow> wm_offset m \<le> sz \<Longrightarrow> wm_reachable put (wm_resize sz m, mem)"
| reset: "wm_reachable put (m, mem) \<Longrightarrow> wm_reachable put (wm_reset m, mem)"

lemma wm_reachable_inv_fst: "wm_reachable put s \<Longrightarrow> wm_inv (fst s)"
proof (induction rule: wm_reachable.induct)
  case (alloc m mem iter fuel sz p m')
  then show ?case
    using allocate_ok [of iter m fuel sz "(p, m')"] by (simp add: allocated_ok_def ext_malloc_def)
next
  case (store m mem iter fuel v span m' mem')
  then obtain p where "allocate iter fuel (of_nat (length v)) m = Some (p, m')"
    by (auto simp: storeBuffer_def split: option.splits if_splits)
  then show ?case
    using allocate_ok [of iter m fuel _ "(p, m')"] store by (simp add: allocated_ok_def)
qed (simp_all add: wm_inv_init wm_inv_deallocate wm_inv_reset wm_inv_resize ext_free_def)

lemma wm_reachable_inv: "wm_reachable put (m, mem) \<Longrightarrow> wm_inv m"
  using wm_reachable_inv_fst [of put "(m, mem)"] by simp

lemma iter_ok_empty: "iter_ok iter \<Longrightarrow> iter Map.empty = []"
  unfolding iter_ok_def by (metis map_of_eq_empty_iff)

lemma iter_ok_exists: "\<exists>iter. iter_ok iter"
proof -
  have "\<exists>xs. map_of xs = m \<and> distinct (map fst xs)" for m :: "u32 \<rightharpoonup> u32"
  proof -
    obtain ks where ks: "set ks = dom m" "distinct ks"
      using finite_distinct_list [of "dom m"] by auto
    have "map_of (map (\<lambda>k. (k, the (m k))) ks) = m"
    proof
      fix k
      show "map_of (map (\<lambda>k. (k, the (m k))) ks) k = m k"
        using ks(1) by (cases "m k") (auto simp: map_of_eq_None_iff map_of_map_keys intro: map_of_is_SomeI)
    qed
    then show ?thesis
      using ks(2) by (intro exI [of _ "map (\<lambda>k. (k, the (m k))) ks"]) (simp add: comp_def)
  qed
  then show ?thesis
    unfolding iter_ok_def by metis
qed

text \<open>
  C11. Chunks never overlap. In every state that a memory of positive size reaches by allocations, stores, deallocations,
  resets and resizes that keep what is in use, whatever the order in which the free chunks are walked, no chunk is both in
  use and free, every chunk lies inside the memory and does not start at 0, and any two chunks, in use or free, are
  disjoint. An allocation that succeeds adds exactly the new chunk to those in use, disjoint from all of them, and it
  is inside the memory; a failed one, which returns 0, leaves the chunks in use as they are.
\<close>

theorem allocations_disjoint:
  assumes "wm_reachable put (m, mem)"
  shows "dom (wm_allocated m) \<inter> dom (wm_deallocated m) = {} \<and>
    (\<forall>p s. wm_allocated m p = Some s \<or> wm_deallocated m p = Some s \<longrightarrow> p \<noteq> 0 \<and> unat p + unat s \<le> unat (wm_size m)) \<and>
    (\<forall>p s q t. (wm_allocated m p = Some s \<or> wm_deallocated m p = Some s) \<longrightarrow>
       (wm_allocated m q = Some t \<or> wm_deallocated m q = Some t) \<longrightarrow> p \<noteq> q \<longrightarrow> chunk p s \<inter> chunk q t = {}) \<and>
    (\<forall>iter fuel sz p m'. iter_ok iter \<longrightarrow> ext_malloc iter fuel sz m = Some (p, m') \<longrightarrow>
       (if p = 0 then wm_allocated m' = wm_allocated m
        else wm_allocated m p = None \<and> wm_allocated m' = (wm_allocated m)(p \<mapsto> sz) \<and>
          unat p + unat sz \<le> unat (wm_size m') \<and>
          (\<forall>q t. wm_allocated m q = Some t \<longrightarrow> chunk p sz \<inter> chunk q t = {})))"
proof (intro conjI)
  have inv: "wm_inv m"
    using assms by (rule wm_reachable_inv)
  have c: "chunks m p = Some s" if "wm_allocated m p = Some s \<or> wm_deallocated m p = Some s" for p s
    using that allocated_chunks [OF inv] deallocated_chunks by blast
  show "dom (wm_allocated m) \<inter> dom (wm_deallocated m) = {}"
    using inv by (simp add: wm_inv_def)
  have "wm_offset m \<le> wm_size m"
    using inv by (simp add: wm_inv_def)
  then have "unat (wm_offset m) \<le> unat (wm_size m)"
    by (simp add: word_le_nat_alt)
  then show "\<forall>p s. wm_allocated m p = Some s \<or> wm_deallocated m p = Some s \<longrightarrow> p \<noteq> 0 \<and> unat p + unat s \<le> unat (wm_size m)"
    using inv c unfolding wm_inv_def by (metis le_trans)
  show "\<forall>p s q t. (wm_allocated m p = Some s \<or> wm_deallocated m p = Some s) \<longrightarrow>
       (wm_allocated m q = Some t \<or> wm_deallocated m q = Some t) \<longrightarrow> p \<noteq> q \<longrightarrow> chunk p s \<inter> chunk q t = {}"
    using inv c unfolding wm_inv_def by meson
  show "\<forall>iter fuel sz p m'. iter_ok iter \<longrightarrow> ext_malloc iter fuel sz m = Some (p, m') \<longrightarrow>
       (if p = 0 then wm_allocated m' = wm_allocated m
        else wm_allocated m p = None \<and> wm_allocated m' = (wm_allocated m)(p \<mapsto> sz) \<and>
          unat p + unat sz \<le> unat (wm_size m') \<and>
          (\<forall>q t. wm_allocated m q = Some t \<longrightarrow> chunk p sz \<inter> chunk q t = {}))"
  proof (intro allI impI)
    fix iter fuel sz p m'
    assume "iter_ok iter" "ext_malloc iter fuel sz m = Some (p, m')"
    then have "allocated_ok sz m (p, m')"
      using allocate_ok [OF _ inv] by (simp add: ext_malloc_def)
    then show "if p = 0 then wm_allocated m' = wm_allocated m
        else wm_allocated m p = None \<and> wm_allocated m' = (wm_allocated m)(p \<mapsto> sz) \<and>
          unat p + unat sz \<le> unat (wm_size m') \<and>
          (\<forall>q t. wm_allocated m q = Some t \<longrightarrow> chunk p sz \<inter> chunk q t = {})"
      unfolding allocated_ok_def fst_conv snd_conv by (rule conjunct2)
  qed
qed

lemma one_neq_six: "(1 :: u32) \<noteq> 6"
  by simp

theorem allocations_disjoint_witness:
  "\<exists>iter m m'. iter_ok iter \<and> ext_malloc iter 0 5 (WasmMemoryImpl 100) = Some (1, m) \<and>
     ext_malloc iter 0 7 m = Some (6, m') \<and> wm_allocated m' 1 = Some 5 \<and> wm_deallocated (ext_free 1 m') 1 = Some 5 \<and>
     chunk 1 5 \<inter> chunk 6 7 = {}"
proof -
  obtain iter where iter: "iter_ok iter"
    using iter_ok_exists by blast
  have r: "wm_reachable (\<lambda>i b mem. mem(i := b)) (WasmMemoryImpl 100, \<lambda>_. 0)"
    by (rule wm_reachable.init) simp
  obtain m m' where m: "ext_malloc iter 0 5 (WasmMemoryImpl 100) = Some (1, m)" "ext_malloc iter 0 7 m = Some (6, m')"
    "wm_allocated m' 1 = Some 5" "wm_allocated m' 6 = Some 7"
    by (simp add: ext_malloc_def allocate.simps WasmMemoryImpl_def wm_resize_def)
  have f: "wm_deallocated (ext_free 1 m') 1 = Some 5" "wm_allocated (ext_free 1 m') 6 = Some 7"
    using m(3,4) by (simp_all add: ext_free_def deallocate_def)
  have "wm_reachable (\<lambda>i b mem. mem(i := b)) (ext_free 1 m', \<lambda>_. 0)"
    by (rule wm_reachable.free [OF wm_reachable.alloc [OF wm_reachable.alloc [OF r iter m(1)] iter m(2)]])
  from allocations_disjoint [OF this] have "chunk 1 5 \<inter> chunk 6 7 = {}"
    using f one_neq_six by blast
  then show ?thesis
    using iter m f by blast
qed

text \<open>
  When an allocation does not end: nothing fits, the size stays below the maximum, and four times the size wraps around
  to less than the size, so that the memory grown by it is still too small.
\<close>

definition grows_short :: "iteration \<Rightarrow> u32 \<Rightarrow> wasm_memory \<Rightarrow> bool" where
  "grows_short iter sz m \<longleftrightarrow> unat (wm_size m) < unat (wm_offset m) + unat sz \<and> findContaining iter sz m = 0 \<and>
     unat (wm_offset m) + unat sz < 2 ^ 32 \<and> 4 * unat sz mod 2 ^ 32 < unat sz \<and>
     unat (wm_offset m) + 4 * unat sz mod 2 ^ 32 < 2 ^ 32 - 1"

lemma unat_times_four: "unat ((sz :: u32) * 4) = 4 * unat sz mod 2 ^ 32"
  by (simp add: unat_word_ariths mult.commute)

lemma max_minus: "(a :: u32) > kMaxMemorySize - b \<longleftrightarrow> 2 ^ 32 \<le> unat a + unat b"
  "(a :: u32) < kMaxMemorySize - b \<longleftrightarrow> unat a + unat b < 2 ^ 32 - 1"
proof -
  have "b \<le> 0xFFFFFFFF"
    using unat_lt_u32 [of b] by (simp add: word_le_nat_alt)
  then have "unat (kMaxMemorySize - b) = 2 ^ 32 - 1 - unat b"
    by (simp add: kMaxMemorySize_def unat_sub)
  then show "a > kMaxMemorySize - b \<longleftrightarrow> 2 ^ 32 \<le> unat a + unat b" "a < kMaxMemorySize - b \<longleftrightarrow> unat a + unat b < 2 ^ 32 - 1"
    using unat_lt_u32 [of b] unat_lt_u32 [of a] by (auto simp: word_less_nat_alt)
qed

lemma grows_short_resize:
  assumes "grows_short iter sz m"
  shows "grows_short iter sz (wm_resize (wm_offset m + sz * 4) m)"
proof -
  have "unat (wm_offset m + sz * 4) = unat (wm_offset m) + 4 * unat sz mod 2 ^ 32"
    using assms by (subst unat_add_lem [THEN iffD1]) (simp_all add: unat_times_four grows_short_def)
  then show ?thesis
    using assms by (simp add: grows_short_def wm_resize_def findContaining_def)
qed

lemma overflow_iff: "(a :: u32) + b < a \<longleftrightarrow> 2 ^ 32 \<le> unat a + unat b"
proof (cases "unat a + unat b < 2 ^ 32")
  case True
  then have "unat (a + b) = unat a + unat b"
    by (subst unat_add_lem [THEN iffD1]) simp_all
  then show ?thesis
    using True by (simp add: word_less_nat_alt)
next
  case False
  then have "unat (a + b) = unat a + unat b - 2 ^ 32"
    using unat_lt_u32 [of a] unat_lt_u32 [of b] by (simp add: unat_word_ariths mod_if)
  then show ?thesis
    using False unat_lt_u32 [of b] by (simp add: word_less_nat_alt)
qed

lemma fits_iff: "unat (a :: u32) + unat b < 2 ^ 32 \<Longrightarrow> a + b \<le> n \<longleftrightarrow> unat a + unat b \<le> unat n"
  by (subst word_le_nat_alt, subst unat_add_lem [THEN iffD1]) simp_all

lemma allocate_runs:
  "unat (wm_offset m) + unat sz < 2 ^ 32 \<Longrightarrow> unat (wm_size m) < unat (wm_offset m) + unat sz \<Longrightarrow> findContaining iter sz m = 0 \<Longrightarrow> sz \<noteq> 0 \<Longrightarrow>
   allocate iter fuel sz m = growAlloc iter fuel sz m"
  by (simp add: allocate.simps freealloc.simps Let_def overflow_iff fits_iff not_le)

lemma grows_short_diverges:
  assumes "grows_short iter sz m"
  shows "allocate iter fuel sz m = None"
  using assms
proof (induction fuel arbitrary: m)
  case 0
  then have "allocate iter 0 sz m = growAlloc iter 0 sz m"
    by (intro allocate_runs) (auto simp: grows_short_def)
  then show ?case
    by (simp add: growAlloc.simps)
next
  case (Suc fuel)
  then have "allocate iter (Suc fuel) sz m = growAlloc iter (Suc fuel) sz m"
    by (intro allocate_runs) (auto simp: grows_short_def)
  also have "\<dots> = allocate iter fuel sz (wm_resize (wm_offset m + sz * 4) m)"
    using Suc.prems by (simp add: growAlloc.simps max_minus unat_times_four grows_short_def)
  also have "\<dots> = None"
    by (rule Suc.IH [OF grows_short_resize [OF Suc.prems]])
  finally show ?case .
qed

lemma growAlloc_short:
  assumes "growAlloc iter (Suc fuel) sz m = None" "sz \<noteq> 0" "unat (wm_offset m) + unat sz < 2 ^ 32"
  shows "4 * unat sz mod 2 ^ 32 < unat sz \<and> unat (wm_offset m) + 4 * unat sz mod 2 ^ 32 < 2 ^ 32 - 1"
proof (rule ccontr)
  assume c: "\<not> ?thesis"
  let ?n = "if wm_offset m < kMaxMemorySize - sz * 4 then wm_offset m + sz * 4 else wm_offset m + sz"
  have "unat (wm_offset m) + unat sz \<le> unat ?n"
  proof (cases "wm_offset m < kMaxMemorySize - sz * 4")
    case True
    then have lt: "unat (wm_offset m) + 4 * unat sz mod 2 ^ 32 < 2 ^ 32 - 1"
      by (simp add: max_minus unat_times_four)
    then have "unat (wm_offset m + sz * 4) = unat (wm_offset m) + 4 * unat sz mod 2 ^ 32"
      by (subst unat_add_lem [THEN iffD1]) (simp_all add: unat_times_four)
    then show ?thesis
      using True lt c by simp
  next
    case False
    have "unat (wm_offset m + sz) = unat (wm_offset m) + unat sz"
      using assms(3) by (subst unat_add_lem [THEN iffD1]) simp_all
    then show ?thesis
      using False by simp
  qed
  moreover have "\<not> wm_offset m > kMaxMemorySize - sz"
    using assms(3) by (simp add: max_minus)
  ultimately show False
    using assms(1) allocate_fits [OF assms(2), of "wm_resize ?n m" iter fuel]
    by (auto simp: growAlloc.simps wm_resize_def not_less split: if_splits)
qed

lemma allocate_None: "allocate iter (Suc fuel) sz m = None \<Longrightarrow> grows_short iter sz m"
proof -
  assume n: "allocate iter (Suc fuel) sz m = None"
  then have c: "sz \<noteq> 0" "unat (wm_offset m) + unat sz < 2 ^ 32"
    by (auto simp: allocate.simps Let_def overflow_iff not_le split: if_splits)
  then have d: "unat (wm_size m) < unat (wm_offset m) + unat sz" "findContaining iter sz m = 0"
    using n by (auto simp: allocate.simps freealloc.simps Let_def overflow_iff fits_iff not_le split: if_splits)
  then have "growAlloc iter (Suc fuel) sz m = None"
    using n allocate_runs [OF c(2) d c(1)] by simp
  from growAlloc_short [OF this c] show ?thesis
    using c d by (simp add: grows_short_def)
qed

text \<open>
  C12. Exactly which allocations end. An allocation ends after at most one growth of the memory unless \<open>grows_short\<close> holds:
  nothing fits, the chunk would end below the maximum, and four times the size, which the code computes in 32 bits,
  wraps around to less than the size. In that case \<^verbatim>\<open>growAlloc\<close> and \<^verbatim>\<open>allocate\<close> call each other without end. Only sizes of
  \<open>2 ^ 30\<close> bytes or more can do so, and \<open>2 ^ 30\<close> bytes on a fresh memory of the default size do.
\<close>

theorem allocation_ends_or_recurses:
  "((\<exists>r. allocate iter (Suc fuel) sz m = Some r) \<longleftrightarrow> \<not> grows_short iter sz m) \<and>
   (grows_short iter sz m \<longrightarrow> 2 ^ 30 \<le> unat sz \<and> (\<forall>k. allocate iter k sz m = None)) \<and>
   (iter_ok iter \<longrightarrow> grows_short iter (2 ^ 30) (WasmMemoryImpl 1114112))"
proof (intro conjI impI)
  show "(\<exists>r. allocate iter (Suc fuel) sz m = Some r) \<longleftrightarrow> \<not> grows_short iter sz m"
    using allocate_None [of iter fuel sz m] grows_short_diverges [of iter sz m "Suc fuel"] by (cases "allocate iter (Suc fuel) sz m") auto
next
  assume g: "grows_short iter sz m"
  show "2 ^ 30 \<le> unat sz"
  proof (rule ccontr)
    assume "\<not> 2 ^ 30 \<le> unat sz"
    then have "4 * unat sz mod 2 ^ 32 = 4 * unat sz"
      by simp
    then show False
      using g by (simp add: grows_short_def)
  qed
  show "\<forall>k. allocate iter k sz m = None"
    using grows_short_diverges [OF g] by blast
next
  assume "iter_ok iter"
  then show "grows_short iter (2 ^ 30) (WasmMemoryImpl 1114112)"
    using iter_ok_empty [of iter] by (simp add: grows_short_def WasmMemoryImpl_def wm_resize_def findContaining_def)
qed

theorem allocation_ends_or_recurses_witness:
  "(\<exists>iter. iter_ok iter \<and> (\<forall>fuel. allocate iter fuel (2 ^ 30) (WasmMemoryImpl 1114112) = None) \<and>
      (\<exists>r. allocate iter 1 0x7FFFFFFF (WasmMemoryImpl 1114112) = Some r))"
proof -
  obtain iter where iter: "iter_ok iter"
    using iter_ok_exists by blast
  then have g: "grows_short iter (2 ^ 30) (WasmMemoryImpl 1114112)"
    using allocation_ends_or_recurses [of iter 0 0 "WasmMemoryImpl 100"] by blast
  have "\<not> grows_short iter 0x7FFFFFFF (WasmMemoryImpl 1114112)"
    by (simp add: grows_short_def)
  then show ?thesis
    using iter allocation_ends_or_recurses [of iter 0 "0x7FFFFFFF" "WasmMemoryImpl 1114112"]
      allocation_ends_or_recurses [of iter 0 "2 ^ 30" "WasmMemoryImpl 1114112"] g by auto
qed

text \<open>
  C13. A buffer stored in the memory is read back: for a buffer of less than \<open>2 ^ 32\<close> bytes in a reachable state,
  \<^verbatim>\<open>storeBuffer\<close> either returns 0 and changes no byte, or returns a span whose pointer and length read the buffer back,
  and every chunk that was in use before keeps its bytes.
\<close>

theorem stored_buffer_read_back:
  assumes "wm_reachable put (m, mem)" "iter_ok iter" "length v < 2 ^ 32"
    and "\<forall>i b j mem. get j (put i b mem) = (if j = i then b else get j mem)"
    and "storeBuffer iter fuel put v m mem = Some (span, m', mem')"
  shows "if span = 0 then mem' = mem
    else loadN get (fst (splitSpan span)) (snd (splitSpan span)) mem' = v \<and>
      (\<forall>q t. wm_allocated m q = Some t \<longrightarrow> loadN get q t mem' = loadN get q t mem)"
proof -
  let ?n = "of_nat (length v) :: u32"
  have n: "unat ?n = length v"
    using assms(3) by (intro unat_of_nat_eq) simp
  obtain p where p: "allocate iter fuel ?n m = Some (p, m')"
      "(span, mem') = (if p = 0 then (0, mem) else (combine p ?n, storeBuffer_at put p v mem))"
    using assms(5) by (auto simp: storeBuffer_def split: option.splits if_splits)
  have inv: "wm_inv m"
    using assms(1) by (rule wm_reachable_inv)
  have ok: "allocated_ok ?n m (p, m')"
    using allocate_ok [OF assms(2) inv p(1)] .
  show ?thesis
  proof (cases "p = 0")
    case False
    then have bound: "unat p + length v \<le> unat (wm_size m')"
        and sep: "\<And>q t. wm_allocated m q = Some t \<Longrightarrow> chunk p ?n \<inter> chunk q t = {}"
      using ok n by (auto simp: allocated_ok_def)
    have sum: "unat (p + ?n) = unat p + length v"
      using bound unat_lt_u32 [of "wm_size m'"] n by (subst unat_add_lem [THEN iffD1]) auto
    have mem: "get j mem' = (if unat p \<le> j \<and> j < unat p + length v then v ! (j - unat p) else get j mem)" for j
      using p(2) False store_loop_get [OF assms(4)] by (simp add: storeBuffer_at_def)
    have "loadN get p ?n mem' = v"
      by (rule nth_equalityI) (simp_all add: loadN_def sum mem)
    moreover have "loadN get q t mem' = loadN get q t mem" if "wm_allocated m q = Some t" for q t
    proof -
      have "unat (q + t) \<le> unat q + unat t"
        by (simp add: unat_word_ariths)
      then have "get j mem' = get j mem" if "j \<in> set [unat q ..< unat (q + t)]" for j
        using that sep [OF \<open>wm_allocated m q = Some t\<close>] n by (auto simp: mem chunk_def)
      then show ?thesis
        by (simp add: loadN_def)
    qed
    moreover have "span \<noteq> 0"
      using splitSpan_combine [of p ?n] p(2) False by (auto simp: splitSpan_def)
    ultimately show ?thesis
      using p(2) False by simp
  qed (use p(2) in simp)
qed

theorem stored_buffer_read_back_witness:
  "\<exists>iter span m' mem'. iter_ok iter \<and>
     storeBuffer iter 0 (\<lambda>i b mem. mem(i := b)) [7, 8] (WasmMemoryImpl 100) (\<lambda>_. 0) = Some (span, m', mem') \<and>
     loadN (\<lambda>i mem. mem i) (fst (splitSpan span)) (snd (splitSpan span)) mem' = [7, 8]"
proof -
  obtain iter where iter: "iter_ok iter"
    using iter_ok_exists by blast
  have r: "wm_reachable (\<lambda>i b mem. mem(i := b)) (WasmMemoryImpl 100, \<lambda>_. 0)"
    by (rule wm_reachable.init) simp
  obtain m' mem' where s: "storeBuffer iter 0 (\<lambda>i b mem. mem(i := b)) [7, 8] (WasmMemoryImpl 100) (\<lambda>_. 0) = Some (combine 1 2, m', mem')"
    by (simp add: storeBuffer_def allocate.simps WasmMemoryImpl_def wm_resize_def)
  have "combine 1 2 \<noteq> 0"
    using splitSpan_combine [of 1 2] by (auto simp: splitSpan_def)
  then show ?thesis
    using stored_buffer_read_back [OF r iter _ _ s, of "\<lambda>i mem. mem i"] iter s by auto
qed

end
