(* ===== verification/Subtask_Queue.thy ===== *)
theory Subtask_Queue
  imports Std_Map "HOL-Library.Multiset"
begin

text \<open>
  The queue of subtasks that the nodes processing a task share (\<^verbatim>\<open>processing/processing_subtask_queue.cpp\<close>).
  One node owns the queue at a time; the owner locks items for itself, frees expired locks and hands the ownership
  over on request. The queue travels between the nodes as a message; \<^verbatim>\<open>m_queue\<close> is a pointer to the last
  snapshot accepted, \<open>None\<close> when it is null. Dereferencing null and reading an item out of range are errors.
  The last part lets several nodes act in turn on one queue.
\<close>

section \<open>Definitions\<close>

datatype queue_error = NullQueue | ItemOutOfRange

record queue_item =
  lock_timestamp :: u64
  lock_node_id :: string
  lock_expiration_timestamp :: u64

record ownership_request =
  node_id :: string
  request_timestamp :: u64

record processing_queue =
  items :: "queue_item list"
  last_update_timestamp :: u64
  processing_timeout_length :: u64
  owner_node_id :: string
  ownership_requests :: "ownership_request list"
  processed_subtask_ids :: "string list"

record subtask_queue =
  m_localNodeId :: string
  m_queue :: "processing_queue option"
  m_enabledItemIndices :: "nat list"

definition ProcessingSubTaskQueue :: "string \<Rightarrow> subtask_queue" where
  "ProcessingSubTaskQueue localNodeId = \<lparr>m_localNodeId = localNodeId, m_queue = None, m_enabledItemIndices = []\<rparr>"

definition ChangeOwnershipTo :: "string \<Rightarrow> processing_queue \<Rightarrow> processing_queue" where
  "ChangeOwnershipTo nodeId q = q\<lparr>owner_node_id := nodeId\<rparr>"

definition pq_CreateQueue :: "subtask_queue \<Rightarrow> processing_queue \<Rightarrow> nat list \<Rightarrow> subtask_queue" where
  "pq_CreateQueue s queue enabled =
     s\<lparr>m_queue := Some (ChangeOwnershipTo (m_localNodeId s) queue), m_enabledItemIndices := enabled\<rparr>"

definition pq_UpdateQueue :: "subtask_queue \<Rightarrow> processing_queue \<Rightarrow> nat list \<Rightarrow> subtask_queue \<times> bool" where
  "pq_UpdateQueue s queue enabled =
     (if (case m_queue s of None \<Rightarrow> True | Some q \<Rightarrow> last_update_timestamp q \<le> last_update_timestamp queue)
      then (s\<lparr>m_queue := Some queue, m_enabledItemIndices := enabled\<rparr>, True)
      else (s, False))"

definition pq_HasOwnership :: "subtask_queue \<Rightarrow> bool" where
  "pq_HasOwnership s = (case m_queue s of None \<Rightarrow> False | Some q \<Rightarrow> owner_node_id q = m_localNodeId s)"

definition lock_item :: "string \<Rightarrow> u64 \<Rightarrow> u64 \<Rightarrow> queue_item" where
  "lock_item nodeId now len =
     \<lparr>lock_timestamp = now, lock_node_id = nodeId, lock_expiration_timestamp = now + len\<rparr>"

fun lock_loop :: "string \<Rightarrow> u64 \<Rightarrow> nat list \<Rightarrow> processing_queue \<Rightarrow> queue_error + (processing_queue \<times> nat option)" where
  "lock_loop nodeId now [] q = Inr (q, None)"
| "lock_loop nodeId now (i # is) q =
     (if length (items q) \<le> i then Inl ItemOutOfRange
      else if lock_node_id (items q ! i) = '''' then
        Inr (q\<lparr>items := (items q)[i := lock_item nodeId now (processing_timeout_length q)]\<rparr>, Some i)
      else lock_loop nodeId now is q)"

definition LockItem :: "subtask_queue \<Rightarrow> u64 \<Rightarrow> queue_error + (subtask_queue \<times> nat option)" where
  "LockItem s now = (case m_queue s of
       None \<Rightarrow> Inl NullQueue
     | Some q \<Rightarrow>
         rmap (\<lambda>(q', i). (s\<lparr>m_queue := Some q'\<rparr>, i))
           (lock_loop (m_localNodeId s) now (m_enabledItemIndices s) (q\<lparr>last_update_timestamp := now\<rparr>)))"

definition GrabItem :: "subtask_queue \<Rightarrow> u64 \<Rightarrow> queue_error + (subtask_queue \<times> nat option)" where
  "GrabItem s now = (if pq_HasOwnership s then LockItem s now else Inr (s, None))"

definition pq_MoveOwnershipTo :: "subtask_queue \<Rightarrow> string \<Rightarrow> subtask_queue \<times> bool" where
  "pq_MoveOwnershipTo s nodeId =
     (if pq_HasOwnership s then (s\<lparr>m_queue := map_option (ChangeOwnershipTo nodeId) (m_queue s)\<rparr>, True)
      else (s, False))"

fun find_owner :: "string \<Rightarrow> queue_item list \<Rightarrow> nat \<Rightarrow> nat option" where
  "find_owner owner [] i = None"
| "find_owner owner (it # its) i = (if lock_node_id it = owner then Some i else find_owner owner its (Suc i))"

text \<open>The two loops of \<^verbatim>\<open>RollbackOwnership\<close> return at the first locked item they meet: \<open>Some\<close> the returned value.\<close>

fun rollback_loop :: "string \<Rightarrow> queue_item list \<Rightarrow> nat list \<Rightarrow> bool option" where
  "rollback_loop nodeId its [] = None"
| "rollback_loop nodeId its (i # is) =
     (if lock_node_id (its ! i) \<noteq> '''' then Some (lock_node_id (its ! i) = nodeId) else rollback_loop nodeId its is)"

definition before_owner :: "nat \<Rightarrow> nat \<Rightarrow> nat list" where
  "before_owner n ownerNodeIdx = map (\<lambda>idx. (n + ownerNodeIdx - idx) mod n) [1..<n]"

definition from_last :: "nat \<Rightarrow> nat list" where
  "from_last n = map (\<lambda>idx. n - idx) [1..<Suc n]"

definition RollbackOwnership :: "subtask_queue \<Rightarrow> subtask_queue \<times> bool" where
  "RollbackOwnership s = (case m_queue s of
       None \<Rightarrow> (s, False)
     | Some q \<Rightarrow>
         if pq_HasOwnership s then (s, True)
         else
           let n = length (items q);
               scan = (case find_owner (owner_node_id q) (items q) 0 of
                   Some ownerNodeIdx \<Rightarrow> rollback_loop (m_localNodeId s) (items q) (before_owner n ownerNodeIdx)
                 | None \<Rightarrow> rollback_loop (m_localNodeId s) (items q) (from_last n))
           in if scan = Some False then (s, False)
              else (s\<lparr>m_queue := Some (ChangeOwnershipTo (m_localNodeId s) q)\<rparr>, True))"

definition free_item :: "queue_item" where
  "free_item = \<lparr>lock_timestamp = 0, lock_node_id = '''', lock_expiration_timestamp = 0\<rparr>"

fun unlock_loop :: "u64 \<Rightarrow> nat list \<Rightarrow> processing_queue \<Rightarrow> bool \<Rightarrow> queue_error + (processing_queue \<times> bool)" where
  "unlock_loop now [] q unlocked = Inr (q, unlocked)"
| "unlock_loop now (i # is) q unlocked =
     (if length (items q) \<le> i then Inl ItemOutOfRange
      else if lock_node_id (items q ! i) \<noteq> '''' \<and> lock_expiration_timestamp (items q ! i) < now then
        unlock_loop now is (q\<lparr>items := (items q)[i := free_item]\<rparr>) True
      else unlock_loop now is q unlocked)"

definition UnlockExpiredItems :: "subtask_queue \<Rightarrow> u64 \<Rightarrow> queue_error + (subtask_queue \<times> bool)" where
  "UnlockExpiredItems s now = (case m_queue s of
       None \<Rightarrow> Inl NullQueue
     | Some q \<Rightarrow>
         let q = q\<lparr>last_update_timestamp := now\<rparr>; s = s\<lparr>m_queue := Some q\<rparr>
         in if pq_HasOwnership s
            then rmap (\<lambda>(q', unlocked). (s\<lparr>m_queue := Some q'\<rparr>, unlocked))
                   (unlock_loop now (m_enabledItemIndices s) q False)
            else Inr (s, False))"

fun last_lock_loop :: "nat list \<Rightarrow> queue_item list \<Rightarrow> u64 \<Rightarrow> queue_error + u64" where
  "last_lock_loop [] its t = Inr t"
| "last_lock_loop (i # is) its t =
     (if length its \<le> i then Inl ItemOutOfRange
      else if lock_node_id (its ! i) \<noteq> '''' then last_lock_loop is its (max t (lock_timestamp (its ! i)))
      else last_lock_loop is its t)"

definition GetLastLockTimestamp :: "subtask_queue \<Rightarrow> queue_error + u64" where
  "GetLastLockTimestamp s = (case m_queue s of
       None \<Rightarrow> (if m_enabledItemIndices s = [] then Inr 0 else Inl NullQueue)
     | Some q \<Rightarrow> last_lock_loop (m_enabledItemIndices s) (items q) 0)"

definition AddOwnershipRequest :: "subtask_queue \<Rightarrow> string \<Rightarrow> u64 \<Rightarrow> subtask_queue \<times> bool" where
  "AddOwnershipRequest s nodeId timestamp = (case m_queue s of
       None \<Rightarrow> (s, False)
     | Some q \<Rightarrow>
         (s\<lparr>m_queue := Some (q\<lparr>ownership_requests := ownership_requests q @
              [\<lparr>node_id = nodeId, request_timestamp = timestamp\<rparr>], last_update_timestamp := timestamp\<rparr>)\<rparr>, True))"

text \<open>
  The first request is removed by copying every other one a place down, \<open>shift_loop 0\<close>, and dropping the last.
\<close>

fun shift_requests :: "'a list \<Rightarrow> nat \<Rightarrow> nat \<Rightarrow> 'a list" where
  "shift_requests rs i 0 = rs"
| "shift_requests rs i (Suc k) = shift_requests (rs[i := rs ! Suc i]) (Suc i) k"

definition ProcessNextOwnershipRequest :: "subtask_queue \<Rightarrow> subtask_queue \<times> bool" where
  "ProcessNextOwnershipRequest s = (case m_queue s of
       None \<Rightarrow> (s, False)
     | Some q \<Rightarrow>
         if pq_HasOwnership s \<and> 0 < length (ownership_requests q) then
           let rs = ownership_requests q;
               q' = q\<lparr>ownership_requests := butlast (shift_requests rs 0 (length rs - 1))\<rparr>
           in (s\<lparr>m_queue := Some (ChangeOwnershipTo (node_id (rs ! 0)) q')\<rparr>, True)
         else (s, False))"

section \<open>Several nodes on one queue\<close>

text \<open>
  A node that holds the current snapshot performs one operation on it, with the items it has enabled; \<open>node_run\<close>
  performs a sequence of such operations, each node working on the snapshot the previous one left.
\<close>

datatype queue_action =
    Grab u64
  | Unlock u64
  | MoveTo string
  | Rollback
  | Request string u64
  | NextRequest

definition queue_after :: "processing_queue \<Rightarrow> subtask_queue \<Rightarrow> processing_queue" where
  "queue_after q s = (case m_queue s of None \<Rightarrow> q | Some q' \<Rightarrow> q')"

definition holder :: "string \<Rightarrow> nat list \<Rightarrow> processing_queue \<Rightarrow> subtask_queue" where
  "holder node enabled q = \<lparr>m_localNodeId = node, m_queue = Some q, m_enabledItemIndices = enabled\<rparr>"

fun node_step :: "string \<Rightarrow> nat list \<Rightarrow> queue_action \<Rightarrow> processing_queue \<Rightarrow> queue_error + processing_queue" where
  "node_step node is (Grab now) q = rmap (\<lambda>r. queue_after q (fst r)) (GrabItem (holder node is q) now)"
| "node_step node is (Unlock now) q = rmap (\<lambda>r. queue_after q (fst r)) (UnlockExpiredItems (holder node is q) now)"
| "node_step node is (MoveTo other) q = Inr (queue_after q (fst (pq_MoveOwnershipTo (holder node is q) other)))"
| "node_step node is Rollback q = Inr (queue_after q (fst (RollbackOwnership (holder node is q))))"
| "node_step node is (Request other t) q = Inr (queue_after q (fst (AddOwnershipRequest (holder node is q) other t)))"
| "node_step node is NextRequest q = Inr (queue_after q (fst (ProcessNextOwnershipRequest (holder node is q))))"

fun node_run :: "(string \<times> nat list \<times> queue_action) list \<Rightarrow> processing_queue \<Rightarrow> queue_error + processing_queue" where
  "node_run [] q = Inr q"
| "node_run ((node, is, a) # run) q = rbind (node_step node is a q) (node_run run)"

definition deliver :: "processing_queue \<times> nat list \<Rightarrow> subtask_queue \<Rightarrow> subtask_queue" where
  "deliver snapshot s = fst (pq_UpdateQueue s (fst snapshot) (snd snapshot))"

text \<open>The nodes that ask for the ownership in a run, and those that a hand-over of a request made the owner.\<close>

fun asked :: "(string \<times> nat list \<times> queue_action) list \<Rightarrow> string list" where
  "asked [] = []"
| "asked ((node, is, Request other t) # run) = other # asked run"
| "asked ((node, is, a) # run) = asked run"

fun handed_to :: "(string \<times> nat list \<times> queue_action) list \<Rightarrow> processing_queue \<Rightarrow> string list" where
  "handed_to [] q = []"
| "handed_to ((node, is, a) # run) q = (case node_step node is a q of
       Inl e \<Rightarrow> []
     | Inr q' \<Rightarrow> (if a = NextRequest \<and> snd (ProcessNextOwnershipRequest (holder node is q)) then [owner_node_id q'] else []) @
                handed_to run q')"

section \<open>Lemmas\<close>

lemma holder_simps [simp]:
  "m_localNodeId (holder n is q) = n" "m_queue (holder n is q) = Some q" "m_enabledItemIndices (holder n is q) = is"
  "pq_HasOwnership (holder n is q) \<longleftrightarrow> owner_node_id q = n"
  by (simp_all add: holder_def pq_HasOwnership_def)

lemma queue_after_simps [simp]:
  "queue_after q (s\<lparr>m_queue := Some q'\<rparr>) = q'"
  "queue_after q (holder n is q) = q"
  by (simp_all add: queue_after_def)

subsection \<open>Locks\<close>

definition enabled_ok :: "nat list \<Rightarrow> processing_queue \<Rightarrow> bool" where
  "enabled_ok is q \<longleftrightarrow> (\<forall>i \<in> set is. i < length (items q))"

lemma lock_loop_outcome:
  assumes "enabled_ok is q"
  shows "lock_loop node now is q = Inr (q, None) \<and> (\<forall>i \<in> set is. lock_node_id (items q ! i) \<noteq> '''') \<or>
     (\<exists>i \<in> set is. i < length (items q) \<and> lock_node_id (items q ! i) = '''' \<and>
        lock_loop node now is q =
        Inr (q\<lparr>items := (items q)[i := lock_item node now (processing_timeout_length q)]\<rparr>, Some i))"
  using assms by (induction "is") (auto simp: enabled_ok_def)

lemma unlock_loop_outcome:
  assumes "enabled_ok is q"
  shows "\<exists>q' u. unlock_loop now is q b = Inr (q', u) \<and> length (items q') = length (items q) \<and>
     q' = q\<lparr>items := items q'\<rparr> \<and>
     (\<forall>j < length (items q). items q' ! j =
        (if j \<in> set is \<and> lock_node_id (items q ! j) \<noteq> '''' \<and> lock_expiration_timestamp (items q ! j) < now
         then free_item else items q ! j)) \<and>
     (u \<longleftrightarrow> b \<or> (\<exists>j \<in> set is. lock_node_id (items q ! j) \<noteq> '''' \<and> lock_expiration_timestamp (items q ! j) < now))"
  using assms
proof (induction "is" arbitrary: q b)
  case Nil
  then show ?case by simp
next
  case (Cons i "is")
  show ?case
  proof (cases "lock_node_id (items q ! i) \<noteq> '''' \<and> lock_expiration_timestamp (items q ! i) < now")
    case True
    let ?q = "q\<lparr>items := (items q)[i := free_item]\<rparr>"
    have i: "i < length (items q)" using Cons.prems by (simp add: enabled_ok_def)
    have "enabled_ok is ?q" using Cons.prems by (auto simp: enabled_ok_def)
    from Cons.IH [OF this, of True] obtain q' u where q': "unlock_loop now is ?q True = Inr (q', u)"
      "length (items q') = length (items q)" "q' = q\<lparr>items := items q'\<rparr>" "u"
      "\<forall>j < length (items q). items q' ! j =
        (if j \<in> set is \<and> lock_node_id (items ?q ! j) \<noteq> '''' \<and> lock_expiration_timestamp (items ?q ! j) < now
         then free_item else items ?q ! j)"
      by auto
    have "items q' ! j = (if j \<in> set (i # is) \<and> lock_node_id (items q ! j) \<noteq> '''' \<and>
         lock_expiration_timestamp (items q ! j) < now then free_item else items q ! j)"
      if "j < length (items q)" for j
      using q'(5) that True i by (cases "j = i") (auto simp: free_item_def)
    then show ?thesis using q'(1-4) True i by auto
  next
    case False
    have "enabled_ok is q" using Cons.prems by (auto simp: enabled_ok_def)
    from Cons.IH [OF this, of b] show ?thesis using False Cons.prems by (auto simp: enabled_ok_def)
  qed
qed

text \<open>What one operation of one node does to an item of the queue.\<close>

definition item_step :: "string \<Rightarrow> queue_action \<Rightarrow> processing_queue \<Rightarrow> queue_item \<Rightarrow> queue_item \<Rightarrow> bool" where
  "item_step node a q it it' \<longleftrightarrow> it' = it \<or>
     owner_node_id q = node \<and>
     (case a of
        Grab now \<Rightarrow> lock_node_id it = '''' \<and> it' = lock_item node now (processing_timeout_length q)
      | Unlock now \<Rightarrow> lock_node_id it \<noteq> '''' \<and> lock_expiration_timestamp it < now \<and> it' = free_item
      | _ \<Rightarrow> False)"

lemma node_step_items:
  assumes "enabled_ok is q"
  shows "\<exists>q'. node_step node is a q = Inr q' \<and> length (items q') = length (items q) \<and>
     (\<forall>j < length (items q). item_step node a q (items q ! j) (items q' ! j))"
proof (cases a)
  case (Grab now)
  have e: "enabled_ok is (q\<lparr>last_update_timestamp := now\<rparr>)" using assms by (simp add: enabled_ok_def)
  show ?thesis using lock_loop_outcome [OF e, of node now]
    by (auto simp: Grab GrabItem_def LockItem_def item_step_def nth_list_update)
next
  case (Unlock now)
  have e: "enabled_ok is (q\<lparr>last_update_timestamp := now\<rparr>)" using assms by (simp add: enabled_ok_def)
  have own: "pq_HasOwnership ((holder node is q)\<lparr>m_queue := Some (q\<lparr>last_update_timestamp := now\<rparr>)\<rparr>) \<longleftrightarrow> owner_node_id q = node"
    by (simp add: pq_HasOwnership_def)
  show ?thesis using unlock_loop_outcome [OF e, of now False]
    by (auto simp: Unlock UnlockExpiredItems_def Let_def own item_step_def)
qed (auto simp: item_step_def pq_MoveOwnershipTo_def RollbackOwnership_def AddOwnershipRequest_def
       ProcessNextOwnershipRequest_def ChangeOwnershipTo_def Let_def queue_after_def split: option.splits)

definition unlocks_after :: "u64 \<Rightarrow> queue_action \<Rightarrow> bool" where
  "unlocks_after t a = (case a of Unlock now \<Rightarrow> t < now | _ \<Rightarrow> False)"

lemma node_run_keeps_lock:
  assumes "\<forall>(node, is, a) \<in> set run. enabled_ok is q" and "j < length (items q)"
    and "lock_node_id (items q ! j) \<noteq> ''''"
    and "\<forall>(node, is, a) \<in> set run. \<not> unlocks_after (lock_expiration_timestamp (items q ! j)) a"
  shows "\<exists>q'. node_run run q = Inr q' \<and> length (items q') = length (items q) \<and> items q' ! j = items q ! j"
  using assms
proof (induction run arbitrary: q)
  case (Cons x run)
  obtain node "is" a where x: "x = (node, is, a)" by (cases x)
  from Cons.prems x have e: "enabled_ok is q" by simp
  from node_step_items [OF this, of node a] obtain q1 where q1: "node_step node is a q = Inr q1"
    "length (items q1) = length (items q)" "item_step node a q (items q ! j) (items q1 ! j)"
    using Cons.prems(2) by blast
  have j: "items q1 ! j = items q ! j"
    using q1(3) Cons.prems(3,4) x
    by (auto simp: item_step_def unlocks_after_def split: queue_action.splits)
  have "\<exists>q'. node_run run q1 = Inr q' \<and> length (items q') = length (items q1) \<and> items q' ! j = items q1 ! j"
    by (rule Cons.IH) (use Cons.prems q1(2) j in \<open>auto simp: enabled_ok_def\<close>)
  then show ?case using q1 x j by auto
qed simp

subsection \<open>Snapshots\<close>

abbreviation snapshot_time :: "processing_queue \<times> nat list \<Rightarrow> u64" where
  "snapshot_time m \<equiv> last_update_timestamp (fst m)"

lemma deliver_commute:
  "snapshot_time m \<noteq> snapshot_time m' \<Longrightarrow> deliver m (deliver m' s) = deliver m' (deliver m s)"
  by (cases "m_queue s") (auto simp: deliver_def pq_UpdateQueue_def)

lemma deliver_latest:
  "m \<in> set ms \<Longrightarrow> \<exists>q. m_queue (fold deliver ms s) = Some q \<and> snapshot_time m \<le> last_update_timestamp q"
proof (induction ms rule: rev_induct)
  case (snoc m' ms)
  let ?s = "fold deliver ms s"
  have "\<exists>q. m_queue (deliver m' ?s) = Some q \<and> snapshot_time m' \<le> last_update_timestamp q"
    "m_queue ?s = Some p \<Longrightarrow>
      \<exists>q. m_queue (deliver m' ?s) = Some q \<and> last_update_timestamp p \<le> last_update_timestamp q" for p
    by (auto simp: deliver_def pq_UpdateQueue_def split: option.splits)
  with snoc show ?case by (auto intro: order_trans)
qed simp

subsection \<open>Rolling the ownership back\<close>

lemma find_owner_Some:
  "find_owner owner its k = Some i \<longleftrightarrow>
     k \<le> i \<and> i < k + length its \<and> lock_node_id (its ! (i - k)) = owner \<and>
     (\<forall>j < i - k. lock_node_id (its ! j) \<noteq> owner)"
proof (induction its arbitrary: k)
  case (Cons it its)
  show ?case
  proof (cases "lock_node_id it = owner")
    case True
    then have "(\<forall>j < i - k. lock_node_id ((it # its) ! j) \<noteq> owner) \<longleftrightarrow> i \<le> k"
      by (auto dest: spec [of _ 0])
    then show ?thesis using True by auto
  next
    case False
    have "i - k = Suc (i - Suc k)" if "Suc k \<le> i" using that by simp
    then show ?thesis using False Cons.IH [of "Suc k"]
      by (cases "Suc k \<le> i") (auto simp: All_less_Suc2)
  qed
qed auto

lemma find_owner_None: "find_owner owner its k = None \<longleftrightarrow> (\<forall>it \<in> set its. lock_node_id it \<noteq> owner)"
  by (induction its arbitrary: k) auto

lemma rollback_loop_two:
  assumes "a \<noteq> b"
  shows "rollback_loop a its is \<noteq> Some False \<and> rollback_loop b its is \<noteq> Some False \<longleftrightarrow>
     (\<forall>i \<in> set is. lock_node_id (its ! i) = '''')"
  using assms by (induction "is") auto

lemma set_before_owner: "i < n \<Longrightarrow> set (before_owner n i) = {..<n} - {i}"
proof (intro set_eqI iffI)
  fix j assume i: "i < n" and "j \<in> set (before_owner n i)"
  then obtain idx where idx: "1 \<le> idx" "idx < n" "j = (n + i - idx) mod n" by (auto simp: before_owner_def)
  then show "j \<in> {..<n} - {i}"
    using i by (cases "idx \<le> i") (auto simp: mod_if)
next
  fix j assume i: "i < n" and j: "j \<in> {..<n} - {i}"
  define idx where "idx = (if j < i then i - j else n + i - j)"
  have "1 \<le> idx" "idx < n" "(n + i - idx) mod n = j" using i j by (auto simp: idx_def)
  then show "j \<in> set (before_owner n i)" unfolding before_owner_def by force
qed

lemma set_from_last: "set (from_last n) = {..<n}"
proof (intro set_eqI iffI)
  fix j assume "j \<in> {..<n}"
  then have "j = n - (n - j)" "n - j \<in> {1..<Suc n}" by auto
  then show "j \<in> set (from_last n)" unfolding from_last_def by (metis image_eqI set_map set_upt)
qed (auto simp: from_last_def)

definition first_lock_of_owner :: "processing_queue \<Rightarrow> nat \<Rightarrow> bool" where
  "first_lock_of_owner q j \<longleftrightarrow>
     lock_node_id (items q ! j) = owner_node_id q \<and> (\<forall>k < j. lock_node_id (items q ! k) \<noteq> owner_node_id q)"

lemma rollback_loop_decides:
  "owner_node_id q \<noteq> a \<Longrightarrow> snd (RollbackOwnership (holder a is q)) \<longleftrightarrow>
     rollback_loop a (items q) (case find_owner (owner_node_id q) (items q) 0 of
       Some i \<Rightarrow> before_owner (length (items q)) i | None \<Rightarrow> from_last (length (items q))) \<noteq> Some False"
  by (auto simp: RollbackOwnership_def Let_def split: option.splits)

lemma rollback_two:
  assumes "a \<noteq> b" and "owner_node_id q \<noteq> a" and "owner_node_id q \<noteq> b"
  shows "snd (RollbackOwnership (holder a is q)) \<and> snd (RollbackOwnership (holder b js q)) \<longleftrightarrow>
    (\<forall>j < length (items q). lock_node_id (items q ! j) \<noteq> '''' \<longrightarrow> first_lock_of_owner q j)"
proof (cases "find_owner (owner_node_id q) (items q) 0")
  case None
  then have "first_lock_of_owner q j \<Longrightarrow> j < length (items q) \<Longrightarrow> False" for j
    by (auto simp: find_owner_None first_lock_of_owner_def)
  moreover have "snd (RollbackOwnership (holder a is q)) \<and> snd (RollbackOwnership (holder b js q)) \<longleftrightarrow>
    (\<forall>j \<in> {..<length (items q)}. lock_node_id (items q ! j) = '''')"
    using rollback_loop_two [OF assms(1), of "items q" "from_last (length (items q))"]
    by (simp only: rollback_loop_decides [OF assms(2)] rollback_loop_decides [OF assms(3)] None option.case set_from_last)
  ultimately show ?thesis by blast
next
  case (Some i)
  then have i: "i < length (items q)" "first_lock_of_owner q j \<longleftrightarrow> j = i" if "j < length (items q)" for j
    using that by (auto simp: find_owner_Some first_lock_of_owner_def) (metis linorder_neqE_nat)
  have n: "i < length (items q)" using Some by (simp add: find_owner_Some)
  have "snd (RollbackOwnership (holder a is q)) \<and> snd (RollbackOwnership (holder b js q)) \<longleftrightarrow>
    (\<forall>j \<in> {..<length (items q)} - {i}. lock_node_id (items q ! j) = '''')"
    using rollback_loop_two [OF assms(1), of "items q" "before_owner (length (items q)) i"]
    by (simp only: rollback_loop_decides [OF assms(2)] rollback_loop_decides [OF assms(3)] Some option.case
        set_before_owner [OF n])
  then show ?thesis using i(2) by auto
qed

subsection \<open>Requests\<close>

lemma shift_requests_length [simp]: "length (shift_requests rs i k) = length rs"
  by (induction rs i k rule: shift_requests.induct) auto

lemma shift_requests_eq:
  "i + k < length rs \<Longrightarrow> shift_requests rs i k = take i rs @ take k (drop (Suc i) rs) @ drop (i + k) rs"
proof (induction k arbitrary: rs i)
  case (Suc k)
  have l: "Suc i < length rs" using Suc.prems by simp
  have "shift_requests (rs[i := rs ! Suc i]) (Suc i) k =
    take (Suc i) (rs[i := rs ! Suc i]) @ take k (drop (Suc (Suc i)) (rs[i := rs ! Suc i])) @ drop (Suc i + k) (rs[i := rs ! Suc i])"
    by (rule Suc.IH) (use Suc.prems in simp)
  also have "take (Suc i) (rs[i := rs ! Suc i]) = take i rs @ [rs ! Suc i]"
    using l by (simp add: take_Suc_conv_app_nth)
  also have "drop (Suc i) rs = rs ! Suc i # drop (Suc (Suc i)) rs"
    using l by (simp add: Cons_nth_drop_Suc)
  ultimately show ?case by (simp add: \<open>drop (Suc i) rs = _\<close>)
qed simp

lemma butlast_shift_requests: "rs \<noteq> [] \<Longrightarrow> butlast (shift_requests rs 0 (length rs - 1)) = tl rs"
proof -
  assume rs: "rs \<noteq> []"
  then have "shift_requests rs 0 (length rs - 1) = take (length rs - 1) (drop (Suc 0) rs) @ drop (length rs - 1) rs"
    by (subst shift_requests_eq) auto
  also have "take (length rs - 1) (drop (Suc 0) rs) = tl rs" by (simp add: drop_Suc)
  also have "drop (length rs - 1) rs = [last rs]"
    using rs by (metis append_butlast_last_id append_eq_conv_conj length_butlast)
  finally show ?thesis by simp
qed

lemma lock_loop_requests: "lock_loop node now is q = Inr (q', r) \<Longrightarrow> ownership_requests q' = ownership_requests q"
  by (induction node now "is" q rule: lock_loop.induct) (auto split: if_splits)

lemma unlock_loop_requests: "unlock_loop now is q b = Inr (q', u) \<Longrightarrow> ownership_requests q' = ownership_requests q"
  by (induction now "is" q b rule: unlock_loop.induct) (auto split: if_splits)

lemma node_step_requests:
  assumes "node_step node is a q = Inr q'"
  shows "map node_id (ownership_requests q) @ asked [(node, is, a)] =
    (if a = NextRequest \<and> snd (ProcessNextOwnershipRequest (holder node is q)) then [owner_node_id q'] else []) @
    map node_id (ownership_requests q')"
proof (cases a)
  case (Grab now)
  then show ?thesis using assms
    by (auto simp: GrabItem_def LockItem_def rmap_def queue_after_def dest!: lock_loop_requests split: sum.splits if_splits option.splits)
next
  case (Unlock now)
  then show ?thesis using assms
    by (auto simp: UnlockExpiredItems_def rmap_def queue_after_def Let_def dest!: unlock_loop_requests split: sum.splits if_splits option.splits)
next
  case NextRequest
  show ?thesis
  proof (cases "ownership_requests q")
    case (Cons r rs)
    then show ?thesis using assms NextRequest butlast_shift_requests [of "r # rs"]
      by (auto simp: ProcessNextOwnershipRequest_def ChangeOwnershipTo_def Let_def queue_after_def)
  qed (use assms NextRequest in \<open>auto simp: ProcessNextOwnershipRequest_def\<close>)
qed (use assms in \<open>auto simp: pq_MoveOwnershipTo_def RollbackOwnership_def AddOwnershipRequest_def ChangeOwnershipTo_def Let_def
    queue_after_def split: option.splits if_splits\<close>)

lemma asked_Cons: "asked (x # run) = asked [x] @ asked run"
  by (cases x; cases "snd (snd x)") auto

section \<open>Properties\<close>

text \<open>
  C14. A locked subtask belongs to its holder until the lock expires. Whatever sequence of operations any nodes
  perform on the queue (grabbing items, freeing expired ones, moving, rolling back, requesting and handing over the
  ownership), the sequence succeeds, and an item that is locked keeps its holder and its times, as long as no node
  frees expired items at a time after the expiration of this lock.
\<close>
theorem lock_held_until_expiry:
  assumes "\<forall>(node, is, a) \<in> set run. enabled_ok is q" and "j < length (items q)"
    and "lock_node_id (items q ! j) \<noteq> ''''"
    and "\<forall>(node, is, a) \<in> set run. \<not> unlocks_after (lock_expiration_timestamp (items q ! j)) a"
  shows "\<exists>q'. node_run run q = Inr q' \<and> length (items q') = length (items q) \<and> items q' ! j = items q ! j"
  using assms by (rule node_run_keeps_lock)

theorem lock_held_until_expiry_witness:
  "\<exists>q'. node_run [(''b'', [0, 1], Unlock 20), (''b'', [0, 1], Grab 21), (''b'', [], MoveTo ''c''), (''c'', [0], Grab 22)]
       \<lparr>items = [\<lparr>lock_timestamp = 10, lock_node_id = ''a'', lock_expiration_timestamp = 25\<rparr>, free_item],
        last_update_timestamp = 10, processing_timeout_length = 15, owner_node_id = ''b'', ownership_requests = [],
        processed_subtask_ids = []\<rparr> = Inr q' \<and> length (items q') = 2 \<and>
     items q' ! 0 = \<lparr>lock_timestamp = 10, lock_node_id = ''a'', lock_expiration_timestamp = 25\<rparr>"
  using lock_held_until_expiry
    [of "[(''b'', [0, 1], Unlock 20), (''b'', [0, 1], Grab 21), (''b'', [], MoveTo ''c''), (''c'', [0], Grab 22)]"
        "\<lparr>items = [\<lparr>lock_timestamp = 10, lock_node_id = ''a'', lock_expiration_timestamp = 25\<rparr>, free_item],
        last_update_timestamp = 10, processing_timeout_length = 15, owner_node_id = ''b'', ownership_requests = [],
        processed_subtask_ids = []\<rparr>" 0]
  by (auto simp: enabled_ok_def unlocks_after_def)

text \<open>
  C17. When the owner of a queue is lost, at most one node takes over, unless nothing tells the nodes apart: two
  different nodes that are not the owner both succeed in rolling the ownership of the same snapshot back to
  themselves exactly if no item is locked but the first one locked by the owner.
\<close>
theorem rollback_at_most_one:
  assumes "a \<noteq> b" and "owner_node_id q \<noteq> a" and "owner_node_id q \<noteq> b"
  shows "snd (RollbackOwnership (holder a is q)) \<and> snd (RollbackOwnership (holder b js q)) \<longleftrightarrow>
    (\<forall>j < length (items q). lock_node_id (items q ! j) \<noteq> '''' \<longrightarrow> first_lock_of_owner q j)"
  using assms by (rule rollback_two)

theorem rollback_at_most_one_witness:
  "\<not> (snd (RollbackOwnership (holder ''a'' [0, 1]
         \<lparr>items = [lock_item ''a'' 1 5, lock_item ''c'' 2 5], last_update_timestamp = 2, processing_timeout_length = 5,
          owner_node_id = ''c'', ownership_requests = [], processed_subtask_ids = []\<rparr>)) \<and>
      snd (RollbackOwnership (holder ''b'' [0, 1]
         \<lparr>items = [lock_item ''a'' 1 5, lock_item ''c'' 2 5], last_update_timestamp = 2, processing_timeout_length = 5,
          owner_node_id = ''c'', ownership_requests = [], processed_subtask_ids = []\<rparr>)))"
  using rollback_at_most_one [of "''a''" "''b''" "\<lparr>items = [lock_item ''a'' 1 5, lock_item ''c'' 2 5],
      last_update_timestamp = 2, processing_timeout_length = 5, owner_node_id = ''c'', ownership_requests = [],
      processed_subtask_ids = []\<rparr>" "[0, 1]" "[0, 1]"]
  by (auto simp: first_lock_of_owner_def lock_item_def less_Suc_eq)

text \<open>
  C18. Nodes that receive the same snapshots agree. If no two snapshots carry the same time, every order of delivery
  leaves a node with the same queue and the same enabled items, and the queue is at least as recent as
  each of the snapshots.
\<close>
theorem snapshots_converge:
  assumes "mset ms = mset ms'" and "inj_on snapshot_time (set ms)"
  shows "fold deliver ms s = fold deliver ms' s \<and>
    (\<forall>m \<in> set ms. \<exists>q. m_queue (fold deliver ms s) = Some q \<and> snapshot_time m \<le> last_update_timestamp q)"
proof -
  have "deliver x \<circ> deliver y = deliver y \<circ> deliver x" if "x \<in> set ms" "y \<in> set ms" for x y
  proof (cases "x = y")
    case False
    then have "snapshot_time x \<noteq> snapshot_time y" using that assms(2) by (auto dest: inj_onD)
    then show ?thesis by (auto simp: fun_eq_iff deliver_commute)
  qed simp
  then have "fold deliver ms = fold deliver ms'" using assms(1) by (rule fold_multiset_equiv)
  then show ?thesis using deliver_latest [of _ ms s] by simp
qed

theorem snapshots_converge_witness:
  "let q = \<lparr>items = [free_item], last_update_timestamp = 1, processing_timeout_length = 5, owner_node_id = ''a'',
             ownership_requests = [], processed_subtask_ids = []\<rparr>;
       q' = q\<lparr>last_update_timestamp := 2, owner_node_id := ''b''\<rparr>
   in fold deliver [(q, [0]), (q', [])] (ProcessingSubTaskQueue ''c'') =
      fold deliver [(q', []), (q, [0])] (ProcessingSubTaskQueue ''c'')"
  using snapshots_converge [of
      "[(\<lparr>items = [free_item], last_update_timestamp = 1, processing_timeout_length = 5, owner_node_id = ''a'',
             ownership_requests = [], processed_subtask_ids = []\<rparr>, [0]),
        (\<lparr>items = [free_item], last_update_timestamp = 2, processing_timeout_length = 5, owner_node_id = ''b'',
             ownership_requests = [], processed_subtask_ids = []\<rparr>, [])]"
      "[(\<lparr>items = [free_item], last_update_timestamp = 2, processing_timeout_length = 5, owner_node_id = ''b'',
             ownership_requests = [], processed_subtask_ids = []\<rparr>, []),
        (\<lparr>items = [free_item], last_update_timestamp = 1, processing_timeout_length = 5, owner_node_id = ''a'',
             ownership_requests = [], processed_subtask_ids = []\<rparr>, [0])]"
      "ProcessingSubTaskQueue ''c''"]
  by (simp add: Let_def add_mset_commute)



end
