(* ===== verification/Queue_Manager.thy ===== *)
theory Queue_Manager
  imports Subtask_Queue
begin

text \<open>
  The manager of the shared subtask queue on one node (\<^verbatim>\<open>processing/processing_subtask_queue_manager.cpp\<close>).
  It creates the queue or takes it from messages of other nodes, hands subtasks to the callbacks of the processing
  engine, answers requests for the ownership and keeps the time of the queue while it owns it.

  The processing queue inside \<^verbatim>\<open>m_queue\<close> is the object that \<^verbatim>\<open>m_processingQueue\<close> points to, so the model holds it
  once, in \<open>m_processingQueue\<close>, and \<open>m_subtasks\<close> holds the other part of the message; both are \<open>None\<close> when the pointer is
  null. Calls of other objects (the channel, the timers, callbacks and sinks) are recorded in \<open>calls\<close> in the order they
  are made. Readings of the clock and of the number of active nodes come from an environment, numbered by \<open>reads\<close>.
  Operations run under the mutex of the manager, one at a time; a callback runs on its own thread and comes back as a
  later operation.
\<close>

section \<open>Definitions\<close>

record subtask =
  ipfsblock :: string
  json_data :: string
  chunksToProcess :: "(string \<times> u32) list"
  datalen :: u32
  subtaskid :: string

record queue_message =
  msg_processing_queue :: processing_queue
  msg_subtasks :: "subtask list"

datatype timer_call = ExpiresInfinity | ExpiresFromNow u64 | AsyncWait | Cancel

datatype call =
    PublishQueue "queue_message option"
  | RequestQueueOwnership string
  | RunCallback nat "subtask option"
  | AssignmentSink "string list"
  | GrabTimer timer_call
  | QueueTimer timer_call

text \<open>
  The steady clock counts nanoseconds; the tick of \<^verbatim>\<open>system_clock::duration\<close> depends on the implementation of the
  standard library (\<open>ticks_per_ms\<close> is \<open>10 ^ 6\<close> for libstdc++ and \<open>10 ^ 3\<close> for libc++).
\<close>

record environment =
  steady_clock :: "nat \<Rightarrow> nat"
  active_nodes :: "nat \<Rightarrow> nat"
  ticks_per_ms :: nat

record manager =
  m_nodeId :: string
  m_subtasks :: "subtask list option"
  m_onSubTaskGrabbedCallbacks :: "nat list"
  m_hasAssignmentSink :: bool
  m_processedSubTaskIds :: "string list"
  m_processingQueue :: subtask_queue
  m_processingTimeout :: nat
  m_queue_timestamp :: u64
  m_ownership_acquired_at :: u64
  m_ownership_last_delta_time :: u64
  m_lastQueueUpdateTime :: nat
  m_processedSubtasksInCurrentOwnership :: nat
  m_defaultMaxSubtasksPerOwnership :: nat
  m_maxSubtasksPerOwnership :: nat
  m_lastActiveCountCheck :: nat
  m_waitTimeBeforeReset :: u64
  m_initialDelayPassed :: bool
  reads :: nat
  calls :: "call list"

definition ms_of :: "nat \<Rightarrow> u64" where
  "ms_of ns = of_nat (ns div 1000000)"

definition read_clock :: "environment \<Rightarrow> manager \<Rightarrow> nat \<times> manager" where
  "read_clock env m = (steady_clock env (reads m), m\<lparr>reads := Suc (reads m)\<rparr>)"

definition log_call :: "call \<Rightarrow> manager \<Rightarrow> manager" where
  "log_call c m = m\<lparr>calls := calls m @ [c]\<rparr>"

definition upd_queue :: "(processing_queue \<Rightarrow> processing_queue) \<Rightarrow> manager \<Rightarrow> manager" where
  "upd_queue f m = m\<lparr>m_processingQueue :=
     (m_processingQueue m)\<lparr>m_queue := map_option f (m_queue (m_processingQueue m))\<rparr>\<rparr>"

definition the_message :: "manager \<Rightarrow> queue_message option" where
  "the_message m = (case (m_queue (m_processingQueue m), m_subtasks m) of
     (Some q, Some sts) \<Rightarrow> Some \<lparr>msg_processing_queue = q, msg_subtasks = sts\<rparr> | _ \<Rightarrow> None)"

definition ProcessingSubTaskQueueManager :: "environment \<Rightarrow> string \<Rightarrow> manager" where
  "ProcessingSubTaskQueueManager env localNodeId = \<lparr>m_nodeId = localNodeId, m_subtasks = None,
     m_onSubTaskGrabbedCallbacks = [], m_hasAssignmentSink = False, m_processedSubTaskIds = [],
     m_processingQueue = ProcessingSubTaskQueue localNodeId, m_processingTimeout = 15000 * ticks_per_ms env,
     m_queue_timestamp = 0, m_ownership_acquired_at = 0, m_ownership_last_delta_time = 0,
     m_lastQueueUpdateTime = steady_clock env 0, m_processedSubtasksInCurrentOwnership = 0,
     m_defaultMaxSubtasksPerOwnership = 1, m_maxSubtasksPerOwnership = 1,
     m_lastActiveCountCheck = steady_clock env 1, m_waitTimeBeforeReset = 3000, m_initialDelayPassed = False,
     reads = 2, calls = []\<rparr>"

definition SetProcessingTimeout :: "nat \<Rightarrow> manager \<Rightarrow> manager" where
  "SetProcessingTimeout processingTimeout m = m\<lparr>m_processingTimeout := processingTimeout\<rparr>"

definition SetMaxSubtasksPerOwnership :: "nat \<Rightarrow> manager \<Rightarrow> manager" where
  "SetMaxSubtasksPerOwnership k m = m\<lparr>m_defaultMaxSubtasksPerOwnership := k\<rparr>"

definition HasOwnership :: "manager \<Rightarrow> bool" where
  "HasOwnership m = pq_HasOwnership (m_processingQueue m)"

definition IsQueueInit :: "manager \<Rightarrow> bool" where
  "IsQueueInit m \<longleftrightarrow> m_subtasks m \<noteq> None"

definition UpdateQueueTimestamp :: "environment \<Rightarrow> manager \<Rightarrow> manager" where
  "UpdateQueueTimestamp env m =
     (if HasOwnership m then
        let (now, m) = read_clock env m;
            current_time_ms = ms_of now;
            ownership_duration_delta_ms = current_time_ms - m_ownership_last_delta_time m;
            m = m\<lparr>m_queue_timestamp := m_queue_timestamp m + ownership_duration_delta_ms,
                  m_ownership_last_delta_time := current_time_ms\<rparr>
        in if m_subtasks m \<noteq> None
           then upd_queue (\<lambda>q. q\<lparr>last_update_timestamp := m_queue_timestamp m\<rparr>) m else m
      else m)"

definition GetCurrentQueueTimestamp :: "environment \<Rightarrow> manager \<Rightarrow> u64 \<times> manager" where
  "GetCurrentQueueTimestamp env m = (let m = UpdateQueueTimestamp env m in (m_queue_timestamp m, m))"

definition PublishSubTaskQueue :: "environment \<Rightarrow> manager \<Rightarrow> manager" where
  "PublishSubTaskQueue env m =
     (let m = UpdateQueueTimestamp env m in log_call (PublishQueue (the_message m)) m)"

fun unprocessed_loop ::
    "string list \<Rightarrow> u64 \<Rightarrow> queue_item list \<Rightarrow> subtask list \<Rightarrow> nat \<Rightarrow> queue_error + nat list" where
  "unprocessed_loop processed now its [] idx = Inr []"
| "unprocessed_loop processed now its (st # sts) idx =
     (if length its \<le> idx then Inl ItemOutOfRange
      else rmap (\<lambda>is. if subtaskid st \<notin> set processed \<and>
                        (lock_node_id (its ! idx) = '''' \<or> lock_timestamp (its ! idx) \<le> now)
                     then idx # is else is)
             (unprocessed_loop processed now its sts (Suc idx)))"

definition UpdateUnprocessedSubTaskIndices :: "queue_message \<Rightarrow> manager \<Rightarrow> queue_error + nat list" where
  "UpdateUnprocessedSubTaskIndices queue m =
     unprocessed_loop (m_processedSubTaskIds m) (m_queue_timestamp m) (items (msg_processing_queue queue))
       (msg_subtasks queue) 0"

definition HasAvailableWork :: "bool \<Rightarrow> manager \<Rightarrow> queue_error + bool" where
  "HasAvailableWork checkOwnershipQuota m =
     (if checkOwnershipQuota \<and> m_maxSubtasksPerOwnership m \<le> m_processedSubtasksInCurrentOwnership m then Inr False
      else case the_message m of
        None \<Rightarrow> Inr False
      | Some queue \<Rightarrow> rmap (\<lambda>is. is \<noteq> []) (UpdateUnprocessedSubTaskIndices queue m))"

definition IsProcessed :: "manager \<Rightarrow> bool" where
  "IsProcessed m = (case m_subtasks m of None \<Rightarrow> False
     | Some sts \<Rightarrow> length sts \<le> length (m_processedSubTaskIds m))"

definition assign_sink :: "subtask list \<Rightarrow> manager \<Rightarrow> manager" where
  "assign_sink sts m = log_call (AssignmentSink (map subtaskid sts)) m"

definition CreateQueue :: "environment \<Rightarrow> subtask list \<Rightarrow> manager \<Rightarrow> bool \<times> manager" where
  "CreateQueue env subTasks m =
     (if \<exists>st \<in> set subTasks. chunksToProcess st = [] then (False, m)
      else
        let (now, m) = read_clock env m;
            m = m\<lparr>m_ownership_acquired_at := ms_of now, m_queue_timestamp := ms_of now,
                  m_ownership_last_delta_time := ms_of now\<rparr>;
            processingQueue = \<lparr>items = replicate (length subTasks) free_item,
              last_update_timestamp = m_queue_timestamp m, processing_timeout_length = of_nat (m_processingTimeout m),
              owner_node_id = '''', ownership_requests = [], processed_subtask_ids = []\<rparr>;
            m = m\<lparr>m_subtasks := Some subTasks, m_processedSubTaskIds := []\<rparr>;
            unprocessed = filter (\<lambda>i. subtaskid (subTasks ! i) \<notin> set (m_processedSubTaskIds m)) [0..<length subTasks];
            m = m\<lparr>m_processingQueue := pq_CreateQueue (m_processingQueue m) processingQueue unprocessed\<rparr>;
            m = PublishSubTaskQueue env m
        in (True, if m_hasAssignmentSink m then assign_sink subTasks m else m))"

fun merge_processed :: "string list \<Rightarrow> string list \<Rightarrow> bool \<Rightarrow> string list \<times> bool" where
  "merge_processed [] s changed = (s, changed)"
| "merge_processed (i # ids) s changed =
     (if i \<in> set s then merge_processed ids s changed else merge_processed ids (sset_insert i s) True)"

definition merge_snapshot ::
    "environment \<Rightarrow> processing_queue \<Rightarrow> manager \<Rightarrow> bool \<times> processing_queue \<times> manager" where
  "merge_snapshot env pq m =
     (if \<not> HasOwnership m then
        let m = UpdateQueueTimestamp env (m\<lparr>m_queue_timestamp := last_update_timestamp pq\<rparr>)
        in (False, pq, m\<lparr>m_processedSubTaskIds := fold sset_insert (processed_subtask_ids pq) (m_processedSubTaskIds m)\<rparr>)
      else
        let (processed, changed) = merge_processed (processed_subtask_ids pq) (m_processedSubTaskIds m) False;
            m = m\<lparr>m_processedSubTaskIds := processed\<rparr>
        in (changed, pq\<lparr>processed_subtask_ids := processed\<rparr>,
            if changed
            then PublishSubTaskQueue env (UpdateQueueTimestamp env (m\<lparr>m_queue_timestamp := last_update_timestamp pq\<rparr>))
            else m))"

definition UpdateQueue :: "environment \<Rightarrow> queue_message option \<Rightarrow> manager \<Rightarrow> queue_error + (bool \<times> manager)" where
  "UpdateQueue env pQueue m = (case pQueue of
       None \<Rightarrow> Inr (False, m)
     | Some queue \<Rightarrow>
         let (queueChanged, pq, m) = merge_snapshot env (msg_processing_queue queue) m
         in rbind (UpdateUnprocessedSubTaskIndices (queue\<lparr>msg_processing_queue := pq\<rparr>) m) (\<lambda>unprocessed.
            let (s, updated) = pq_UpdateQueue (m_processingQueue m) pq unprocessed
            in if updated then Inr (True, m\<lparr>m_processingQueue := s, m_subtasks := Some (msg_subtasks queue)\<rparr>)
               else Inr (queueChanged, m)))"

definition CheckActiveCount :: "environment \<Rightarrow> manager \<Rightarrow> queue_error + manager" where
  "CheckActiveCount env m =
     (let active = active_nodes env (reads m);
          (now, m) = read_clock env m;
          duration = ms_of (now - m_lastActiveCountCheck m);
          busy = (\<lambda>m. m\<lparr>m_maxSubtasksPerOwnership := m_defaultMaxSubtasksPerOwnership m,
                        m_waitTimeBeforeReset := 100, m_initialDelayPassed := True\<rparr>);
          alone = (\<lambda>m. if m_waitTimeBeforeReset m < duration then
                         let m' = m\<lparr>m_processedSubtasksInCurrentOwnership := 0,
                                   m_maxSubtasksPerOwnership := m_defaultMaxSubtasksPerOwnership m\<rparr>
                         in if m_initialDelayPassed m' then m'
                            else m'\<lparr>m_waitTimeBeforeReset := 100, m_initialDelayPassed := True\<rparr>
                       else m);
          checked = (\<lambda>m. m\<lparr>m_lastActiveCountCheck := now\<rparr>)
      in if 1 < active then Inr (checked (busy m))
         else case the_message m of
           None \<Rightarrow> Inl NullQueue
         | Some queue \<Rightarrow>
             Inr (checked (if 0 < length (ownership_requests (msg_processing_queue queue)) then busy m else alone m)))"

definition CalculateGrabSubTaskTimeout :: "environment \<Rightarrow> manager \<Rightarrow> queue_error + u64" where
  "CalculateGrabSubTaskTimeout env m =
     rmap (\<lambda>lastLockTimestamp.
         let timeoutMs = of_nat (m_processingTimeout m div ticks_per_ms env);
             lockExpirationTime = lastLockTimestamp + timeoutMs
         in if m_queue_timestamp m < lockExpirationTime
            then min (lockExpirationTime - m_queue_timestamp m) (m_waitTimeBeforeReset m) else 1)
       (GetLastLockTimestamp (m_processingQueue m))"

text \<open>
  The loop that serves the callbacks: it ends because every round serves a callback or frees a locked item.
\<close>

definition locked_count :: "subtask_queue \<Rightarrow> nat" where
  "locked_count s = (case m_queue s of None \<Rightarrow> 0
     | Some q \<Rightarrow> length (filter (\<lambda>it. lock_node_id it \<noteq> '''') (items q)))"

lemma locked_update_free:
  "i < length its \<Longrightarrow> lock_node_id (its ! i) \<noteq> '''' \<Longrightarrow>
   length (filter (\<lambda>it. lock_node_id it \<noteq> '''') (its[i := free_item])) <
   length (filter (\<lambda>it. lock_node_id it \<noteq> '''') its)"
  by (induction its arbitrary: i) (auto simp: free_item_def nth_Cons' split: nat.splits)

lemma unlock_loop_count:
  "unlock_loop now is q b = Inr (q', u) \<Longrightarrow>
   length (filter (\<lambda>it. lock_node_id it \<noteq> '''') (items q')) \<le>
   length (filter (\<lambda>it. lock_node_id it \<noteq> '''') (items q)) \<and>
   (u \<longrightarrow> b \<or> length (filter (\<lambda>it. lock_node_id it \<noteq> '''') (items q')) <
            length (filter (\<lambda>it. lock_node_id it \<noteq> '''') (items q)))"
proof (induction now "is" q b rule: unlock_loop.induct)
  case (2 now i "is" q b)
  then show ?case
    using locked_update_free [of i "items q"] by (auto split: if_splits)
qed simp

lemma UnlockExpiredItems_count:
  "UnlockExpiredItems s now = Inr (s', True) \<Longrightarrow> locked_count s' < locked_count s"
  by (auto simp: UnlockExpiredItems_def locked_count_def Let_def rmap_def dest!: unlock_loop_count
      split: option.splits if_splits)

lemma lock_loop_None: "lock_loop node now is q = Inr (q', None) \<Longrightarrow> q' = q"
  by (induction node now "is" q rule: lock_loop.induct) (auto split: if_splits)

lemma GrabItem_None: "GrabItem s now = Inr (s', None) \<Longrightarrow> locked_count s' = locked_count s"
  by (auto simp: GrabItem_def LockItem_def locked_count_def rmap_def dest!: lock_loop_None
      split: option.splits if_splits)

lemma PublishSubTaskQueue_callbacks [simp]:
  "m_onSubTaskGrabbedCallbacks (PublishSubTaskQueue env m) = m_onSubTaskGrabbedCallbacks m"
  by (simp add: PublishSubTaskQueue_def UpdateQueueTimestamp_def read_clock_def upd_queue_def log_call_def Let_def)

function grab_loop :: "environment \<Rightarrow> manager \<Rightarrow> queue_error + (bool \<times> manager)" where
  "grab_loop env m = (case m_onSubTaskGrabbedCallbacks m of
       [] \<Rightarrow> Inr (False, m)
     | callback # callbacks \<Rightarrow>
         if m_maxSubtasksPerOwnership m \<le> m_processedSubtasksInCurrentOwnership m then Inr (False, m)
         else rbind (GrabItem (m_processingQueue m) (m_queue_timestamp m)) (\<lambda>(s, grabbed).
           case grabbed of
             Some itemIdx \<Rightarrow>
               let m1 = PublishSubTaskQueue env (m\<lparr>m_processingQueue := s\<rparr>);
                   m2 = m1\<lparr>m_processedSubtasksInCurrentOwnership := Suc (m_processedSubtasksInCurrentOwnership m1)\<rparr>
               in (case the_message m2 of
                     None \<Rightarrow> Inl NullQueue
                   | Some queue \<Rightarrow>
                       if length (msg_subtasks queue) \<le> itemIdx then Inl ItemOutOfRange
                       else
                         let m3 = log_call (RunCallback callback (Some (msg_subtasks queue ! itemIdx)))
                                    (m2\<lparr>m_onSubTaskGrabbedCallbacks := callbacks\<rparr>)
                         in if 0 < length (ownership_requests (msg_processing_queue queue)) then Inr (True, m3)
                            else grab_loop env m3)
           | None \<Rightarrow>
               rbind (UnlockExpiredItems s (m_queue_timestamp m)) (\<lambda>(s', unlocked).
                 if unlocked then grab_loop env (m\<lparr>m_processingQueue := s'\<rparr>)
                 else Inr (False, m\<lparr>m_processingQueue := s'\<rparr>))))"
  by pat_completeness auto
termination
  by (relation "measures [\<lambda>(env, m). length (m_onSubTaskGrabbedCallbacks m),
      \<lambda>(env, m). locked_count (m_processingQueue m)]")
    (auto simp: log_call_def dest!: UnlockExpiredItems_count GrabItem_None)

declare grab_loop.simps [simp del]

definition drain_callbacks :: "manager \<Rightarrow> manager" where
  "drain_callbacks m =
     (fold (\<lambda>callback. log_call (RunCallback callback None)) (m_onSubTaskGrabbedCallbacks m) m)
       \<lparr>m_onSubTaskGrabbedCallbacks := []\<rparr>"

definition readd_request :: "environment \<Rightarrow> bool \<Rightarrow> manager \<Rightarrow> manager" where
  "readd_request env losingOwnership m =
     (if losingOwnership \<and> \<not> HasOwnership m \<and> \<not> IsProcessed m then
        let m = UpdateQueueTimestamp env m;
            (s, _) = AddOwnershipRequest (m_processingQueue m) (m_nodeId m) (m_queue_timestamp m)
        in PublishSubTaskQueue env (m\<lparr>m_processingQueue := s\<rparr>)
      else m)"

definition finish_grabbing :: "environment \<Rightarrow> manager \<Rightarrow> queue_error + manager" where
  "finish_grabbing env m =
     (if m_onSubTaskGrabbedCallbacks m = [] then Inr m
      else case the_message m of
        None \<Rightarrow> Inl NullQueue
      | Some queue \<Rightarrow>
          if length (m_processedSubTaskIds m) < length (items (msg_processing_queue queue)) then
            rmap (\<lambda>t. log_call (GrabTimer AsyncWait) (log_call (GrabTimer (ExpiresFromNow t)) m))
              (CalculateGrabSubTaskTimeout env m)
          else Inr (drain_callbacks m))"

definition ProcessPendingSubTaskGrabbing :: "environment \<Rightarrow> manager \<Rightarrow> queue_error + manager" where
  "ProcessPendingSubTaskGrabbing env m =
     rbind (CheckActiveCount env (UpdateQueueTimestamp env (log_call (GrabTimer ExpiresInfinity) m))) (\<lambda>m.
     rbind (grab_loop env m) (\<lambda>(losingOwnership, m).
     finish_grabbing env (readd_request env losingOwnership m)))"

definition GrabSubTasks :: "environment \<Rightarrow> manager \<Rightarrow> queue_error + manager" where
  "GrabSubTasks env m =
     (if HasOwnership m then ProcessPendingSubTaskGrabbing env m
      else Inr (log_call (RequestQueueOwnership (m_nodeId m)) m))"

definition GrabSubTask :: "environment \<Rightarrow> nat \<Rightarrow> manager \<Rightarrow> queue_error + manager" where
  "GrabSubTask env callback m =
     GrabSubTasks env (m\<lparr>m_onSubTaskGrabbedCallbacks := m_onSubTaskGrabbedCallbacks m @ [callback]\<rparr>)"

definition HandleGrabSubTaskTimeout :: "environment \<Rightarrow> bool \<Rightarrow> manager \<Rightarrow> queue_error + manager" where
  "HandleGrabSubTaskTimeout env aborted m =
     (if aborted then Inr m
      else let m = log_call (GrabTimer ExpiresInfinity) m
           in if m_onSubTaskGrabbedCallbacks m = [] then Inr m
              else case the_message m of
                None \<Rightarrow> Inl NullQueue
              | Some queue \<Rightarrow>
                  if length (m_processedSubTaskIds m) < length (items (msg_processing_queue queue))
                  then GrabSubTasks env m else Inr m)"

definition MoveOwnershipTo :: "environment \<Rightarrow> string \<Rightarrow> manager \<Rightarrow> bool \<times> manager" where
  "MoveOwnershipTo env nodeId m =
     (let (s, moved) = pq_MoveOwnershipTo (m_processingQueue m) nodeId; m = m\<lparr>m_processingQueue := s\<rparr>
      in if moved then (True, PublishSubTaskQueue env m) else (False, m))"

text \<open>Receiving a snapshot: \<open>acquire\<close> is the part that runs when the message made this node the owner.\<close>

definition acquire :: "environment \<Rightarrow> queue_message \<Rightarrow> manager \<Rightarrow> queue_error + manager" where
  "acquire env queue m =
     (let (now, m) = read_clock env m;
          m = m\<lparr>m_ownership_acquired_at := ms_of now,
                m_queue_timestamp := last_update_timestamp (msg_processing_queue queue),
                m_ownership_last_delta_time := ms_of now, m_processedSubtasksInCurrentOwnership := 0\<rparr>
      in rbind (HasAvailableWork True m) (\<lambda>available.
         rmap (PublishSubTaskQueue env)
           (if available \<and> m_onSubTaskGrabbedCallbacks m \<noteq> []
            then ProcessPendingSubTaskGrabbing env (log_call (QueueTimer Cancel) (log_call (GrabTimer Cancel) m))
            else Inr m)))"

definition ProcessSubTaskQueueMessage ::
    "environment \<Rightarrow> queue_message \<Rightarrow> manager \<Rightarrow> queue_error + (bool \<times> manager)" where
  "ProcessSubTaskQueueMessage env queue m =
     (let hadOwnership = HasOwnership m;
          local_owner = (case the_message m of None \<Rightarrow> False
            | Some own \<Rightarrow> owner_node_id (msg_processing_queue own) = m_nodeId m)
      in if local_owner \<and> owner_node_id (msg_processing_queue queue) = m_nodeId m then Inr (False, m)
         else
           let m = log_call (QueueTimer ExpiresInfinity) m;
               queueInitialized = IsQueueInit m
           in rbind (UpdateQueue env (Some queue) m) (\<lambda>(queueChanged, m).
              rbind (if queueChanged then
                       let hasOwnershipNow = HasOwnership m
                       in rbind (if \<not> hadOwnership \<and> hasOwnershipNow then acquire env queue m else Inr m) (\<lambda>m.
                          if hasOwnershipNow then ProcessPendingSubTaskGrabbing env m else Inr m)
                     else Inr m) (\<lambda>m.
              Inr (queueChanged,
                   if m_hasAssignmentSink m \<and> \<not> queueInitialized \<and> queueChanged
                   then assign_sink (msg_subtasks queue) m else m))))"

text \<open>A pending request for the ownership, and the check that runs when the first one arrives and on the timer.\<close>

definition hand_on :: "environment \<Rightarrow> queue_message \<Rightarrow> manager \<Rightarrow> queue_error + (bool \<times> manager)" where
  "hand_on env queue m =
     (let (s, next) = (if 0 < length (ownership_requests (msg_processing_queue queue))
                       then ProcessNextOwnershipRequest (m_processingQueue m)
                       else (m_processingQueue m, False))
      in if next then Inr (True, PublishSubTaskQueue env (m\<lparr>m_processingQueue := s\<rparr>))
         else rmap (\<lambda>m. (True, m)) (ProcessPendingSubTaskGrabbing env m))"

definition take_over :: "environment \<Rightarrow> manager \<Rightarrow> queue_error + (bool \<times> manager)" where
  "take_over env m =
     (let (now, m) = read_clock env m;
          m = m\<lparr>m_ownership_acquired_at := ms_of now, m_ownership_last_delta_time := ms_of now,
                m_processedSubtasksInCurrentOwnership := 0\<rparr>
      in case the_message m of
           None \<Rightarrow> Inl NullQueue
         | Some queue \<Rightarrow>
             let m = PublishSubTaskQueue env
                   (m\<lparr>m_queue_timestamp := last_update_timestamp (msg_processing_queue queue)\<rparr>)
             in if HasOwnership m then hand_on env queue m else Inr (False, m))"

definition roll_back :: "environment \<Rightarrow> manager \<Rightarrow> queue_error + (bool \<times> manager)" where
  "roll_back env m =
     (let (current_time, m) = read_clock env m;
          (s, rolledBack) = RollbackOwnership (m_processingQueue m)
      in if 5000 < (current_time - m_lastQueueUpdateTime m) div 1000000 \<and> rolledBack
         then take_over env (m\<lparr>m_processingQueue := s\<rparr>)
         else Inr (False, m))"

definition HandleQueueRequestTimeout :: "environment \<Rightarrow> bool \<Rightarrow> manager \<Rightarrow> queue_error + manager" where
  "HandleQueueRequestTimeout env aborted m =
     (if aborted then Inr m
      else
        let m = log_call (QueueTimer ExpiresInfinity) m
        in rbind (HasAvailableWork False m) (\<lambda>available.
           case the_message m of
             None \<Rightarrow> Inl NullQueue
           | Some queue \<Rightarrow>
               if \<not> available then Inr (PublishSubTaskQueue env (upd_queue (\<lambda>q. q\<lparr>ownership_requests := []\<rparr>) m))
               else
                 let (s, next) = (if HasOwnership m \<and> 0 < length (ownership_requests (msg_processing_queue queue))
                                  then ProcessNextOwnershipRequest (m_processingQueue m)
                                  else (m_processingQueue m, False))
                 in if next then Inr (PublishSubTaskQueue env (m\<lparr>m_processingQueue := s\<rparr>))
                    else rmap (\<lambda>(finished, m). if finished then m
                           else log_call (QueueTimer (ExpiresFromNow 100)) (log_call (QueueTimer AsyncWait) m))
                         (roll_back env m)))"

definition ProcessSubTaskQueueRequestMessage ::
    "environment \<Rightarrow> string \<Rightarrow> u64 \<Rightarrow> manager \<Rightarrow> queue_error + (bool \<times> manager)" where
  "ProcessSubTaskQueueRequestMessage env requestingNodeId request_time m =
     rbind (if HasOwnership m then rmap Not (HasAvailableWork True m) else Inr False) (\<lambda>transfer.
     let (s, moved) = (if transfer then pq_MoveOwnershipTo (m_processingQueue m) requestingNodeId
                       else (m_processingQueue m, False))
     in if moved then Inr (True, PublishSubTaskQueue env (m\<lparr>m_processingQueue := s\<rparr>))
        else
          rbind (HasAvailableWork False m) (\<lambda>available.
          if \<not> available then Inr (True, m)
          else
            let (s, added) = AddOwnershipRequest (m_processingQueue m) requestingNodeId request_time
            in if \<not> added then Inr (True, m)
               else
                 let m = PublishSubTaskQueue env (m\<lparr>m_processingQueue := s\<rparr>)
                 in (case the_message m of
                       None \<Rightarrow> Inl NullQueue
                     | Some queue \<Rightarrow>
                         if length (ownership_requests (msg_processing_queue queue)) = 1
                         then rmap (\<lambda>m. (True, m))
                                (HandleQueueRequestTimeout env False (log_call (QueueTimer (ExpiresFromNow 5000)) m))
                         else Inr (True, m))))"

definition GetQueueSnapshot :: "manager \<Rightarrow> queue_message" where
  "GetQueueSnapshot m = (case the_message m of
       Some queue \<Rightarrow> queue
     | None \<Rightarrow> \<lparr>msg_processing_queue = \<lparr>items = [], last_update_timestamp = 0, processing_timeout_length = 0,
                 owner_node_id = '''', ownership_requests = [], processed_subtask_ids = []\<rparr>, msg_subtasks = []\<rparr>)"

fun change_states :: "string list \<Rightarrow> bool \<Rightarrow> manager \<Rightarrow> manager" where
  "change_states [] isProcessed m = m"
| "change_states (subTaskId # ids) isProcessed m =
     change_states ids isProcessed
       (if isProcessed then
          upd_queue (\<lambda>q. q\<lparr>processed_subtask_ids := processed_subtask_ids q @ [subTaskId]\<rparr>)
            (m\<lparr>m_processedSubTaskIds := sset_insert subTaskId (m_processedSubTaskIds m)\<rparr>)
        else
          let m = m\<lparr>m_processedSubTaskIds := sset_erase subTaskId (m_processedSubTaskIds m)\<rparr>
          in upd_queue (\<lambda>q. q\<lparr>processed_subtask_ids := m_processedSubTaskIds m\<rparr>) m)"

definition ChangeSubTaskProcessingStates ::
    "environment \<Rightarrow> string list \<Rightarrow> bool \<Rightarrow> manager \<Rightarrow> queue_error + manager" where
  "ChangeSubTaskProcessingStates env subTaskIds isProcessed m = (case the_message m of
       None \<Rightarrow> Inr m
     | Some _ \<Rightarrow>
         let m = change_states subTaskIds isProcessed m
         in (case the_message m of
               None \<Rightarrow> Inl NullQueue
             | Some queue \<Rightarrow>
                 rbind (UpdateUnprocessedSubTaskIndices queue m) (\<lambda>unprocessed.
                 let m = m\<lparr>m_processingQueue :=
                       fst (pq_UpdateQueue (m_processingQueue m) (msg_processing_queue queue) unprocessed)\<rparr>
                 in Inr (if HasOwnership m then PublishSubTaskQueue env m else m))))"

definition SetSubTaskQueueAssignmentEventSink :: "bool \<Rightarrow> manager \<Rightarrow> manager" where
  "SetSubTaskQueueAssignmentEventSink sink m =
     (let m = m\<lparr>m_hasAssignmentSink := sink\<rparr>
      in if sink then (case m_subtasks m of None \<Rightarrow> m | Some sts \<Rightarrow> assign_sink sts m) else m)"

text \<open>
  What happens to a manager: the calls of its owner, the messages of other nodes, and its timers. A message is well
  formed when it has an item for every subtask; a timer fires only after a wait for it has been started.
\<close>

datatype manager_op =
    OpCreate "subtask list"
  | OpReceive queue_message
  | OpRequest string u64
  | OpGrab nat
  | OpMove string
  | OpGrabTimeout bool
  | OpRequestTimeout bool
  | OpStates "string list" bool
  | OpSink bool
  | OpTimeout nat
  | OpMax nat

fun perform :: "environment \<Rightarrow> manager_op \<Rightarrow> manager \<Rightarrow> queue_error + manager" where
  "perform env (OpCreate sts) m = Inr (snd (CreateQueue env sts m))"
| "perform env (OpReceive queue) m = rmap snd (ProcessSubTaskQueueMessage env queue m)"
| "perform env (OpRequest node t) m = rmap snd (ProcessSubTaskQueueRequestMessage env node t m)"
| "perform env (OpGrab callback) m = GrabSubTask env callback m"
| "perform env (OpMove node) m = Inr (snd (MoveOwnershipTo env node m))"
| "perform env (OpGrabTimeout aborted) m = HandleGrabSubTaskTimeout env aborted m"
| "perform env (OpRequestTimeout aborted) m = HandleQueueRequestTimeout env aborted m"
| "perform env (OpStates ids isProcessed) m = ChangeSubTaskProcessingStates env ids isProcessed m"
| "perform env (OpSink sink) m = Inr (SetSubTaskQueueAssignmentEventSink sink m)"
| "perform env (OpTimeout t) m = Inr (SetProcessingTimeout t m)"
| "perform env (OpMax k) m = Inr (SetMaxSubtasksPerOwnership k m)"

definition message_ok :: "queue_message \<Rightarrow> bool" where
  "message_ok queue \<longleftrightarrow> length (msg_subtasks queue) \<le> length (items (msg_processing_queue queue))"

fun op_allowed :: "manager_op \<Rightarrow> manager \<Rightarrow> bool" where
  "op_allowed (OpReceive queue) m \<longleftrightarrow> message_ok queue"
| "op_allowed (OpGrabTimeout aborted) m \<longleftrightarrow> GrabTimer AsyncWait \<in> set (calls m)"
| "op_allowed (OpRequestTimeout aborted) m \<longleftrightarrow> QueueTimer AsyncWait \<in> set (calls m)"
| "op_allowed _ m \<longleftrightarrow> True"

inductive manager_reachable :: "environment \<Rightarrow> string \<Rightarrow> manager \<Rightarrow> bool" for env node where
  start: "manager_reachable env node (ProcessingSubTaskQueueManager env node)"
| step: "manager_reachable env node m \<Longrightarrow> op_allowed op m \<Longrightarrow> perform env op m = Inr m' \<Longrightarrow>
    manager_reachable env node m'"

text \<open>
  \<open>handed_ok\<close>: a subtask is handed to a callback only right after the queue has been published by its owner, this
  node, with the item of the subtask locked by this node.
\<close>

definition announces :: "string \<Rightarrow> queue_message \<Rightarrow> subtask \<Rightarrow> bool" where
  "announces node queue st \<longleftrightarrow> owner_node_id (msg_processing_queue queue) = node \<and>
     (\<exists>(it, st') \<in> set (zip (items (msg_processing_queue queue)) (msg_subtasks queue)).
        st' = st \<and> lock_node_id it = node)"

fun handed_ok :: "string \<Rightarrow> call option \<Rightarrow> call list \<Rightarrow> bool" where
  "handed_ok node prev [] \<longleftrightarrow> True"
| "handed_ok node prev (c # cs) \<longleftrightarrow>
     (case c of
        RunCallback callback (Some st) \<Rightarrow>
          (case prev of Some (PublishQueue (Some queue)) \<Rightarrow> announces node queue st | _ \<Rightarrow> False)
      | _ \<Rightarrow> True) \<and> handed_ok node (Some c) cs"

end
