(* ===== verification/Queue_Safety.thy ===== *)
theory Queue_Safety
  imports Queue_Manager
begin

text \<open>
  What the manager of the subtask queue guarantees: an invariant that every operation keeps, from which it follows that
  no operation dereferences a null queue or an item out of range, that a subtask is handed out only under a published
  lock, and that a waiting callback is served or tried again.
\<close>

section \<open>The invariant of a manager\<close>

definition queue_ok :: "string \<Rightarrow> subtask list option \<Rightarrow> subtask_queue \<Rightarrow> bool" where
  "queue_ok node sts s \<longleftrightarrow> m_localNodeId s = node \<and>
     (case sts of
        None \<Rightarrow> m_queue s = None
      | Some sts \<Rightarrow> (\<exists>q. m_queue s = Some q \<and> length sts \<le> length (items q) \<and>
                      (\<forall>i \<in> set (m_enabledItemIndices s). i < length sts)))"

definition calls_ok :: "string \<Rightarrow> bool \<Rightarrow> call list \<Rightarrow> bool" where
  "calls_ok node init cs \<longleftrightarrow> handed_ok node None cs \<and>
     (GrabTimer AsyncWait \<in> set cs \<or> QueueTimer AsyncWait \<in> set cs \<longrightarrow> init)"

definition manager_ok :: "manager \<Rightarrow> bool" where
  "manager_ok m \<longleftrightarrow> queue_ok (m_nodeId m) (m_subtasks m) (m_processingQueue m) \<and>
     calls_ok (m_nodeId m) (m_subtasks m \<noteq> None) (calls m) \<and>
     0 < m_waitTimeBeforeReset m \<and> m_waitTimeBeforeReset m \<le> 3000"

text \<open>The outcome of a step: it succeeds, keeps the invariant, the node and an initialised queue.\<close>

definition keeps :: "manager \<Rightarrow> manager \<Rightarrow> bool" where
  "keeps m m' \<longleftrightarrow> manager_ok m' \<and> m_nodeId m' = m_nodeId m \<and> (m_subtasks m \<noteq> None \<longrightarrow> m_subtasks m' \<noteq> None)"

lemma keepsI:
  "queue_ok (m_nodeId m) (m_subtasks m') (m_processingQueue m') \<Longrightarrow>
   calls_ok (m_nodeId m) (m_subtasks m' \<noteq> None) (calls m') \<Longrightarrow> 0 < m_waitTimeBeforeReset m' \<Longrightarrow>
   m_waitTimeBeforeReset m' \<le> 3000 \<Longrightarrow> m_nodeId m' = m_nodeId m \<Longrightarrow>
   (m_subtasks m \<noteq> None \<Longrightarrow> m_subtasks m' \<noteq> None) \<Longrightarrow> keeps m m'"
  by (simp add: keeps_def manager_ok_def)

lemma keeps_refl: "manager_ok m \<Longrightarrow> keeps m m"
  by (simp add: keeps_def)

lemma keeps_trans [trans]: "keeps m m' \<Longrightarrow> keeps m' m'' \<Longrightarrow> keeps m m''"
  by (auto simp: keeps_def)

lemma keeps_ok: "keeps m m' \<Longrightarrow> manager_ok m'"
  by (simp add: keeps_def)

lemma handed_ok_snoc:
  "handed_ok node prev (cs @ [c]) \<longleftrightarrow> handed_ok node prev cs \<and>
     (case c of
        RunCallback callback (Some st) \<Rightarrow>
          (case (if cs = [] then prev else Some (last cs)) of
             Some (PublishQueue (Some queue)) \<Rightarrow> announces node queue st | _ \<Rightarrow> False)
      | _ \<Rightarrow> True)"
  by (induction cs arbitrary: prev) (simp_all split: call.splits option.splits)

lemma handed_ok_append:
  "\<forall>c \<in> set new. \<forall>cb st. c \<noteq> RunCallback cb (Some st) \<Longrightarrow>
   handed_ok node prev (cs @ new) \<longleftrightarrow> handed_ok node prev cs"
proof (induction new rule: rev_induct)
  case (snoc c new)
  then show ?case unfolding append_assoc [symmetric] handed_ok_snoc
    by (auto split: call.splits option.splits)
qed simp

text \<open>A call that hands out nothing and starts no wait.\<close>

fun harmless :: "call \<Rightarrow> bool" where
  "harmless (RunCallback callback st) \<longleftrightarrow> st = None"
| "harmless (GrabTimer t) \<longleftrightarrow> t \<noteq> AsyncWait"
| "harmless (QueueTimer t) \<longleftrightarrow> t \<noteq> AsyncWait"
| "harmless _ \<longleftrightarrow> True"

lemma calls_ok_snoc [simp]:
  "harmless c \<Longrightarrow> calls_ok node init (cs @ [c]) \<longleftrightarrow> calls_ok node init cs"
  by (cases c) (auto simp: calls_ok_def handed_ok_snoc split: option.splits)

lemma log_call_simps [simp]:
  "m_nodeId (log_call c m) = m_nodeId m" "m_subtasks (log_call c m) = m_subtasks m"
  "m_processingQueue (log_call c m) = m_processingQueue m" "calls (log_call c m) = calls m @ [c]"
  "m_waitTimeBeforeReset (log_call c m) = m_waitTimeBeforeReset m"
  "m_onSubTaskGrabbedCallbacks (log_call c m) = m_onSubTaskGrabbedCallbacks m"
  "m_processedSubTaskIds (log_call c m) = m_processedSubTaskIds m"
  "m_queue_timestamp (log_call c m) = m_queue_timestamp m"
  "m_hasAssignmentSink (log_call c m) = m_hasAssignmentSink m"
  by (simp_all add: log_call_def)

lemma keeps_log_call: "manager_ok m \<Longrightarrow> harmless c \<Longrightarrow> keeps m (log_call c m)"
  by (simp add: keeps_def manager_ok_def)

lemma queue_ok_upd:
  "queue_ok node sts s \<Longrightarrow> (\<And>q. length (items (f q)) = length (items q)) \<Longrightarrow>
   queue_ok node sts (s\<lparr>m_queue := map_option f (m_queue s)\<rparr>)"
  by (auto simp: queue_ok_def split: option.splits)

lemma keeps_UpdateQueueTimestamp: "manager_ok m \<Longrightarrow> keeps m (UpdateQueueTimestamp env m)"
  by (auto simp: keeps_def manager_ok_def UpdateQueueTimestamp_def read_clock_def upd_queue_def Let_def
      intro!: queue_ok_upd)

lemma UpdateQueueTimestamp_simps [simp]:
  "m_nodeId (UpdateQueueTimestamp env m) = m_nodeId m" "m_subtasks (UpdateQueueTimestamp env m) = m_subtasks m"
  "calls (UpdateQueueTimestamp env m) = calls m"
  "m_onSubTaskGrabbedCallbacks (UpdateQueueTimestamp env m) = m_onSubTaskGrabbedCallbacks m"
  "HasOwnership (UpdateQueueTimestamp env m) = HasOwnership m"
  by (auto simp: UpdateQueueTimestamp_def read_clock_def upd_queue_def HasOwnership_def pq_HasOwnership_def Let_def
      split: option.splits)

lemma keeps_PublishSubTaskQueue: "manager_ok m \<Longrightarrow> keeps m (PublishSubTaskQueue env m)"
  unfolding PublishSubTaskQueue_def Let_def
  by (meson keeps_UpdateQueueTimestamp keeps_log_call keeps_ok keeps_trans harmless.simps)

lemma queue_ok_enabled: "queue_ok node (Some sts) s \<Longrightarrow> m_queue s = Some q \<Longrightarrow> enabled_ok (m_enabledItemIndices s) q"
  by (force simp: queue_ok_def enabled_ok_def)

lemma GrabItem_ok:
  assumes "queue_ok node (Some sts) s"
  obtains (none) s' where "GrabItem s now = Inr (s', None)" and "queue_ok node (Some sts) s'"
  | (grabbed) s' q i where "GrabItem s now = Inr (s', Some i)" and "queue_ok node (Some sts) s'" and "m_queue s' = Some q"
      and "i < length sts" and "lock_node_id (items q ! i) = node" and "owner_node_id q = node"
proof -
  obtain q where q: "m_queue s = Some q" using assms by (auto simp: queue_ok_def)
  have e: "enabled_ok (m_enabledItemIndices s) (q\<lparr>last_update_timestamp := now\<rparr>)"
    using queue_ok_enabled [OF assms q] by (simp add: enabled_ok_def)
  show thesis
  proof (cases "pq_HasOwnership s")
    case False
    then show thesis using that(1) assms by (simp add: GrabItem_def)
  next
    case True
    from lock_loop_outcome [OF e, of "m_localNodeId s" now] show thesis
    proof (elim disjE conjE bexE)
      assume "lock_loop (m_localNodeId s) now (m_enabledItemIndices s) (q\<lparr>last_update_timestamp := now\<rparr>) =
        Inr (q\<lparr>last_update_timestamp := now\<rparr>, None)"
      then show thesis using that(1) assms True q by (auto simp: GrabItem_def LockItem_def queue_ok_def)
    next
      fix i assume "i \<in> set (m_enabledItemIndices s)" "i < length (items (q\<lparr>last_update_timestamp := now\<rparr>))"
        "lock_loop (m_localNodeId s) now (m_enabledItemIndices s) (q\<lparr>last_update_timestamp := now\<rparr>) =
        Inr (q\<lparr>last_update_timestamp := now, items := (items (q\<lparr>last_update_timestamp := now\<rparr>))
          [i := lock_item (m_localNodeId s) now (processing_timeout_length (q\<lparr>last_update_timestamp := now\<rparr>))]\<rparr>, Some i)"
      then show thesis using assms True q
        by (intro that(2) [of "s\<lparr>m_queue := Some (q\<lparr>last_update_timestamp := now,
              items := (items q)[i := lock_item (m_localNodeId s) now (processing_timeout_length q)]\<rparr>)\<rparr>" i
              "q\<lparr>last_update_timestamp := now,
              items := (items q)[i := lock_item (m_localNodeId s) now (processing_timeout_length q)]\<rparr>"])
          (auto simp: GrabItem_def LockItem_def queue_ok_def lock_item_def pq_HasOwnership_def)
    qed
  qed
qed

lemma UnlockExpiredItems_ok:
  assumes "queue_ok node (Some sts) s"
  obtains s' b where "UnlockExpiredItems s now = Inr (s', b)" and "queue_ok node (Some sts) s'"
proof -
  obtain q where q: "m_queue s = Some q" using assms by (auto simp: queue_ok_def)
  have e: "enabled_ok (m_enabledItemIndices s) (q\<lparr>last_update_timestamp := now\<rparr>)"
    using queue_ok_enabled [OF assms q] by (simp add: enabled_ok_def)
  from unlock_loop_outcome [OF e, of now False] obtain q' u
    where "unlock_loop now (m_enabledItemIndices s) (q\<lparr>last_update_timestamp := now\<rparr>) False = Inr (q', u)"
      "length (items q') = length (items q)" by auto
  then have "\<exists>s' b. UnlockExpiredItems s now = Inr (s', b) \<and> queue_ok node (Some sts) s'"
    using assms q by (auto simp: UnlockExpiredItems_def queue_ok_def Let_def)
  then show thesis using that by blast
qed

lemma the_message_Some:
  "m_subtasks m = Some sts \<Longrightarrow> queue_ok node (Some sts) (m_processingQueue m) \<Longrightarrow>
   m_queue (m_processingQueue m) = Some q \<Longrightarrow> the_message m = Some \<lparr>msg_processing_queue = q, msg_subtasks = sts\<rparr>"
  by (simp add: the_message_def)

lemma the_message_quota: "the_message (m\<lparr>m_processedSubtasksInCurrentOwnership := k\<rparr>) = the_message m"
  by (simp add: the_message_def)

lemma the_message_cases:
  assumes "manager_ok m" and "m_subtasks m \<noteq> None"
  obtains queue where "the_message m = Some queue" and "m_subtasks m = Some (msg_subtasks queue)"
    and "m_queue (m_processingQueue m) = Some (msg_processing_queue queue)" and "message_ok queue"
proof -
  obtain sts q where "m_subtasks m = Some sts" "m_queue (m_processingQueue m) = Some q" "length sts \<le> length (items q)"
    using assms by (auto simp: manager_ok_def queue_ok_def)
  then show thesis
    by (intro that [of "\<lparr>msg_processing_queue = q, msg_subtasks = sts\<rparr>"]) (simp_all add: the_message_def message_ok_def)
qed

lemma calls_ok_hand_out:
  "calls_ok node init cs \<Longrightarrow> cs \<noteq> [] \<Longrightarrow> last cs = PublishQueue (Some queue) \<Longrightarrow> announces node queue st \<Longrightarrow>
   calls_ok node init (cs @ [RunCallback callback (Some st)])"
  by (auto simp: calls_ok_def handed_ok_snoc)

lemma UpdateQueueTimestamp_queue:
  "m_queue (m_processingQueue m) = Some q \<Longrightarrow> \<exists>t. m_queue (m_processingQueue (UpdateQueueTimestamp env m)) =
     Some (q\<lparr>last_update_timestamp := t\<rparr>)"
  by (auto simp: UpdateQueueTimestamp_def read_clock_def upd_queue_def Let_def
      intro: exI [of _ "last_update_timestamp q"])

lemma PublishSubTaskQueue_queue:
  assumes "m_subtasks m = Some sts" and "m_queue (m_processingQueue m) = Some q"
  obtains t queue where "the_message (PublishSubTaskQueue env m) = Some queue"
    and "calls (PublishSubTaskQueue env m) = calls m @ [PublishQueue (Some queue)]"
    and "msg_subtasks queue = sts" and "msg_processing_queue queue = q\<lparr>last_update_timestamp := t\<rparr>"
proof -
  from UpdateQueueTimestamp_queue [OF assms(2)] obtain t where
    "m_queue (m_processingQueue (UpdateQueueTimestamp env m)) = Some (q\<lparr>last_update_timestamp := t\<rparr>)" by blast
  then show thesis
    by (intro that [of "\<lparr>msg_processing_queue = q\<lparr>last_update_timestamp := t\<rparr>, msg_subtasks = sts\<rparr>" t])
      (simp_all add: PublishSubTaskQueue_def the_message_def assms(1))
qed

text \<open>What serving the callbacks does: it succeeds, and the callbacks that are gone have each received a subtask.\<close>

definition served :: "nat list \<Rightarrow> call list \<Rightarrow> nat list \<Rightarrow> call list \<Rightarrow> bool" where
  "served callbacks cs callbacks' cs' \<longleftrightarrow> (\<exists>gone new. callbacks = gone @ callbacks' \<and> cs' = cs @ new \<and>
     (\<forall>c \<in> set gone. \<exists>st. RunCallback c st \<in> set new))"

lemma served_refl: "served cb cs cb cs"
  by (auto simp: served_def)

lemma served_step:
  "served cbs (cs @ pre @ [RunCallback cb st]) cbs' cs' \<Longrightarrow> served (cb # cbs) cs cbs' cs'"
  unfolding served_def
proof (elim exE conjE)
  fix gone new
  assume "cbs = gone @ cbs'" "cs' = (cs @ pre @ [RunCallback cb st]) @ new"
    "\<forall>c \<in> set gone. \<exists>st. RunCallback c st \<in> set new"
  then show "\<exists>gone new. cb # cbs = gone @ cbs' \<and> cs' = cs @ new \<and>
     (\<forall>c \<in> set gone. \<exists>st. RunCallback c st \<in> set new)"
    by (intro exI [of _ "cb # gone"] exI [of _ "pre @ RunCallback cb st # new"]) auto
qed

definition hand_out :: "environment \<Rightarrow> nat \<Rightarrow> nat list \<Rightarrow> subtask_queue \<Rightarrow> queue_message \<Rightarrow> nat \<Rightarrow> manager \<Rightarrow> manager" where
  "hand_out env cb cbs s queue i m =
     (let m1 = PublishSubTaskQueue env (m\<lparr>m_processingQueue := s\<rparr>);
          m2 = m1\<lparr>m_processedSubtasksInCurrentOwnership := Suc (m_processedSubtasksInCurrentOwnership m1)\<rparr>
      in log_call (RunCallback cb (Some (msg_subtasks queue ! i))) (m2\<lparr>m_onSubTaskGrabbedCallbacks := cbs\<rparr>))"

lemma hand_out_ok:
  assumes "manager_ok m" and "m_subtasks m = Some sts" and "queue_ok (m_nodeId m) (Some sts) s"
    and "m_queue s = Some q" and "i < length sts" and "lock_node_id (items q ! i) = m_nodeId m"
    and "owner_node_id q = m_nodeId m"
  obtains queue where "the_message (PublishSubTaskQueue env (m\<lparr>m_processingQueue := s\<rparr>)) = Some queue"
    and "msg_subtasks queue = sts" and "keeps m (hand_out env cb cbs s queue i m)"
    and "m_subtasks (hand_out env cb cbs s queue i m) = Some sts"
    and "m_onSubTaskGrabbedCallbacks (hand_out env cb cbs s queue i m) = cbs"
    and "calls (hand_out env cb cbs s queue i m) = calls m @ [PublishQueue (Some queue), RunCallback cb (Some (sts ! i))]"
proof -
  let ?m0 = "m\<lparr>m_processingQueue := s\<rparr>"
  let ?m1 = "PublishSubTaskQueue env ?m0"
  have "keeps m ?m0" using assms(1-3) by (simp add: keeps_def manager_ok_def)
  then have k1: "keeps m ?m1" by (meson keeps_PublishSubTaskQueue keeps_ok keeps_trans)
  obtain t queue where p: "the_message ?m1 = Some queue" "calls ?m1 = calls m @ [PublishQueue (Some queue)]"
    "msg_subtasks queue = sts" "msg_processing_queue queue = q\<lparr>last_update_timestamp := t\<rparr>"
    by (rule PublishSubTaskQueue_queue [of ?m0 sts q env]) (use assms(2,4) in auto)
  have "length sts \<le> length (items q)" using assms(3,4) by (auto simp: queue_ok_def)
  then have "(items q ! i, sts ! i) \<in> set (zip (items q) sts)" using assms(5) by (auto simp: set_zip)
  then have ann: "announces (m_nodeId m) queue (sts ! i)" using assms(6,7) p(3,4) by (force simp: announces_def)
  let ?m3 = "hand_out env cb cbs s queue i m"
  have c: "calls ?m3 = calls m @ [PublishQueue (Some queue), RunCallback cb (Some (sts ! i))]"
    by (simp add: hand_out_def Let_def p(2,3))
  have "calls_ok (m_nodeId m) True (calls ?m3)"
    using calls_ok_hand_out [of "m_nodeId m" True "calls ?m1" queue "sts ! i" cb] k1 p(2) ann assms(2)
    by (auto simp: keeps_def manager_ok_def c)
  then have "keeps m ?m3" using k1 by (auto simp: keeps_def manager_ok_def calls_ok_def hand_out_def Let_def)
  then show thesis using p(1,3) c assms(2)
    by (intro that [of queue]) (simp_all add: hand_out_def PublishSubTaskQueue_def Let_def)
qed

lemma grab_loop_Some:
  assumes "m_onSubTaskGrabbedCallbacks m = cb # cbs"
    and "\<not> m_maxSubtasksPerOwnership m \<le> m_processedSubtasksInCurrentOwnership m"
    and "GrabItem (m_processingQueue m) (m_queue_timestamp m) = Inr (s, Some i)"
    and "the_message (PublishSubTaskQueue env (m\<lparr>m_processingQueue := s\<rparr>)) = Some queue" and "i < length (msg_subtasks queue)"
  shows "grab_loop env m =
    (if 0 < length (ownership_requests (msg_processing_queue queue)) then Inr (True, hand_out env cb cbs s queue i m)
     else grab_loop env (hand_out env cb cbs s queue i m))"
  using assms by (simp add: grab_loop.simps [of env m] hand_out_def Let_def the_message_quota)

lemma grab_loop_None:
  assumes "m_onSubTaskGrabbedCallbacks m = cb # cbs"
    and "\<not> m_maxSubtasksPerOwnership m \<le> m_processedSubtasksInCurrentOwnership m"
    and "GrabItem (m_processingQueue m) (m_queue_timestamp m) = Inr (s, None)"
    and "UnlockExpiredItems s (m_queue_timestamp m) = Inr (s', b)"
  shows "grab_loop env m = (if b then grab_loop env (m\<lparr>m_processingQueue := s'\<rparr>) else Inr (False, m\<lparr>m_processingQueue := s'\<rparr>))"
  using assms by (simp add: grab_loop.simps [of env m])

lemma grab_loop_Nil:
  "m_onSubTaskGrabbedCallbacks m = [] \<or> m_maxSubtasksPerOwnership m \<le> m_processedSubtasksInCurrentOwnership m \<Longrightarrow>
   grab_loop env m = Inr (False, m)"
  by (auto simp: grab_loop.simps [of env m] split: list.splits)

lemma grab_loop_ok:
  assumes "manager_ok m" and "m_subtasks m = Some sts"
  shows "\<exists>l m'. grab_loop env m = Inr (l, m') \<and> keeps m m' \<and>
    served (m_onSubTaskGrabbedCallbacks m) (calls m) (m_onSubTaskGrabbedCallbacks m') (calls m')"
  using assms
proof (induction env m rule: grab_loop.induct)
  case (1 env m)
  have q: "queue_ok (m_nodeId m) (Some sts) (m_processingQueue m)" using "1.prems" by (simp add: manager_ok_def)
  consider "m_onSubTaskGrabbedCallbacks m = [] \<or> m_maxSubtasksPerOwnership m \<le> m_processedSubtasksInCurrentOwnership m"
    | cb cbs where "m_onSubTaskGrabbedCallbacks m = cb # cbs"
        "\<not> m_maxSubtasksPerOwnership m \<le> m_processedSubtasksInCurrentOwnership m"
    by (cases "m_onSubTaskGrabbedCallbacks m") auto
  then show ?case
  proof cases
    case 1
    then show ?thesis using "1.prems" by (auto simp: grab_loop_Nil keeps_refl served_refl)
  next
    case c: (2 cb cbs)
    show ?thesis
    proof (rule GrabItem_ok [OF q, of "m_queue_timestamp m"])
      fix s' assume g: "GrabItem (m_processingQueue m) (m_queue_timestamp m) = Inr (s', None)"
        "queue_ok (m_nodeId m) (Some sts) s'"
      obtain s'' b where u: "UnlockExpiredItems s' (m_queue_timestamp m) = Inr (s'', b)"
        "queue_ok (m_nodeId m) (Some sts) s''" by (rule UnlockExpiredItems_ok [OF g(2)])
      have k: "keeps m (m\<lparr>m_processingQueue := s''\<rparr>)" using "1.prems" u(2) by (simp add: keeps_def manager_ok_def)
      show ?thesis
      proof (cases b)
        case True
        from "1.IH"(1) [OF c g(1) refl refl u(1) refl True] k "1.prems"
        show ?thesis using grab_loop_None [OF c g(1) u(1), of env] True
          by (auto simp: keeps_ok intro: keeps_trans)
      qed (use grab_loop_None [OF c g(1) u(1), of env] k in \<open>auto simp: served_refl\<close>)
    next
      fix s q' i
      assume g: "GrabItem (m_processingQueue m) (m_queue_timestamp m) = Inr (s, Some i)"
        "queue_ok (m_nodeId m) (Some sts) s" "m_queue s = Some q'" "i < length sts"
        "lock_node_id (items q' ! i) = m_nodeId m" "owner_node_id q' = m_nodeId m"
      from "1.prems" g(2-) obtain queue
        where p: "the_message (PublishSubTaskQueue env (m\<lparr>m_processingQueue := s\<rparr>)) = Some queue" "msg_subtasks queue = sts"
          and k: "keeps m (hand_out env cb cbs s queue i m)" "m_subtasks (hand_out env cb cbs s queue i m) = Some sts"
            "m_onSubTaskGrabbedCallbacks (hand_out env cb cbs s queue i m) = cbs"
            "calls (hand_out env cb cbs s queue i m) = calls m @ [PublishQueue (Some queue), RunCallback cb (Some (sts ! i))]"
        by (rule hand_out_ok)
      let ?m = "hand_out env cb cbs s queue i m"
      have sv: "served cbs (calls ?m) cbs' cs' \<Longrightarrow> served (cb # cbs) (calls m) cbs' cs'" for cbs' cs'
        using served_step [of cbs "calls m" "[PublishQueue (Some queue)]" cb] by (simp add: k(4))
      note msg = trans [OF the_message_quota p(1)]
      show ?thesis
      proof (cases "0 < length (ownership_requests (msg_processing_queue queue))")
        case True
        then show ?thesis using grab_loop_Some [OF c g(1) p(1)] g(4) p(2) k sv [OF served_refl] c(1) by auto
      next
        case False
        have "\<exists>l m'. grab_loop env ?m = Inr (l, m') \<and> keeps ?m m' \<and>
            served (m_onSubTaskGrabbedCallbacks ?m) (calls ?m) (m_onSubTaskGrabbedCallbacks m') (calls m')"
          by (rule "1.IH"(2) [OF c g(1) refl refl refl refl msg _ _ False])
            (use k g(4) p(2) in \<open>simp_all add: keeps_ok hand_out_def Let_def\<close>)
        then show ?thesis using grab_loop_Some [OF c g(1) p(1)] g(4) p(2) False k(3) keeps_trans [OF k(1)] sv c(1) by auto
      qed
    qed
  qed
qed

section \<open>Serving the callbacks\<close>

lemma last_lock_loop_ok: "\<forall>i \<in> set is. i < length its \<Longrightarrow> \<exists>t'. last_lock_loop is its t = Inr t'"
  by (induction "is" its t rule: last_lock_loop.induct) auto

lemma GetLastLockTimestamp_ok: "queue_ok node (Some sts) s \<Longrightarrow> \<exists>t. GetLastLockTimestamp s = Inr t"
  by (force simp: GetLastLockTimestamp_def queue_ok_def intro!: last_lock_loop_ok)

lemma CalculateGrabSubTaskTimeout_ok:
  assumes "manager_ok m" and "m_subtasks m \<noteq> None"
  obtains t where "CalculateGrabSubTaskTimeout env m = Inr t" and "0 < t" and "t \<le> 3000"
proof -
  from assms obtain t0 where t0: "GetLastLockTimestamp (m_processingQueue m) = Inr t0"
    using GetLastLockTimestamp_ok by (force simp: manager_ok_def)
  let ?e = "t0 + of_nat (m_processingTimeout m div ticks_per_ms env)"
  show thesis
  proof (cases "m_queue_timestamp m < ?e")
    case True
    then have "?e - m_queue_timestamp m \<noteq> 0" by simp
    then have "0 < ?e - m_queue_timestamp m" by (simp only: word_gt_0)
    then show thesis using True t0 assms(1)
      by (intro that [of "min (?e - m_queue_timestamp m) (m_waitTimeBeforeReset m)"])
        (auto simp: CalculateGrabSubTaskTimeout_def Let_def manager_ok_def min_le_iff_disj)
  next
    case False
    then show thesis using that t0 by (auto simp: CalculateGrabSubTaskTimeout_def Let_def)
  qed
qed

text \<open>A request for a subtask is answered, or a timer is running after which it is tried again.\<close>

definition retry_running :: "manager \<Rightarrow> bool" where
  "retry_running m \<longleftrightarrow>
     (\<exists>cs t. calls m = cs @ [GrabTimer (ExpiresFromNow t), GrabTimer AsyncWait] \<and> 0 < t \<and> t \<le> 3000)"

lemma drain_calls:
  "calls (fold (\<lambda>cb. log_call (RunCallback cb None)) cbs m) = calls m @ map (\<lambda>cb. RunCallback cb None) cbs"
  by (induction cbs arbitrary: m) auto

lemma keeps_drain: "manager_ok m \<Longrightarrow> keeps m (fold (\<lambda>cb. log_call (RunCallback cb None)) cbs m)"
proof (induction cbs arbitrary: m)
  case (Cons cb cbs)
  have "keeps m (log_call (RunCallback cb None) m)" using Cons.prems by (simp add: keeps_log_call)
  then show ?case using keeps_trans [OF _ Cons.IH [OF keeps_ok]] by simp
qed (simp add: keeps_refl)

lemma keeps_callbacks: "keeps m m' \<Longrightarrow> keeps m (m'\<lparr>m_onSubTaskGrabbedCallbacks := cbs\<rparr>)"
  by (auto simp: keeps_def manager_ok_def)

lemma finish_grabbing_ok:
  assumes "manager_ok m" and "m_subtasks m \<noteq> None"
  shows "\<exists>m'. finish_grabbing env m = Inr m' \<and> keeps m m' \<and>
    (served (m_onSubTaskGrabbedCallbacks m) (calls m) [] (calls m') \<and> m_onSubTaskGrabbedCallbacks m' = [] \<or>
     retry_running m' \<and> (\<exists>new. calls m' = calls m @ new) \<and> m_onSubTaskGrabbedCallbacks m' = m_onSubTaskGrabbedCallbacks m)"
proof -
  obtain queue where queue: "the_message m = Some queue" by (rule the_message_cases [OF assms])
  obtain t where t: "CalculateGrabSubTaskTimeout env m = Inr t" "0 < t" "t \<le> 3000"
    by (rule CalculateGrabSubTaskTimeout_ok [OF assms])
  consider "m_onSubTaskGrabbedCallbacks m = []"
    | "m_onSubTaskGrabbedCallbacks m \<noteq> []" "length (m_processedSubTaskIds m) < length (items (msg_processing_queue queue))"
    | "m_onSubTaskGrabbedCallbacks m \<noteq> []" "\<not> length (m_processedSubTaskIds m) < length (items (msg_processing_queue queue))"
    by blast
  then show ?thesis
  proof cases
    case 1
    then show ?thesis using assms(1) by (simp add: finish_grabbing_def keeps_refl served_refl)
  next
    case 2
    let ?m = "log_call (GrabTimer AsyncWait) (log_call (GrabTimer (ExpiresFromNow t)) m)"
    have "calls_ok (m_nodeId m) True (calls ?m)"
      using assms by (auto simp: manager_ok_def calls_ok_def handed_ok_append)
    then have "keeps m ?m" using assms by (auto simp: keeps_def manager_ok_def calls_ok_def)
    then show ?thesis using 2 t queue by (auto simp: finish_grabbing_def retry_running_def)
  next
    case 3
    then show ?thesis using queue keeps_callbacks [OF keeps_drain [OF assms(1)]]
      by (auto simp: finish_grabbing_def drain_callbacks_def served_def drain_calls)
  qed
qed

lemma keeps_CheckActiveCount:
  assumes "manager_ok m" and "m_subtasks m \<noteq> None"
  shows "\<exists>m'. CheckActiveCount env m = Inr m' \<and> keeps m m' \<and> calls m' = calls m \<and>
    m_onSubTaskGrabbedCallbacks m' = m_onSubTaskGrabbedCallbacks m"
proof -
  obtain queue where "the_message m = Some queue" by (rule the_message_cases [OF assms])
  then have "the_message (m\<lparr>reads := Suc (reads m)\<rparr>) = Some queue" by (simp add: the_message_def)
  then show ?thesis using assms
    by (auto simp: CheckActiveCount_def read_clock_def Let_def keeps_def manager_ok_def)
qed

lemma keeps_queue:
  "keeps m m' \<Longrightarrow> queue_ok (m_nodeId m) (m_subtasks m') s \<Longrightarrow> keeps m (m'\<lparr>m_processingQueue := s\<rparr>)"
  by (auto simp: keeps_def manager_ok_def)

lemma AddOwnershipRequest_ok: "queue_ok node sts s \<Longrightarrow> queue_ok node sts (fst (AddOwnershipRequest s n t))"
  by (auto simp: AddOwnershipRequest_def queue_ok_def split: option.splits)

lemma keeps_readd_request: "manager_ok m \<Longrightarrow> keeps m (readd_request env l m)"
proof -
  assume ok: "manager_ok m"
  let ?m = "UpdateQueueTimestamp env m"
  obtain s b where s: "AddOwnershipRequest (m_processingQueue ?m) (m_nodeId ?m) (m_queue_timestamp ?m) = (s, b)"
    by (cases "AddOwnershipRequest (m_processingQueue ?m) (m_nodeId ?m) (m_queue_timestamp ?m)")
  have k: "keeps m ?m" by (rule keeps_UpdateQueueTimestamp [OF ok])
  moreover have "queue_ok (m_nodeId m) (m_subtasks ?m) s"
    using AddOwnershipRequest_ok [of "m_nodeId m" "m_subtasks ?m" "m_processingQueue ?m" "m_nodeId ?m" "m_queue_timestamp ?m"]
      keeps_ok [OF k] s by (simp add: manager_ok_def)
  ultimately have "keeps m (PublishSubTaskQueue env (?m\<lparr>m_processingQueue := s\<rparr>))"
    using keeps_queue keeps_PublishSubTaskQueue keeps_ok keeps_trans by metis
  then show ?thesis using ok s by (auto simp: readd_request_def Let_def keeps_refl)
qed

lemma readd_request_simps [simp]:
  "m_onSubTaskGrabbedCallbacks (readd_request env l m) = m_onSubTaskGrabbedCallbacks m"
  "\<exists>new. calls (readd_request env l m) = calls m @ new"
  by (auto simp: readd_request_def PublishSubTaskQueue_def Let_def split: prod.splits)

lemma served_append: "served cbs cs cbs' cs' \<Longrightarrow> served cbs cs cbs' (cs' @ new)"
  unfolding served_def by fastforce

lemma served_trans: "served cbs cs cbs' cs' \<Longrightarrow> served cbs' cs' cbs'' cs'' \<Longrightarrow> served cbs cs cbs'' cs''"
  unfolding served_def
proof (elim exE conjE)
  fix gone new gone' new'
  assume "cbs = gone @ cbs'" "cs' = cs @ new" "\<forall>c \<in> set gone. \<exists>st. RunCallback c st \<in> set new"
    "cbs' = gone' @ cbs''" "cs'' = cs' @ new'" "\<forall>c \<in> set gone'. \<exists>st. RunCallback c st \<in> set new'"
  then show "\<exists>gone new. cbs = gone @ cbs'' \<and> cs'' = cs @ new \<and> (\<forall>c \<in> set gone. \<exists>st. RunCallback c st \<in> set new)"
    by (intro exI [of _ "gone @ gone'"] exI [of _ "new @ new'"]) auto
qed

lemma ProcessPendingSubTaskGrabbing_ok:
  assumes "manager_ok m" and "m_subtasks m \<noteq> None"
  obtains m' where "ProcessPendingSubTaskGrabbing env m = Inr m'" and "keeps m m'"
    and "served (m_onSubTaskGrabbedCallbacks m) (calls m) (m_onSubTaskGrabbedCallbacks m') (calls m')"
    and "m_onSubTaskGrabbedCallbacks m' = [] \<or> retry_running m'"
proof -
  let ?m0 = "UpdateQueueTimestamp env (log_call (GrabTimer ExpiresInfinity) m)"
  have k0: "keeps m ?m0"
    by (meson assms(1) keeps_UpdateQueueTimestamp keeps_log_call keeps_ok keeps_trans harmless.simps timer_call.distinct)
  then have "manager_ok ?m0" "m_subtasks ?m0 \<noteq> None" using assms(2) by (auto simp: keeps_def)
  then obtain m1 where m1: "CheckActiveCount env ?m0 = Inr m1" "keeps ?m0 m1" "calls m1 = calls ?m0"
    "m_onSubTaskGrabbedCallbacks m1 = m_onSubTaskGrabbedCallbacks ?m0" using keeps_CheckActiveCount by blast
  have k1: "keeps m m1" using keeps_trans [OF k0 m1(2)] .
  then obtain sts where "manager_ok m1" "m_subtasks m1 = Some sts" using assms(2) by (auto simp: keeps_def)
  then obtain l m2 where m2: "grab_loop env m1 = Inr (l, m2)" "keeps m1 m2"
    "served (m_onSubTaskGrabbedCallbacks m1) (calls m1) (m_onSubTaskGrabbedCallbacks m2) (calls m2)"
    using grab_loop_ok by blast
  let ?m3 = "readd_request env l m2"
  have k3: "keeps m ?m3"
    using keeps_trans [OF keeps_trans [OF k1 m2(2)] keeps_readd_request [OF keeps_ok [OF m2(2)]]] .
  then have "manager_ok ?m3" "m_subtasks ?m3 \<noteq> None" using assms(2) by (auto simp: keeps_def)
  then obtain m' where m': "finish_grabbing env ?m3 = Inr m'" "keeps ?m3 m'"
    "served (m_onSubTaskGrabbedCallbacks ?m3) (calls ?m3) [] (calls m') \<and> m_onSubTaskGrabbedCallbacks m' = [] \<or>
     retry_running m' \<and> (\<exists>new. calls m' = calls ?m3 @ new) \<and> m_onSubTaskGrabbedCallbacks m' = m_onSubTaskGrabbedCallbacks ?m3"
    using finish_grabbing_ok by metis
  obtain new where new: "calls ?m3 = calls m2 @ new" using readd_request_simps(2) by blast
  have s0: "served (m_onSubTaskGrabbedCallbacks m) (calls m) (m_onSubTaskGrabbedCallbacks m1) (calls m1)"
    using m1(3,4) by (auto simp: served_def)
  have s1: "served (m_onSubTaskGrabbedCallbacks m) (calls m) (m_onSubTaskGrabbedCallbacks m2) (calls m2)"
    using served_trans [OF s0 m2(3)] .
  have "served (m_onSubTaskGrabbedCallbacks m) (calls m) (m_onSubTaskGrabbedCallbacks m') (calls m')"
    using m'(3) served_trans [OF served_append [OF s1, of new]] new by (auto intro: served_append [OF s1])
  then show thesis using that m1(1) m2(1) m'(1,3) keeps_trans [OF k3 m'(2)]
    by (auto simp: ProcessPendingSubTaskGrabbing_def)
qed

section \<open>Every operation keeps the invariant\<close>

lemma GrabSubTasks_ok: "manager_ok m \<Longrightarrow> \<exists>m'. GrabSubTasks env m = Inr m' \<and> keeps m m'"
proof (cases "HasOwnership m")
  case True
  assume ok: "manager_ok m"
  then have "m_subtasks m \<noteq> None" using True
    by (auto simp: HasOwnership_def pq_HasOwnership_def manager_ok_def queue_ok_def split: option.splits)
  with ok show ?thesis using True ProcessPendingSubTaskGrabbing_ok [of m env] by (metis GrabSubTasks_def)
qed (simp add: GrabSubTasks_def keeps_log_call)

lemma unprocessed_loop_ok:
  "idx + length sts \<le> length its \<Longrightarrow>
   \<exists>is. unprocessed_loop processed now its sts idx = Inr is \<and> (\<forall>i \<in> set is. i < idx + length sts)"
proof (induction sts arbitrary: idx)
  case (Cons st sts)
  from Cons.IH [of "Suc idx"] Cons.prems show ?case by auto
qed simp

lemma UpdateUnprocessedSubTaskIndices_ok:
  "message_ok queue \<Longrightarrow> \<exists>is. UpdateUnprocessedSubTaskIndices queue m = Inr is \<and> (\<forall>i \<in> set is. i < length (msg_subtasks queue))"
  using unprocessed_loop_ok [of 0 "msg_subtasks queue"]
  by (auto simp: UpdateUnprocessedSubTaskIndices_def message_ok_def)

lemma HasAvailableWork_ok: "manager_ok m \<Longrightarrow> \<exists>b. HasAvailableWork quota m = Inr b"
proof (cases "m_subtasks m")
  case (Some sts)
  assume ok: "manager_ok m"
  with Some obtain queue where "the_message m = Some queue" "message_ok queue"
    using the_message_cases by (metis option.distinct(1))
  then show ?thesis using UpdateUnprocessedSubTaskIndices_ok [of queue m] by (auto simp: HasAvailableWork_def)
qed (auto simp: HasAvailableWork_def the_message_def split: option.split)

lemma pq_MoveOwnershipTo_ok: "queue_ok node sts s \<Longrightarrow> queue_ok node sts (fst (pq_MoveOwnershipTo s n))"
  by (auto simp: pq_MoveOwnershipTo_def ChangeOwnershipTo_def intro!: queue_ok_upd)

lemma RollbackOwnership_ok: "queue_ok node sts s \<Longrightarrow> queue_ok node sts (fst (RollbackOwnership s))"
  by (auto simp: RollbackOwnership_def queue_ok_def ChangeOwnershipTo_def Let_def split: option.splits)

lemma ProcessNextOwnershipRequest_ok: "queue_ok node sts s \<Longrightarrow> queue_ok node sts (fst (ProcessNextOwnershipRequest s))"
  by (auto simp: ProcessNextOwnershipRequest_def queue_ok_def ChangeOwnershipTo_def Let_def split: option.splits)

lemma keeps_publish_queue:
  assumes "manager_ok m" and "queue_ok (m_nodeId m) (m_subtasks m) s"
  shows "keeps m (PublishSubTaskQueue env (m\<lparr>m_processingQueue := s\<rparr>))"
proof -
  have "keeps m (m\<lparr>m_processingQueue := s\<rparr>)" using assms by (intro keeps_queue keeps_refl)
  then show ?thesis by (meson keeps_PublishSubTaskQueue keeps_ok keeps_trans)
qed

lemma keeps_upd_queue:
  "manager_ok m \<Longrightarrow> (\<And>q. length (items (f q)) = length (items q)) \<Longrightarrow> keeps m (upd_queue f m)"
  by (auto simp: keeps_def manager_ok_def upd_queue_def intro!: queue_ok_upd)

lemma keeps_assign_sink: "manager_ok m \<Longrightarrow> keeps m (assign_sink sts m)"
  by (simp add: assign_sink_def keeps_log_call)

lemma manager_ok_calls_init:
  "manager_ok m \<Longrightarrow> calls_ok (m_nodeId m) True (calls m)"
  by (auto simp: manager_ok_def calls_ok_def)

lemma CreateQueue_ok: "manager_ok m \<Longrightarrow> keeps m (snd (CreateQueue env sts m))"
proof (cases "\<exists>st \<in> set sts. chunksToProcess st = []")
  case False
  assume ok: "manager_ok m"
  define m1 where "m1 = m\<lparr>reads := Suc (reads m), m_ownership_acquired_at := ms_of (steady_clock env (reads m)),
     m_queue_timestamp := ms_of (steady_clock env (reads m)),
     m_ownership_last_delta_time := ms_of (steady_clock env (reads m)), m_subtasks := Some sts, m_processedSubTaskIds := [],
     m_processingQueue := pq_CreateQueue (m_processingQueue m) \<lparr>items = replicate (length sts) free_item,
              last_update_timestamp = ms_of (steady_clock env (reads m)),
              processing_timeout_length = of_nat (m_processingTimeout m),
              owner_node_id = '''', ownership_requests = [], processed_subtask_ids = []\<rparr> [0..<length sts]\<rparr>"
  have "keeps m m1" using ok manager_ok_calls_init [OF ok]
    by (simp add: keeps_def manager_ok_def m1_def queue_ok_def pq_CreateQueue_def ChangeOwnershipTo_def)
  then have k: "keeps m (PublishSubTaskQueue env m1)" by (meson keeps_PublishSubTaskQueue keeps_ok keeps_trans)
  then have "keeps m (assign_sink sts (PublishSubTaskQueue env m1))"
    by (meson keeps_assign_sink keeps_ok keeps_trans)
  moreover have "snd (CreateQueue env sts m) = (if m_hasAssignmentSink (PublishSubTaskQueue env m1)
      then assign_sink sts (PublishSubTaskQueue env m1) else PublishSubTaskQueue env m1)"
    using False by (simp add: CreateQueue_def read_clock_def Let_def m1_def)
  ultimately show ?thesis using k by simp
qed (simp add: CreateQueue_def keeps_refl)

lemma keeps_time: "keeps m m' \<Longrightarrow> keeps m (m'\<lparr>m_queue_timestamp := t\<rparr>)"
  by (auto simp: keeps_def manager_ok_def)

lemma keeps_processed: "keeps m m' \<Longrightarrow> keeps m (m'\<lparr>m_processedSubTaskIds := ids\<rparr>)"
  by (auto simp: keeps_def manager_ok_def)

lemma pq_UpdateQueue_ok:
  assumes "queue_ok node sts s" and "length sts' \<le> length (items q)" and "\<forall>i \<in> set is. i < length sts'"
  shows "queue_ok node (if snd (pq_UpdateQueue s q is) then Some sts' else sts) (fst (pq_UpdateQueue s q is))"
  using assms by (auto simp: pq_UpdateQueue_def queue_ok_def split: option.splits)

lemma keeps_accept:
  "keeps m m' \<Longrightarrow> queue_ok (m_nodeId m) (Some sts) s \<Longrightarrow> keeps m (m'\<lparr>m_processingQueue := s, m_subtasks := Some sts\<rparr>)"
  by (auto simp: keeps_def manager_ok_def calls_ok_def)

lemma keeps_stamp: "keeps m m' \<Longrightarrow> keeps m (UpdateQueueTimestamp env (m'\<lparr>m_queue_timestamp := t\<rparr>))"
  using keeps_trans [OF keeps_time keeps_UpdateQueueTimestamp [OF keeps_ok [OF keeps_time]]] .

lemma merge_snapshot_ok:
  assumes "manager_ok m" and "merge_snapshot env pq m = (c, pq', m')"
  shows "keeps m m' \<and> length (items pq') = length (items pq) \<and> (c \<longrightarrow> m_subtasks m' \<noteq> None)"
proof (cases "HasOwnership m")
  case False
  have "keeps m (UpdateQueueTimestamp env (m\<lparr>m_queue_timestamp := last_update_timestamp pq\<rparr>))"
    using keeps_stamp [OF keeps_refl [OF assms(1)]] .
  then show ?thesis using assms(2) False by (auto simp: merge_snapshot_def Let_def intro: keeps_processed)
next
  case True
  obtain processed changed
    where p: "merge_processed (processed_subtask_ids pq) (m_processedSubTaskIds m) False = (processed, changed)"
    by (cases "merge_processed (processed_subtask_ids pq) (m_processedSubTaskIds m) False")
  have k0: "keeps m (m\<lparr>m_processedSubTaskIds := processed\<rparr>)" using assms(1) by (intro keeps_processed keeps_refl)
  have k: "keeps m (PublishSubTaskQueue env (UpdateQueueTimestamp env
      (m\<lparr>m_processedSubTaskIds := processed, m_queue_timestamp := last_update_timestamp pq\<rparr>)))"
    using keeps_trans [OF keeps_stamp [OF k0] keeps_PublishSubTaskQueue [OF keeps_ok [OF keeps_stamp [OF k0]]]] .
  have "m_subtasks m \<noteq> None" using assms(1) True
    by (auto simp: HasOwnership_def pq_HasOwnership_def manager_ok_def queue_ok_def split: option.splits)
  then have "keeps m m' \<and> length (items pq') = length (items pq)" "m_subtasks m \<noteq> None"
    using assms(2) True p k0 k by (auto simp: merge_snapshot_def Let_def split: if_splits)
  then show ?thesis by (simp add: keeps_def)
qed

lemma UpdateQueue_ok:
  assumes "manager_ok m" and "message_ok queue"
  shows "\<exists>b m'. UpdateQueue env (Some queue) m = Inr (b, m') \<and> keeps m m' \<and> (b \<longrightarrow> m_subtasks m' \<noteq> None)"
proof -
  obtain c pq m1 where r: "merge_snapshot env (msg_processing_queue queue) m = (c, pq, m1)"
    by (cases "merge_snapshot env (msg_processing_queue queue) m")
  from merge_snapshot_ok [OF assms(1) r] have k: "keeps m m1" "c \<longrightarrow> m_subtasks m1 \<noteq> None"
    and len: "length (items pq) = length (items (msg_processing_queue queue))" by auto
  have "message_ok (queue\<lparr>msg_processing_queue := pq\<rparr>)" using assms(2) len by (simp add: message_ok_def)
  from UpdateUnprocessedSubTaskIndices_ok [OF this, of m1] obtain "is"
    where "is": "UpdateUnprocessedSubTaskIndices (queue\<lparr>msg_processing_queue := pq\<rparr>) m1 = Inr is"
      "\<forall>i \<in> set is. i < length (msg_subtasks queue)" by auto
  obtain s u where s: "pq_UpdateQueue (m_processingQueue m1) pq is = (s, u)"
    by (cases "pq_UpdateQueue (m_processingQueue m1) pq is")
  have eq: "UpdateQueue env (Some queue) m =
      Inr (if u then (True, m1\<lparr>m_processingQueue := s, m_subtasks := Some (msg_subtasks queue)\<rparr>) else (c, m1))"
    using r "is"(1) s by (simp add: UpdateQueue_def)
  have "queue_ok (m_nodeId m) (if u then Some (msg_subtasks queue) else m_subtasks m1) s"
    using pq_UpdateQueue_ok [of "m_nodeId m" "m_subtasks m1" "m_processingQueue m1" "msg_subtasks queue" pq "is"]
      k(1) "is"(2) assms(2) len s by (auto simp: keeps_def manager_ok_def message_ok_def)
  then show ?thesis using eq k keeps_accept [OF k(1)] by auto
qed

lemma keeps_acquired:
  "keeps m m' \<Longrightarrow> keeps m (m'\<lparr>reads := r, m_ownership_acquired_at := a, m_queue_timestamp := t,
     m_ownership_last_delta_time := d, m_processedSubtasksInCurrentOwnership := p\<rparr>)"
  by (auto simp: keeps_def manager_ok_def)

lemma keeps_reads: "keeps m m' \<Longrightarrow> keeps m (m'\<lparr>reads := r\<rparr>)"
  by (auto simp: keeps_def manager_ok_def)

lemma process_pending_ok:
  assumes "keeps m m1" and "m_subtasks m1 \<noteq> None"
  shows "\<exists>m'. ProcessPendingSubTaskGrabbing env m1 = Inr m' \<and> keeps m m' \<and> m_subtasks m' \<noteq> None"
proof -
  obtain m' where "ProcessPendingSubTaskGrabbing env m1 = Inr m'" "keeps m1 m'"
    by (rule ProcessPendingSubTaskGrabbing_ok [OF keeps_ok [OF assms(1)] assms(2)])
  then show ?thesis using keeps_trans [OF assms(1)] assms(2) by (auto simp: keeps_def)
qed

lemma keeps_log: "keeps m m' \<Longrightarrow> harmless c \<Longrightarrow> keeps m (log_call c m')"
  using keeps_trans keeps_log_call keeps_ok by blast

lemma keeps_publish: "keeps m m' \<Longrightarrow> keeps m (PublishSubTaskQueue env m')"
  using keeps_trans keeps_PublishSubTaskQueue keeps_ok by blast

lemma PublishSubTaskQueue_subtasks [simp]: "m_subtasks (PublishSubTaskQueue env m) = m_subtasks m"
  by (simp add: PublishSubTaskQueue_def Let_def)

lemma acquire_ok:
  assumes "manager_ok m" and "m_subtasks m \<noteq> None"
  shows "\<exists>m'. acquire env queue m = Inr m' \<and> keeps m m'"
proof -
  define m1 where "m1 = m\<lparr>reads := Suc (reads m), m_ownership_acquired_at := ms_of (steady_clock env (reads m)),
      m_queue_timestamp := last_update_timestamp (msg_processing_queue queue),
      m_ownership_last_delta_time := ms_of (steady_clock env (reads m)), m_processedSubtasksInCurrentOwnership := 0\<rparr>"
  have k1: "keeps m m1" unfolding m1_def by (rule keeps_acquired [OF keeps_refl [OF assms(1)]])
  obtain b where b: "HasAvailableWork True m1 = Inr b" using HasAvailableWork_ok [OF keeps_ok [OF k1]] by blast
  have k2: "keeps m (log_call (QueueTimer Cancel) (log_call (GrabTimer Cancel) m1))"
    using k1 by (auto intro!: keeps_log)
  have "m_subtasks (log_call (QueueTimer Cancel) (log_call (GrabTimer Cancel) m1)) \<noteq> None"
    using assms(2) by (simp add: m1_def)
  from process_pending_ok [OF k2 this] obtain m2
    where "ProcessPendingSubTaskGrabbing env (log_call (QueueTimer Cancel) (log_call (GrabTimer Cancel) m1)) = Inr m2"
      "keeps m m2" by blast
  moreover have "acquire env queue m = rbind (HasAvailableWork True m1) (\<lambda>available.
         rmap (PublishSubTaskQueue env)
           (if available \<and> m_onSubTaskGrabbedCallbacks m1 \<noteq> []
            then ProcessPendingSubTaskGrabbing env (log_call (QueueTimer Cancel) (log_call (GrabTimer Cancel) m1))
            else Inr m1))"
    unfolding acquire_def read_clock_def Let_def m1_def by simp
  ultimately show ?thesis using b k1 by (auto intro: keeps_publish)
qed

lemma ProcessSubTaskQueueMessage_ok:
  assumes "manager_ok m" and "message_ok queue"
  shows "\<exists>b m'. ProcessSubTaskQueueMessage env queue m = Inr (b, m') \<and> keeps m m'"
proof -
  let ?m1 = "log_call (QueueTimer ExpiresInfinity) m"
  have k1: "keeps m ?m1" using assms(1) by (simp add: keeps_log_call)
  obtain c m2 where u: "UpdateQueue env (Some queue) ?m1 = Inr (c, m2)" "keeps ?m1 m2" "c \<longrightarrow> m_subtasks m2 \<noteq> None"
    using UpdateQueue_ok [OF keeps_ok [OF k1] assms(2)] by blast
  have k2: "keeps m m2" by (rule keeps_trans [OF k1 u(2)])
  have "\<exists>m3. (if c then rbind (if \<not> HasOwnership m \<and> HasOwnership m2 then acquire env queue m2 else Inr m2) (\<lambda>m.
                          if HasOwnership m2 then ProcessPendingSubTaskGrabbing env m else Inr m)
                     else Inr m2) = Inr m3 \<and> keeps m m3"
  proof (cases c)
    case True
    then have s2: "m_subtasks m2 \<noteq> None" using u(3) by simp
    obtain m3 where m3: "(if \<not> HasOwnership m \<and> HasOwnership m2 then acquire env queue m2 else Inr m2) = Inr m3"
      "keeps m2 m3"
      using acquire_ok [OF keeps_ok [OF k2] s2, of env queue] keeps_refl [OF keeps_ok [OF k2]]
      by (cases "\<not> HasOwnership m \<and> HasOwnership m2") auto
    have "m_subtasks m3 \<noteq> None" using m3(2) s2 by (simp add: keeps_def)
    from process_pending_ok [OF keeps_trans [OF k2 m3(2)] this, of env]
    show ?thesis using True m3(1) keeps_trans [OF k2 m3(2)] by auto
  qed (use k2 in simp)
  then obtain m3 where m3: "(if c then rbind (if \<not> HasOwnership m \<and> HasOwnership m2 then acquire env queue m2 else Inr m2) (\<lambda>m.
                          if HasOwnership m2 then ProcessPendingSubTaskGrabbing env m else Inr m)
                     else Inr m2) = Inr m3" "keeps m m3" by blast
  then have "keeps m (assign_sink (msg_subtasks queue) m3)"
    by (simp add: assign_sink_def keeps_log)
  then show ?thesis using m3(2) keeps_refl [OF assms(1)]
    by (simp only: ProcessSubTaskQueueMessage_def Let_def u(1) rbind_simps prod.case m3(1)) auto
qed

lemma hand_on_ok:
  assumes "keeps m m1" and "m_subtasks m1 \<noteq> None"
  shows "\<exists>b m'. hand_on env queue m1 = Inr (b, m') \<and> keeps m m'"
proof -
  obtain s b where s: "(if 0 < length (ownership_requests (msg_processing_queue queue))
      then ProcessNextOwnershipRequest (m_processingQueue m1) else (m_processingQueue m1, False)) = (s, b)" by fastforce
  have "queue_ok (m_nodeId m) (m_subtasks m1) s"
    using ProcessNextOwnershipRequest_ok [of "m_nodeId m" "m_subtasks m1" "m_processingQueue m1"] assms(1) s
    by (auto simp: keeps_def manager_ok_def split: if_splits)
  then have "keeps m (PublishSubTaskQueue env (m1\<lparr>m_processingQueue := s\<rparr>))"
    by (intro keeps_publish keeps_queue assms(1))
  then show ?thesis using process_pending_ok [OF assms, of env]
    by (auto simp: hand_on_def s [simplified])
qed

lemma take_over_ok:
  assumes "keeps m m1" and "m_subtasks m1 \<noteq> None"
  shows "\<exists>b m'. take_over env m1 = Inr (b, m') \<and> keeps m m'"
proof -
  define m2 where "m2 = m1\<lparr>reads := Suc (reads m1), m_ownership_acquired_at := ms_of (steady_clock env (reads m1)),
     m_ownership_last_delta_time := ms_of (steady_clock env (reads m1)), m_processedSubtasksInCurrentOwnership := 0\<rparr>"
  have k2: "keeps m m2" using assms(1) by (auto simp: keeps_def manager_ok_def m2_def)
  have s2: "m_subtasks m2 \<noteq> None" using assms(2) by (simp add: m2_def)
  obtain queue where q: "the_message m2 = Some queue" by (rule the_message_cases [OF keeps_ok [OF k2] s2])
  let ?m3 = "PublishSubTaskQueue env (m2\<lparr>m_queue_timestamp := last_update_timestamp (msg_processing_queue queue)\<rparr>)"
  have k3: "keeps m ?m3" by (intro keeps_publish keeps_time k2)
  have "take_over env m1 = (if HasOwnership ?m3 then hand_on env queue ?m3 else Inr (False, ?m3))"
    using q unfolding take_over_def read_clock_def Let_def m2_def by simp
  then show ?thesis using k3 hand_on_ok [OF k3, of env queue] s2 by auto
qed

lemma roll_back_ok:
  assumes "manager_ok m" and "m_subtasks m \<noteq> None"
  shows "\<exists>b m'. roll_back env m = Inr (b, m') \<and> keeps m m'"
proof -
  obtain s b where s: "RollbackOwnership (m_processingQueue m) = (s, b)"
    by (cases "RollbackOwnership (m_processingQueue m)")
  have k: "keeps m (m\<lparr>reads := Suc (reads m)\<rparr>)" by (rule keeps_reads [OF keeps_refl [OF assms(1)]])
  have "queue_ok (m_nodeId m) (m_subtasks m) s"
    using RollbackOwnership_ok [of "m_nodeId m" "m_subtasks m" "m_processingQueue m"] assms(1) s by (simp add: manager_ok_def)
  then have "keeps m (m\<lparr>reads := Suc (reads m), m_processingQueue := s\<rparr>)" using keeps_queue [OF k] by simp
  from take_over_ok [OF this, of env] show ?thesis using s k assms(2)
    by (auto simp: roll_back_def read_clock_def Let_def)
qed

lemma HandleQueueRequestTimeout_ok:
  assumes "manager_ok m" and "aborted \<or> m_subtasks m \<noteq> None"
  shows "\<exists>m'. HandleQueueRequestTimeout env aborted m = Inr m' \<and> keeps m m'"
proof (cases aborted)
  case False
  let ?m = "log_call (QueueTimer ExpiresInfinity) m"
  have k: "keeps m ?m" using assms(1) by (simp add: keeps_log_call)
  have s: "m_subtasks ?m \<noteq> None" using assms(2) False by simp
  obtain b where b: "HasAvailableWork False ?m = Inr b" using HasAvailableWork_ok [OF keeps_ok [OF k]] by blast
  obtain queue where q: "the_message ?m = Some queue" by (rule the_message_cases [OF keeps_ok [OF k] s])
  have k1: "keeps m (PublishSubTaskQueue env (upd_queue (\<lambda>q. q\<lparr>ownership_requests := []\<rparr>) ?m))"
    using keeps_publish [OF keeps_trans [OF k keeps_upd_queue [OF keeps_ok [OF k]]]] by simp
  obtain s n where n: "(if HasOwnership ?m \<and> 0 < length (ownership_requests (msg_processing_queue queue))
      then ProcessNextOwnershipRequest (m_processingQueue ?m) else (m_processingQueue ?m, False)) = (s, n)" by fastforce
  have "queue_ok (m_nodeId m) (m_subtasks ?m) s"
    using ProcessNextOwnershipRequest_ok [of "m_nodeId m" "m_subtasks ?m" "m_processingQueue ?m"] assms(1) n
    by (auto simp: manager_ok_def split: if_splits)
  then have k2: "keeps m (PublishSubTaskQueue env (?m\<lparr>m_processingQueue := s\<rparr>))"
    by (intro keeps_publish keeps_queue k)
  obtain f m3 where r: "roll_back env ?m = Inr (f, m3)" "keeps ?m m3" using roll_back_ok [OF keeps_ok [OF k] s] by blast
  have k3: "keeps m m3" by (rule keeps_trans [OF k r(2)])
  have "calls_ok (m_nodeId m) True (calls m3 @ [QueueTimer AsyncWait, QueueTimer (ExpiresFromNow 100)])"
    using k3 by (auto simp: keeps_def manager_ok_def calls_ok_def handed_ok_append)
  then have k4: "keeps m (log_call (QueueTimer (ExpiresFromNow 100)) (log_call (QueueTimer AsyncWait) m3))"
    using k3 assms(2) False by (auto simp: keeps_def manager_ok_def)
  show ?thesis using False b q n r(1) k1 k2 k3 k4
    by (simp add: HandleQueueRequestTimeout_def Let_def)
qed (simp add: HandleQueueRequestTimeout_def keeps_refl assms(1))

lemma ProcessSubTaskQueueRequestMessage_ok:
  assumes "manager_ok m"
  shows "\<exists>b m'. ProcessSubTaskQueueRequestMessage env node t m = Inr (b, m') \<and> keeps m m'"
proof -
  obtain tr where tr: "(if HasOwnership m then rmap Not (HasAvailableWork True m) else Inr False) = Inr tr"
    using HasAvailableWork_ok [OF assms, of True] by (cases "HasOwnership m") auto
  obtain s b where s: "(if tr then pq_MoveOwnershipTo (m_processingQueue m) node else (m_processingQueue m, False)) = (s, b)"
    by fastforce
  have ok: "queue_ok (m_nodeId m) (m_subtasks m) (m_processingQueue m)" using assms by (simp add: manager_ok_def)
  then have "queue_ok (m_nodeId m) (m_subtasks m) s"
    using pq_MoveOwnershipTo_ok [OF ok, of node] s by (auto split: if_splits)
  then have k1: "keeps m (PublishSubTaskQueue env (m\<lparr>m_processingQueue := s\<rparr>))" by (rule keeps_publish_queue [OF assms])
  obtain a where a: "HasAvailableWork False m = Inr a" using HasAvailableWork_ok [OF assms] by blast
  obtain s' b' where s': "AddOwnershipRequest (m_processingQueue m) node t = (s', b')"
    by (cases "AddOwnershipRequest (m_processingQueue m) node t")
  let ?m = "PublishSubTaskQueue env (m\<lparr>m_processingQueue := s'\<rparr>)"
  have k2: "keeps m ?m"
    using keeps_publish_queue [OF assms] AddOwnershipRequest_ok [OF ok, of node t] s' by simp
  have "\<exists>b m'. (if \<not> a then Inr (True, m) else if \<not> b' then Inr (True, m) else (case the_message ?m of
                       None \<Rightarrow> Inl NullQueue
                     | Some queue \<Rightarrow>
                         if length (ownership_requests (msg_processing_queue queue)) = 1
                         then rmap (\<lambda>m. (True, m))
                                (HandleQueueRequestTimeout env False (log_call (QueueTimer (ExpiresFromNow 5000)) ?m))
                         else Inr (True, ?m))) = Inr (b, m') \<and> keeps m m'"
  proof (cases "a \<and> b'")
    case True
    then have "m_subtasks m \<noteq> None"
      using s' ok by (auto simp: AddOwnershipRequest_def queue_ok_def split: option.splits)
    then have s3: "m_subtasks ?m \<noteq> None" by simp
    obtain queue where q: "the_message ?m = Some queue" by (rule the_message_cases [OF keeps_ok [OF k2] s3])
    have k3: "keeps m (log_call (QueueTimer (ExpiresFromNow 5000)) ?m)" using k2 by (simp add: keeps_log)
    obtain m' where "HandleQueueRequestTimeout env False (log_call (QueueTimer (ExpiresFromNow 5000)) ?m) = Inr m'" "keeps m m'"
      using HandleQueueRequestTimeout_ok [OF keeps_ok [OF k3], of False env] s3 keeps_trans [OF k3] by auto
    then show ?thesis using True q k2 by auto
  qed (use keeps_refl [OF assms] in auto)
  then show ?thesis using k1
    by (auto simp: ProcessSubTaskQueueRequestMessage_def tr [simplified] s [simplified] a s' Let_def)
qed

lemma keeps_change_states: "keeps m m' \<Longrightarrow> keeps m (change_states ids p m')"
proof (induction ids p m' rule: change_states.induct)
  case (2 i ids p m')
  have "keeps m (upd_queue f (m'\<lparr>m_processedSubTaskIds := ids'\<rparr>))" if "\<And>q. length (items (f q)) = length (items q)" for f ids'
    using keeps_trans [OF keeps_processed [OF "2.prems"] keeps_upd_queue [OF keeps_ok [OF keeps_processed [OF "2.prems"]] that]] .
  then show ?case using "2.IH" by (simp add: Let_def)
qed simp

lemma ChangeSubTaskProcessingStates_ok:
  assumes "manager_ok m"
  shows "\<exists>m'. ChangeSubTaskProcessingStates env ids p m = Inr m' \<and> keeps m m'"
proof (cases "the_message m")
  case None
  then show ?thesis using keeps_refl [OF assms] by (simp add: ChangeSubTaskProcessingStates_def)
next
  case (Some q0)
  let ?m = "change_states ids p m"
  have k: "keeps m ?m" by (rule keeps_change_states [OF keeps_refl [OF assms]])
  have "m_subtasks m \<noteq> None" using Some by (auto simp: the_message_def split: option.splits)
  then have s: "m_subtasks ?m \<noteq> None" using k by (simp add: keeps_def)
  obtain queue where q: "the_message ?m = Some queue" "m_subtasks ?m = Some (msg_subtasks queue)" "message_ok queue"
    by (rule the_message_cases [OF keeps_ok [OF k] s])
  obtain "is" where i: "UpdateUnprocessedSubTaskIndices queue ?m = Inr is" "\<forall>i \<in> set is. i < length (msg_subtasks queue)"
    using UpdateUnprocessedSubTaskIndices_ok [OF q(3)] by blast
  let ?s = "fst (pq_UpdateQueue (m_processingQueue ?m) (msg_processing_queue queue) is)"
  have "queue_ok (m_nodeId m) (m_subtasks ?m) ?s"
    using pq_UpdateQueue_ok [of "m_nodeId m" "m_subtasks ?m" "m_processingQueue ?m" "msg_subtasks queue"
        "msg_processing_queue queue" "is"] k i(2) q(2,3)
    by (auto simp: keeps_def manager_ok_def message_ok_def split: if_splits)
  then have k1: "keeps m (?m\<lparr>m_processingQueue := ?s\<rparr>)" by (intro keeps_queue k)
  then show ?thesis using Some q(1) i(1) keeps_publish [OF k1] by (simp add: ChangeSubTaskProcessingStates_def Let_def)
qed

lemma MoveOwnershipTo_ok:
  assumes "manager_ok m"
  shows "keeps m (snd (MoveOwnershipTo env node m))"
proof -
  obtain s b where s: "pq_MoveOwnershipTo (m_processingQueue m) node = (s, b)"
    by (cases "pq_MoveOwnershipTo (m_processingQueue m) node")
  have "queue_ok (m_nodeId m) (m_subtasks m) s"
    using pq_MoveOwnershipTo_ok [of "m_nodeId m" "m_subtasks m" "m_processingQueue m" node] assms s
    by (simp add: manager_ok_def)
  then have k: "keeps m (m\<lparr>m_processingQueue := s\<rparr>)" by (intro keeps_queue keeps_refl assms)
  then show ?thesis using s keeps_publish [OF k] by (simp add: MoveOwnershipTo_def Let_def)
qed

lemma HandleGrabSubTaskTimeout_ok:
  assumes "manager_ok m" and "m_subtasks m \<noteq> None"
  shows "\<exists>m'. HandleGrabSubTaskTimeout env aborted m = Inr m' \<and> keeps m m'"
proof -
  let ?m = "log_call (GrabTimer ExpiresInfinity) m"
  have k: "keeps m ?m" using assms(1) by (simp add: keeps_log_call)
  have s: "m_subtasks ?m \<noteq> None" using assms(2) by simp
  obtain queue where q: "the_message ?m = Some queue" by (rule the_message_cases [OF keeps_ok [OF k] s])
  obtain m' where "GrabSubTasks env ?m = Inr m'" "keeps m m'"
    using GrabSubTasks_ok [OF keeps_ok [OF k], of env] keeps_trans [OF k] by blast
  then show ?thesis using q k keeps_refl [OF assms(1)] by (simp add: HandleGrabSubTaskTimeout_def Let_def)
qed

lemma keeps_sink: "manager_ok m \<Longrightarrow> keeps m (SetSubTaskQueueAssignmentEventSink sink m)"
proof -
  assume "manager_ok m"
  then have "keeps m (m\<lparr>m_hasAssignmentSink := sink\<rparr>)" by (auto simp: keeps_def manager_ok_def)
  then show ?thesis
    by (auto simp: SetSubTaskQueueAssignmentEventSink_def Let_def assign_sink_def keeps_log split: option.splits)
qed

lemma GrabSubTask_ok: "manager_ok m \<Longrightarrow> \<exists>m'. GrabSubTask env cb m = Inr m' \<and> keeps m m'"
proof -
  assume ok: "manager_ok m"
  let ?m = "m\<lparr>m_onSubTaskGrabbedCallbacks := m_onSubTaskGrabbedCallbacks m @ [cb]\<rparr>"
  have k: "keeps m ?m" by (rule keeps_callbacks [OF keeps_refl [OF ok]])
  then show ?thesis using GrabSubTasks_ok [OF keeps_ok [OF k], of env] keeps_trans [OF k]
    by (auto simp: GrabSubTask_def)
qed

lemma perform_ok:
  assumes "manager_ok m" and "op_allowed op m"
  shows "\<exists>m'. perform env op m = Inr m' \<and> keeps m m'"
proof (cases op)
  case (OpReceive queue)
  then show ?thesis using ProcessSubTaskQueueMessage_ok [OF assms(1), of queue env] assms(2) by auto
next
  case (OpRequest node t)
  then show ?thesis using ProcessSubTaskQueueRequestMessage_ok [OF assms(1), of env node t] by auto
next
  case (OpGrabTimeout aborted)
  then have "m_subtasks m \<noteq> None" using assms by (auto simp: manager_ok_def calls_ok_def)
  then show ?thesis using HandleGrabSubTaskTimeout_ok [OF assms(1)] OpGrabTimeout by auto
next
  case (OpRequestTimeout aborted)
  then have "m_subtasks m \<noteq> None" using assms by (auto simp: manager_ok_def calls_ok_def)
  then show ?thesis using HandleQueueRequestTimeout_ok [OF assms(1)] OpRequestTimeout by auto
next
  case (OpTimeout t)
  then show ?thesis using assms(1) by (auto simp: keeps_def manager_ok_def SetProcessingTimeout_def)
next
  case (OpMax k)
  then show ?thesis using assms(1) by (auto simp: keeps_def manager_ok_def SetMaxSubtasksPerOwnership_def)
qed (use assms(1) in \<open>auto simp: CreateQueue_ok MoveOwnershipTo_ok ChangeSubTaskProcessingStates_ok keeps_sink GrabSubTask_ok\<close>)

lemma reachable_ok: "manager_reachable env node m \<Longrightarrow> manager_ok m \<and> m_nodeId m = node"
proof (induction rule: manager_reachable.induct)
  case start
  then show ?case
    by (simp add: ProcessingSubTaskQueueManager_def manager_ok_def queue_ok_def calls_ok_def ProcessingSubTaskQueue_def)
next
  case (step m op m')
  then show ?case using perform_ok [of m op env] by (auto simp: keeps_def)
qed

section \<open>Properties\<close>

text \<open>
  C15. The manager never fails, and hands out only what it has announced. In every state that a manager reaches by
  creating queues, grabbing, moving, marking subtasks, well-formed messages and requests of other nodes and timers that
  were started, every further operation succeeds (no null queue is dereferenced and no item out of range is read), and
  every subtask handed to a callback so far was handed out right after the node published the queue, as its owner, with
  the item of that subtask locked by itself.
\<close>
theorem manager_safe:
  assumes "manager_reachable env node m" and "op_allowed op m"
  shows "(\<exists>m'. perform env op m = Inr m' \<and> manager_reachable env node m') \<and> handed_ok node None (calls m)"
proof -
  from reachable_ok [OF assms(1)] have ok: "manager_ok m" "m_nodeId m = node" by auto
  obtain m' where m': "perform env op m = Inr m'" using perform_ok [OF ok(1) assms(2)] by blast
  then show ?thesis using manager_reachable.step [OF assms m'] ok by (auto simp: manager_ok_def calls_ok_def)
qed

theorem manager_safe_witness:
  "handed_ok ''a'' None (calls (ProcessingSubTaskQueueManager
      \<lparr>steady_clock = \<lambda>i. i * 1000000, active_nodes = \<lambda>i. 1, ticks_per_ms = 1000000\<rparr> ''a'')) \<and>
   (\<exists>m'. perform \<lparr>steady_clock = \<lambda>i. i * 1000000, active_nodes = \<lambda>i. 1, ticks_per_ms = 1000000\<rparr> (OpGrab 7)
      (ProcessingSubTaskQueueManager \<lparr>steady_clock = \<lambda>i. i * 1000000, active_nodes = \<lambda>i. 1, ticks_per_ms = 1000000\<rparr> ''a'') = Inr m')"
  using manager_safe [of "\<lparr>steady_clock = \<lambda>i. i * 1000000, active_nodes = \<lambda>i. 1, ticks_per_ms = 1000000\<rparr>" "''a''"
      "ProcessingSubTaskQueueManager \<lparr>steady_clock = \<lambda>i. i * 1000000, active_nodes = \<lambda>i. 1, ticks_per_ms = 1000000\<rparr> ''a''"
      "OpGrab 7", OF manager_reachable.start]
  by auto

text \<open>
  C16. A node that owns the queue answers a request for a subtask or tries again. After \<^verbatim>\<open>GrabSubTask\<close> the callback has
  been run, with a subtask or with nothing when all subtasks are processed, or it still waits and the last calls of
  the manager started the timer that tries again, after at least one millisecond and at most three seconds.
\<close>
theorem grab_answered_or_retried:
  assumes "manager_reachable env node m" and "HasOwnership m"
  shows "\<exists>m'. GrabSubTask env callback m = Inr m' \<and>
    ((\<exists>st. RunCallback callback st \<in> set (drop (length (calls m)) (calls m'))) \<or>
     callback \<in> set (m_onSubTaskGrabbedCallbacks m') \<and> retry_running m')"
proof -
  let ?m = "m\<lparr>m_onSubTaskGrabbedCallbacks := m_onSubTaskGrabbedCallbacks m @ [callback]\<rparr>"
  have ok: "manager_ok m" using reachable_ok [OF assms(1)] by simp
  then have s: "m_subtasks ?m \<noteq> None" using assms(2)
    by (auto simp: HasOwnership_def pq_HasOwnership_def manager_ok_def queue_ok_def split: option.splits)
  have k: "manager_ok ?m" using keeps_ok [OF keeps_callbacks [OF keeps_refl [OF ok]]] .
  obtain m' where m': "ProcessPendingSubTaskGrabbing env ?m = Inr m'"
    "served (m_onSubTaskGrabbedCallbacks ?m) (calls ?m) (m_onSubTaskGrabbedCallbacks m') (calls m')"
    "m_onSubTaskGrabbedCallbacks m' = [] \<or> retry_running m'"
    by (rule ProcessPendingSubTaskGrabbing_ok [OF k s])
  have "GrabSubTask env callback m = Inr m'"
    using m'(1) assms(2) by (simp add: GrabSubTask_def GrabSubTasks_def HasOwnership_def)
  moreover obtain gone new where g: "m_onSubTaskGrabbedCallbacks m @ [callback] = gone @ m_onSubTaskGrabbedCallbacks m'"
    "calls m' = calls m @ new" "\<forall>c \<in> set gone. \<exists>st. RunCallback c st \<in> set new"
    using m'(2) by (auto simp: served_def)
  have "callback \<in> set gone \<or> callback \<in> set (m_onSubTaskGrabbedCallbacks m')"
    using arg_cong [OF g(1), of set] by auto
  ultimately show ?thesis using g(2,3) m'(3) by auto
qed

theorem grab_answered_or_retried_witness:
  "let env = \<lparr>steady_clock = \<lambda>i. i * 1000000, active_nodes = \<lambda>i. 1, ticks_per_ms = 1000000\<rparr>;
       m = snd (CreateQueue env [] (ProcessingSubTaskQueueManager env ''a''))
   in HasOwnership m \<and> (\<exists>m'. GrabSubTask env 7 m = Inr m' \<and>
    ((\<exists>st. RunCallback 7 st \<in> set (drop (length (calls m)) (calls m'))) \<or>
     7 \<in> set (m_onSubTaskGrabbedCallbacks m') \<and> retry_running m'))"
proof -
  let ?env = "\<lparr>steady_clock = \<lambda>i. i * 1000000, active_nodes = \<lambda>i. 1, ticks_per_ms = 1000000\<rparr>"
  let ?m = "snd (CreateQueue ?env [] (ProcessingSubTaskQueueManager ?env ''a''))"
  have r: "manager_reachable ?env ''a'' ?m"
    by (rule manager_reachable.step [OF manager_reachable.start, of "OpCreate []"]) simp_all
  have o: "HasOwnership ?m"
    by (simp add: CreateQueue_def read_clock_def Let_def ProcessingSubTaskQueueManager_def ProcessingSubTaskQueue_def
        pq_CreateQueue_def ChangeOwnershipTo_def HasOwnership_def pq_HasOwnership_def PublishSubTaskQueue_def
        UpdateQueueTimestamp_def upd_queue_def log_call_def assign_sink_def)
  show ?thesis unfolding Let_def using o grab_answered_or_retried [OF r o, of 7] by simp
qed

text \<open>
  A lock of a lost node outlives the timeout. The manager stores the processing timeout in the queue as a number of
  clock ticks, while the queue counts milliseconds; an item that a node locks in a queue created with a timeout of
  fifteen seconds is not freed at any time up to fifteen thousand times the number of ticks per millisecond later.
\<close>
lemma locks_outlive_timeout:
  assumes "manager_reachable env node m" and "\<forall>st \<in> set sts. chunksToProcess st \<noteq> []"
    and "m_processingTimeout m = 15000 * ticks_per_ms env" and "unat t + 15000 * ticks_per_ms env < 2 ^ 64"
    and "i < length sts" and "unat t' \<le> unat t + 15000 * ticks_per_ms env"
  shows "\<exists>q q'. m_queue (m_processingQueue (snd (CreateQueue env sts m))) = Some q \<and>
    node_run [(node, [i], Grab t), (node, [i], Unlock t')] q = Inr q' \<and>
    items q' ! i = lock_item node t (processing_timeout_length q)"
proof -
  let ?m = "snd (CreateQueue env sts m)"
  have node: "m_nodeId m = node" "m_localNodeId (m_processingQueue m) = node"
    using reachable_ok [OF assms(1)] by (auto simp: manager_ok_def queue_ok_def)
  have "\<not> (\<exists>st \<in> set sts. chunksToProcess st = [])" using assms(2) by blast
  then obtain q where q: "m_queue (m_processingQueue ?m) = Some q" "items q = replicate (length sts) free_item"
    "owner_node_id q = node" "processing_timeout_length q = of_nat (15000 * ticks_per_ms env)"
    using node(2) by (auto simp: CreateQueue_def read_clock_def Let_def pq_CreateQueue_def ChangeOwnershipTo_def
        PublishSubTaskQueue_def UpdateQueueTimestamp_def HasOwnership_def pq_HasOwnership_def upd_queue_def log_call_def
        assign_sink_def assms(3))
  have "unat (t + of_nat (15000 * ticks_per_ms env)) = unat t + 15000 * ticks_per_ms env"
    using assms(4) by (simp add: unat_word_ariths unat_of_nat)
  then have no: "\<not> t + of_nat (15000 * ticks_per_ms env) < t'" using assms(6) by (simp add: word_less_nat_alt)
  let ?q1 = "q\<lparr>last_update_timestamp := t, items := (items q)[i := lock_item node t (processing_timeout_length q)]\<rparr>"
  have "node_step node [i] (Grab t) q = Inr ?q1"
    using q assms(5) by (simp add: GrabItem_def LockItem_def free_item_def)
  moreover have "node_step node [i] (Unlock t') ?q1 = Inr (?q1\<lparr>last_update_timestamp := t'\<rparr>)"
    using q no assms(5) by (simp add: UnlockExpiredItems_def Let_def pq_HasOwnership_def lock_item_def)
  ultimately show ?thesis using q assms(5) by auto
qed

end
