(* ===== verification/App_State.thy ===== *)
theory App_State
  imports Prelude "HOL-Library.Sublist"
begin

text \<open>
  The manager of the life cycle of the application, \<^verbatim>\<open>application/impl/app_state_manager_impl.cpp\<close>.

  The code of the registered callbacks is a parameter: it gives for a callback the calls it makes on the manager, in
  order, and the value it returns. A call that raises an exception ends the callback unless the callback catches it.
  The queues hold callbacks by name. The field \<open>history\<close> records what was registered and what ran; the code has no such
  field, it is what the callbacks observe. The mutex is recursive, so a callback may call the manager; the methods of other
  threads run between the critical sections of \<^verbatim>\<open>run\<close>.
\<close>

section \<open>The manager\<close>

datatype app_phase = Init | Prepare | ReadyToStart | Starting | Works | ShuttingDown | ReadyToStop

fun phase_index :: "app_phase \<Rightarrow> nat" where
  "phase_index Init = 0"
| "phase_index Prepare = 1"
| "phase_index ReadyToStart = 2"
| "phase_index Starting = 3"
| "phase_index Works = 4"
| "phase_index ShuttingDown = 5"
| "phase_index ReadyToStop = 6"

lemma phase_index_inj [simp]: "phase_index p = phase_index q \<longleftrightarrow> p = q"
  by (cases p; cases q) auto

instantiation app_phase :: linorder
begin

definition less_eq_app_phase :: "app_phase \<Rightarrow> app_phase \<Rightarrow> bool" where
  "p \<le> q \<longleftrightarrow> phase_index p \<le> phase_index q"

definition less_app_phase :: "app_phase \<Rightarrow> app_phase \<Rightarrow> bool" where
  "p < q \<longleftrightarrow> phase_index p < phase_index q"

instance
  by standard (auto simp: less_eq_app_phase_def less_app_phase_def)

end

lemmas phase_order = less_eq_app_phase_def less_app_phase_def

datatype app_stage = AtPrepare | AtLaunch | AtShutdown

text \<open>The first two are the messages of \<^verbatim>\<open>AppStateException\<close>, the last one an exception of a callback itself.\<close>

datatype app_exception = AddingCallback app_stage | RunningStage app_stage | CallbackException string

datatype 'c app_call =
  CallAtPrepare 'c | CallAtLaunch 'c | CallAtShutdown 'c | CallShutdown | CallRun | CallThrow string | CallCaught "'c app_call"

datatype 'c app_event = Added app_stage 'c | Ran app_stage 'c bool

record 'c app_state =
  phase :: app_phase
  prepare_q :: "'c list"
  launch_q :: "'c list"
  shutdown_q :: "'c list"
  shutdown_requested :: bool
  history :: "'c app_event list"

type_synonym 'c app_result = "'c app_state \<times> (app_exception + unit)"

definition AppStateManager :: "'c app_state" where
  "AppStateManager = \<lparr>phase = Init, prepare_q = [], launch_q = [], shutdown_q = [], shutdown_requested = False, history = []\<rparr>"

definition reset :: "'c app_state \<Rightarrow> 'c app_state" where
  "reset a = a\<lparr>prepare_q := [], launch_q := [], shutdown_q := [], phase := Init, shutdown_requested := False\<rparr>"

definition record_event :: "'c app_event \<Rightarrow> 'c app_state \<Rightarrow> 'c app_state" where
  "record_event e a = a\<lparr>history := history a @ [e]\<rparr>"

definition atPrepare :: "'c \<Rightarrow> 'c app_state \<Rightarrow> 'c app_result" where
  "atPrepare cb a =
     (if phase a > Init then (a, Inl (AddingCallback AtPrepare))
      else (record_event (Added AtPrepare cb) (a\<lparr>prepare_q := prepare_q a @ [cb]\<rparr>), Inr ()))"

definition atLaunch :: "'c \<Rightarrow> 'c app_state \<Rightarrow> 'c app_result" where
  "atLaunch cb a =
     (if phase a > ReadyToStart then (a, Inl (AddingCallback AtLaunch))
      else (record_event (Added AtLaunch cb) (a\<lparr>launch_q := launch_q a @ [cb]\<rparr>), Inr ()))"

definition atShutdown :: "'c \<Rightarrow> 'c app_state \<Rightarrow> 'c app_result" where
  "atShutdown cb a =
     (if phase a > Works then (a, Inl (AddingCallback AtShutdown))
      else (record_event (Added AtShutdown cb) (a\<lparr>shutdown_q := shutdown_q a @ [cb]\<rparr>), Inr ()))"

text \<open>\<^verbatim>\<open>registerHandlers\<close> and \<^verbatim>\<open>takeControl\<close> of \<^verbatim>\<open>application/app_state_manager.hpp\<close>.\<close>

definition registerHandlers :: "'c \<Rightarrow> 'c \<Rightarrow> 'c \<Rightarrow> 'c app_state \<Rightarrow> 'c app_result" where
  "registerHandlers p l s a =
     (case atPrepare p a of
        (a, Inl e) \<Rightarrow> (a, Inl e)
      | (a, Inr _) \<Rightarrow> (case atLaunch l a of (a, Inl e) \<Rightarrow> (a, Inl e) | (a, Inr _) \<Rightarrow> atShutdown s a))"

definition shutdown :: "'c app_state \<Rightarrow> 'c app_state" where
  "shutdown a = a\<lparr>shutdown_requested := True\<rparr>"

text \<open>A call of a callback on the manager. \<^verbatim>\<open>run\<close> starts with \<^verbatim>\<open>doPrepare\<close>, which raises an exception while a callback runs.\<close>

fun do_call :: "'c app_call \<Rightarrow> 'c app_state \<Rightarrow> 'c app_result" where
  "do_call (CallAtPrepare cb) a = atPrepare cb a"
| "do_call (CallAtLaunch cb) a = atLaunch cb a"
| "do_call (CallAtShutdown cb) a = atShutdown cb a"
| "do_call CallShutdown a = (shutdown a, Inr ())"
| "do_call CallRun a = (a, Inl (RunningStage AtPrepare))"
| "do_call (CallThrow s) a = (a, Inl (CallbackException s))"
| "do_call (CallCaught c) a = (fst (do_call c a), Inr ())"

fun do_calls :: "'c app_call list \<Rightarrow> 'c app_state \<Rightarrow> 'c app_result" where
  "do_calls [] a = (a, Inr ())"
| "do_calls (c # cs) a = (case do_call c a of (a, Inl e) \<Rightarrow> (a, Inl e) | (a, Inr _) \<Rightarrow> do_calls cs a)"

type_synonym 'c callbacks = "'c \<Rightarrow> 'c app_call list \<times> bool"

definition run_callback :: "'c callbacks \<Rightarrow> app_stage \<Rightarrow> 'c \<Rightarrow> 'c app_state \<Rightarrow> 'c app_state \<times> (app_exception + bool)" where
  "run_callback body s cb a =
     (case do_calls (fst (body cb)) a of
        (a, Inl e) \<Rightarrow> (a, Inl e)
      | (a, Inr _) \<Rightarrow> (record_event (Ran s cb (snd (body cb))) a, Inr (snd (body cb))))"

text \<open>A callback only adds to queues that are still open, so the loops over the queues end.\<close>

fun stage_queue :: "app_stage \<Rightarrow> 'c app_state \<Rightarrow> 'c list" where
  "stage_queue AtPrepare a = prepare_q a"
| "stage_queue AtLaunch a = launch_q a"
| "stage_queue AtShutdown a = shutdown_q a"

fun stage_limit :: "app_stage \<Rightarrow> app_phase" where
  "stage_limit AtPrepare = Init"
| "stage_limit AtLaunch = ReadyToStart"
| "stage_limit AtShutdown = Works"

fun added_in :: "app_stage \<Rightarrow> 'c app_event list \<Rightarrow> 'c list" where
  "added_in s [] = []"
| "added_in s (Added s' cb # h) = (if s = s' then cb # added_in s h else added_in s h)"
| "added_in s (Ran s' cb ok # h) = added_in s h"

fun ran_in :: "app_stage \<Rightarrow> 'c app_event list \<Rightarrow> ('c \<times> bool) list" where
  "ran_in s [] = []"
| "ran_in s (Added s' cb # h) = ran_in s h"
| "ran_in s (Ran s' cb ok # h) = (if s = s' then (cb, ok) # ran_in s h else ran_in s h)"

lemma history_append [simp]:
  "added_in s (h @ h') = added_in s h @ added_in s h'" "ran_in s (h @ h') = ran_in s h @ ran_in s h'"
  by (induction s h rule: added_in.induct) auto

definition adds :: "'c app_state \<Rightarrow> 'c app_state \<Rightarrow> app_stage \<Rightarrow> 'c list \<Rightarrow> bool" where
  "adds a a' s ds \<longleftrightarrow> stage_queue s a' = stage_queue s a @ ds \<and>
     added_in s (history a') = added_in s (history a) @ ds \<and> (phase a > stage_limit s \<longrightarrow> ds = [])"

definition only_adds :: "'c app_state \<Rightarrow> 'c app_state \<Rightarrow> bool" where
  "only_adds a a' \<longleftrightarrow> phase a' = phase a \<and> (shutdown_requested a \<longrightarrow> shutdown_requested a') \<and>
     (\<forall>s. \<exists>ds. adds a a' s ds) \<and> (\<forall>s. ran_in s (history a') = ran_in s (history a))"

lemma only_adds_refl [simp]: "only_adds a a"
  by (auto simp: only_adds_def adds_def)

lemma only_adds_trans [trans]: "only_adds a b \<Longrightarrow> only_adds b c \<Longrightarrow> only_adds a c"
  unfolding only_adds_def
proof (intro conjI allI, goal_cases)
  case (3 s)
  then obtain ds es where "adds a b s ds" "adds b c s es" by blast
  then have "adds a c s (ds @ es)" using 3 by (auto simp: adds_def)
  then show ?case by blast
qed auto

lemma stage_queue_update [simp]:
  "stage_queue s (a\<lparr>history := h\<rparr>) = stage_queue s a"
  "stage_queue s (a\<lparr>phase := p\<rparr>) = stage_queue s a"
  "stage_queue s (a\<lparr>shutdown_requested := r\<rparr>) = stage_queue s a"
  "stage_queue s (a\<lparr>prepare_q := q\<rparr>) = (if s = AtPrepare then q else stage_queue s a)"
  "stage_queue s (a\<lparr>launch_q := q\<rparr>) = (if s = AtLaunch then q else stage_queue s a)"
  "stage_queue s (a\<lparr>shutdown_q := q\<rparr>) = (if s = AtShutdown then q else stage_queue s a)"
  by (cases s; simp)+

lemma only_adds_add:
  assumes "phase a \<le> stage_limit s" "phase a' = phase a" "shutdown_requested a' = shutdown_requested a"
    "history a' = history a @ [Added s cb]" "\<And>s'. stage_queue s' a' = stage_queue s' a @ (if s' = s then [cb] else [])"
  shows "only_adds a a'"
proof -
  have "adds a a' s' (if s' = s then [cb] else [])" for s' using assms by (auto simp: adds_def)
  then show ?thesis using assms by (auto simp: only_adds_def)
qed

lemma do_call_only_adds: "only_adds a (fst (do_call c a))"
proof (induction c arbitrary: a)
  case (CallAtPrepare cb)
  show ?case
    by (auto simp: atPrepare_def record_event_def intro!: only_adds_add [of a AtPrepare _ cb])
next
  case (CallAtLaunch cb)
  show ?case
    by (auto simp: atLaunch_def record_event_def intro!: only_adds_add [of a AtLaunch _ cb])
next
  case (CallAtShutdown cb)
  show ?case
    by (auto simp: atShutdown_def record_event_def intro!: only_adds_add [of a AtShutdown _ cb])
next
  case CallShutdown
  have "adds a (shutdown a) s []" for s by (auto simp: adds_def shutdown_def)
  then show ?case by (auto simp: only_adds_def shutdown_def)
qed auto

lemma do_calls_only_adds: "only_adds a (fst (do_calls cs a))"
proof (induction cs arbitrary: a)
  case (Cons c cs)
  then show ?case using do_call_only_adds [of a c]
    by (auto split: prod.splits sum.splits) (metis fst_conv only_adds_trans)
qed simp

lemma run_callback_cases:
  assumes "run_callback body s cb a = (a', r)"
  obtains e where "r = Inl e" "only_adds a a'"
  | b where "r = Inr (snd (body cb))" "only_adds a b" "a' = record_event (Ran s cb (snd (body cb))) b"
proof -
  obtain b q where b: "do_calls (fst (body cb)) a = (b, q)" by force
  then have "only_adds a b" using do_calls_only_adds [of a "fst (body cb)"] by simp
  then show thesis using assms b that by (cases q) (auto simp: run_callback_def)
qed

lemma only_adds_queue: "only_adds a b \<Longrightarrow> phase a > stage_limit s \<Longrightarrow> stage_queue s b = stage_queue s a"
  by (auto simp: only_adds_def adds_def)

lemma run_callback_queue:
  "run_callback body s cb a = (a', r) \<Longrightarrow> phase a > stage_limit s' \<Longrightarrow> stage_queue s' a' = stage_queue s' a"
  by (erule run_callback_cases) (auto simp: record_event_def only_adds_queue)

section \<open>The stages\<close>

function prepare_loop :: "'c callbacks \<Rightarrow> 'c app_state \<Rightarrow> 'c app_result" where
  "prepare_loop body a =
     (case prepare_q a of
        [] \<Rightarrow> (a, Inr ())
      | cb # _ \<Rightarrow>
          if phase a = Prepare
          then (case run_callback body AtPrepare cb a of
                  (a, Inl e) \<Rightarrow> (a, Inl e)
                | (a, Inr success) \<Rightarrow>
                    prepare_loop body (a\<lparr>phase := (if success then phase a else ShuttingDown), prepare_q := tl (prepare_q a)\<rparr>))
          else prepare_loop body (a\<lparr>prepare_q := tl (prepare_q a)\<rparr>))"
  by pat_completeness auto
termination
  by (relation "measure (\<lambda>(body, a). length (prepare_q a))")
    (auto dest!: sym [of "(_, _)"] run_callback_queue [where s' = AtPrepare] simp: phase_order)

function launch_loop :: "'c callbacks \<Rightarrow> 'c app_state \<Rightarrow> 'c app_result" where
  "launch_loop body a =
     (case launch_q a of
        [] \<Rightarrow> (a, Inr ())
      | cb # _ \<Rightarrow>
          if phase a = Starting
          then (case run_callback body AtLaunch cb a of
                  (a, Inl e) \<Rightarrow> (a, Inl e)
                | (a, Inr success) \<Rightarrow>
                    launch_loop body (a\<lparr>phase := (if success then phase a else ShuttingDown), launch_q := tl (launch_q a)\<rparr>))
          else launch_loop body (a\<lparr>launch_q := tl (launch_q a)\<rparr>))"
  by pat_completeness auto
termination
  by (relation "measure (\<lambda>(body, a). length (launch_q a))")
    (auto dest!: sym [of "(_, _)"] run_callback_queue [where s' = AtLaunch] simp: phase_order)

declare prepare_loop.simps [simp del] launch_loop.simps [simp del]

partial_function (option) shutdown_loop :: "'c callbacks \<Rightarrow> 'c app_state \<Rightarrow> 'c app_result option" where
  "shutdown_loop body a =
     (case shutdown_q a of
        [] \<Rightarrow> Some (a, Inr ())
      | cb # _ \<Rightarrow>
          (case run_callback body AtShutdown cb a of
             (a, Inl e) \<Rightarrow> Some (a, Inl e)
           | (a, Inr _) \<Rightarrow> shutdown_loop body (a\<lparr>shutdown_q := tl (shutdown_q a)\<rparr>)))"

definition doPrepare :: "'c callbacks \<Rightarrow> 'c app_state \<Rightarrow> 'c app_result" where
  "doPrepare body a =
     (if phase a \<noteq> Init then (a, Inl (RunningStage AtPrepare))
      else (case prepare_loop body (a\<lparr>phase := Prepare\<rparr>) of
              (a, Inl e) \<Rightarrow> (a, Inl e)
            | (a, Inr _) \<Rightarrow> (if phase a = Prepare then a\<lparr>phase := ReadyToStart\<rparr> else shutdown a, Inr ())))"

definition doLaunch :: "'c callbacks \<Rightarrow> 'c app_state \<Rightarrow> 'c app_result" where
  "doLaunch body a =
     (if phase a \<noteq> ReadyToStart then (a, Inl (RunningStage AtLaunch))
      else (case launch_loop body (a\<lparr>phase := Starting\<rparr>) of
              (a, Inl e) \<Rightarrow> (a, Inl e)
            | (a, Inr _) \<Rightarrow> (if phase a = Starting then a\<lparr>phase := Works\<rparr> else shutdown a, Inr ())))"

definition doShutdown :: "'c callbacks \<Rightarrow> 'c app_state \<Rightarrow> 'c app_result option" where
  "doShutdown body a =
     (if phase a = ReadyToStop then Some (a, Inr ())
      else (case shutdown_loop body (a\<lparr>prepare_q := [], launch_q := [], phase := ShuttingDown\<rparr>) of
              None \<Rightarrow> None
            | Some (a, Inl e) \<Rightarrow> Some (a, Inl e)
            | Some (a, Inr _) \<Rightarrow> Some (a\<lparr>phase := ReadyToStop\<rparr>, Inr ())))"

text \<open>
  The thread that calls \<^verbatim>\<open>run\<close>, between its critical sections. \<open>run_step\<close> is the next section, \<open>None\<close> when the thread has
  to wait for the request to shut down or when the loop over the shutdown callbacks would not end.
\<close>

datatype run_pc = NotStarted | Prepared | Waiting | Finished | Failed app_exception

definition after_section :: "run_pc \<Rightarrow> 'c app_result \<Rightarrow> 'c app_state \<times> run_pc" where
  "after_section pc r = (fst r, case snd r of Inl e \<Rightarrow> Failed e | Inr _ \<Rightarrow> pc)"

fun run_step :: "'c callbacks \<Rightarrow> 'c app_state \<times> run_pc \<Rightarrow> ('c app_state \<times> run_pc) option" where
  "run_step body (a, NotStarted) = Some (after_section Prepared (doPrepare body a))"
| "run_step body (a, Prepared) =
     Some (if phase a = ReadyToStart then after_section Waiting (doLaunch body a) else (a, Waiting))"
| "run_step body (a, Waiting) =
     (if shutdown_requested a then map_option (after_section Finished) (doShutdown body a) else None)"
| "run_step body (a, Finished) = None"
| "run_step body (a, Failed e) = None"

inductive app_reachable :: "'c callbacks \<Rightarrow> 'c app_state \<times> run_pc \<Rightarrow> bool" for body :: "'c callbacks" where
  start: "app_reachable body (AppStateManager, NotStarted)"
| other: "app_reachable body (a, pc) \<Longrightarrow> app_reachable body (fst (do_call c a), pc)"
| run: "app_reachable body (a, pc) \<Longrightarrow> run_step body (a, pc) = Some s \<Longrightarrow> app_reachable body s"

section \<open>What ran and what is left\<close>

abbreviation succeeded :: "'c list \<Rightarrow> ('c \<times> bool) list" where
  "succeeded cbs \<equiv> map (\<lambda>c. (c, True)) cbs"

definition in_order :: "'c app_state \<Rightarrow> bool" where
  "in_order a \<longleftrightarrow> (\<forall>s. prefix (map fst (ran_in s (history a))) (added_in s (history a))) \<and>
     added_in AtShutdown (history a) = map fst (ran_in AtShutdown (history a)) @ shutdown_q a \<and>
     (ran_in AtLaunch (history a) \<noteq> [] \<longrightarrow> ran_in AtPrepare (history a) = succeeded (added_in AtPrepare (history a)))"

definition stage_left :: "'c app_state \<Rightarrow> app_stage \<Rightarrow> bool" where
  "stage_left a s \<longleftrightarrow> succeeded (added_in s (history a)) = ran_in s (history a) @ succeeded (stage_queue s a)"

definition app_inv :: "'c app_state \<Rightarrow> bool" where
  "app_inv a \<longleftrightarrow> in_order a \<and>
     (phase a \<le> Works \<longrightarrow> stage_left a AtPrepare \<and> stage_left a AtLaunch \<and> ran_in AtShutdown (history a) = []) \<and>
     (phase a \<le> ReadyToStart \<longrightarrow> ran_in AtLaunch (history a) = []) \<and>
     (phase a = Init \<longrightarrow> ran_in AtPrepare (history a) = []) \<and>
     (phase a > Prepare \<and> phase a \<le> Works \<or> phase a = ReadyToStop \<longrightarrow> prepare_q a = []) \<and>
     (phase a = Works \<or> phase a = ReadyToStop \<longrightarrow> launch_q a = []) \<and> (phase a = ReadyToStop \<longrightarrow> shutdown_q a = [])"

lemma app_inv_start [simp]: "app_inv AppStateManager"
  by (auto simp: app_inv_def in_order_def stage_left_def AppStateManager_def)

lemma app_inv_only_adds:
  assumes "app_inv a" "only_adds a b"
  shows "app_inv b"
proof -
  have ran: "ran_in s (history b) = ran_in s (history a)" and ph: "phase b = phase a" for s
    using assms(2) by (auto simp: only_adds_def)
  obtain ds where ds: "adds a b s (ds s)" for s using assms(2) unfolding only_adds_def by metis
  have sq: "stage_queue s b = stage_queue s a @ ds s" and ad: "added_in s (history b) = added_in s (history a) @ ds s"
    and no: "phase a > stage_limit s \<Longrightarrow> ds s = []" for s using ds [of s] by (auto simp: adds_def)
  note q = sq [of AtPrepare] sq [of AtLaunch] sq [of AtShutdown]
  have "in_order b"
  proof -
    have "ds AtPrepare = []" if "ran_in AtLaunch (history a) \<noteq> []"
      using that assms(1) no [of AtPrepare] by (auto simp: app_inv_def phase_order)
    then show ?thesis using assms(1) q by (auto simp: app_inv_def in_order_def ran ad)
  qed
  moreover have "stage_left b s" if "stage_left a s" for s using that by (simp add: stage_left_def ran ad sq)
  moreover have "ds AtPrepare = []" if "phase a > Prepare" using no [of AtPrepare] that by (auto simp: phase_order)
  moreover have "ds AtLaunch = []" if "phase a \<ge> Works" using no [of AtLaunch] that by (auto simp: phase_order)
  moreover have "ds AtShutdown = []" if "phase a = ReadyToStop" using no [of AtShutdown] that by (auto simp: phase_order)
  ultimately show ?thesis using assms(1) q unfolding app_inv_def ran ph
    by (auto simp: phase_order)
qed

lemma prefix_ran: "succeeded xs = rs @ succeeded (cb # q) \<Longrightarrow> prefix (map fst rs @ [cb]) xs"
proof -
  assume "succeeded xs = rs @ succeeded (cb # q)"
  then have "map fst (succeeded xs) = map fst (rs @ succeeded (cb # q))" by simp
  then have "xs = map fst rs @ cb # q" by (simp add: comp_def)
  then show ?thesis by simp
qed

lemma app_inv_ran_prepare:
  assumes "app_inv c" "phase c = Prepare" "prepare_q c = cb # q"
  shows "app_inv (record_event (Ran AtPrepare cb ok) c\<lparr>phase := (if ok then Prepare else ShuttingDown), prepare_q := q\<rparr>)"
proof -
  have l: "stage_left c AtPrepare" "stage_left c AtLaunch" "ran_in AtLaunch (history c) = []" "ran_in AtShutdown (history c) = []"
    and o: "in_order c" using assms(1,2) by (simp_all add: app_inv_def phase_order)
  have p: "prefix (map fst (ran_in AtPrepare (history c)) @ [cb]) (added_in AtPrepare (history c))"
    using l(1) assms(3) prefix_ran [of "added_in AtPrepare (history c)" _ cb q] by (simp add: stage_left_def)
  have "in_order (record_event (Ran AtPrepare cb ok) c\<lparr>phase := (if ok then Prepare else ShuttingDown), prepare_q := q\<rparr>)"
    using o p l(3) by (simp add: in_order_def record_event_def)
  then show ?thesis using l assms(2,3)
    by (cases ok) (simp_all add: app_inv_def stage_left_def record_event_def phase_order)
qed

lemma app_inv_ran_launch:
  assumes "app_inv c" "phase c = Starting" "launch_q c = cb # q"
  shows "app_inv (record_event (Ran AtLaunch cb ok) c\<lparr>phase := (if ok then Starting else ShuttingDown), launch_q := q\<rparr>)"
proof -
  have l: "stage_left c AtPrepare" "stage_left c AtLaunch" "prepare_q c = []" "ran_in AtShutdown (history c) = []"
    and o: "in_order c" using assms(1,2) by (simp_all add: app_inv_def phase_order)
  have p: "prefix (map fst (ran_in AtLaunch (history c)) @ [cb]) (added_in AtLaunch (history c))"
    using l(2) assms(3) prefix_ran [of "added_in AtLaunch (history c)" _ cb q] by (simp add: stage_left_def)
  have "in_order (record_event (Ran AtLaunch cb ok) c\<lparr>phase := (if ok then Starting else ShuttingDown), launch_q := q\<rparr>)"
    using o p l(1,3) by (simp add: in_order_def record_event_def stage_left_def)
  then show ?thesis using l assms(2,3)
    by (cases ok) (simp_all add: app_inv_def stage_left_def record_event_def phase_order)
qed

lemma app_inv_ran_shutdown:
  assumes "app_inv c" "phase c = ShuttingDown" "shutdown_q c = cb # q"
  shows "app_inv (record_event (Ran AtShutdown cb ok) c\<lparr>shutdown_q := q\<rparr>)"
  using assms unfolding app_inv_def in_order_def stage_left_def by (auto simp: record_event_def phase_order)

lemma app_inv_pop: "app_inv a \<Longrightarrow> phase a = ShuttingDown \<Longrightarrow> app_inv (a\<lparr>prepare_q := q\<rparr>)"
  "app_inv a \<Longrightarrow> phase a = ShuttingDown \<Longrightarrow> app_inv (a\<lparr>launch_q := q'\<rparr>)"
  unfolding app_inv_def in_order_def by (auto simp: phase_order)

text \<open>One callback of a stage: the queue is popped, and what is left still fits to what ran.\<close>

lemma run_callback_queue_head:
  assumes "run_callback body s cb a = (b, Inr ok)" "app_inv a" "phase a > stage_limit s"
  obtains c where "app_inv c" "phase c = phase a" "stage_queue s c = stage_queue s a" "b = record_event (Ran s cb ok) c"
  using assms(1)
proof (cases rule: run_callback_cases)
  case (2 c)
  then show ?thesis
    using that [of c] app_inv_only_adds [OF assms(2)] only_adds_queue [of a c s] assms(3) by (auto simp: only_adds_def)
qed simp

lemma run_callback_failed: "run_callback body s cb a = (b, Inl e) \<Longrightarrow> app_inv a \<Longrightarrow> app_inv b \<and> phase b = phase a"
  by (erule run_callback_cases) (auto simp: app_inv_only_adds only_adds_def)

lemma prepare_loop_inv:
  assumes "prepare_loop body a = (a', r)" "app_inv a" "phase a = Prepare \<or> phase a = ShuttingDown"
  shows "app_inv a' \<and> (phase a' = Prepare \<or> phase a' = ShuttingDown) \<and> (r = Inr () \<longrightarrow> prepare_q a' = [])"
  using assms
proof (induction body a arbitrary: a' r rule: prepare_loop.induct)
  case (1 body a)
  note loop = "1.prems"(1) [unfolded prepare_loop.simps [of body a]]
  show ?case
  proof (cases "prepare_q a")
    case Nil
    then show ?thesis using loop "1.prems" by auto
  next
    case (Cons cb q)
    show ?thesis
    proof (cases "phase a = Prepare")
      case True
      obtain b p where b: "run_callback body AtPrepare cb a = (b, p)" by force
      show ?thesis
      proof (cases p)
        case (Inl e)
        then show ?thesis using run_callback_failed [OF b [unfolded Inl] "1.prems"(2)] loop Cons True b by auto
      next
        case (Inr ok)
        obtain c where c: "app_inv c" "phase c = phase a" "stage_queue AtPrepare c = stage_queue AtPrepare a"
          "b = record_event (Ran AtPrepare cb ok) c"
          using run_callback_queue_head [OF b [unfolded Inr] "1.prems"(2)] True by (auto simp: phase_order)
        then have "app_inv (b\<lparr>phase := (if ok then phase b else ShuttingDown), prepare_q := tl (prepare_q b)\<rparr>)"
          using app_inv_ran_prepare [of c cb q ok] True Cons by (cases ok) (auto simp: record_event_def)
        then show ?thesis using "1.IH"(1) [OF Cons True b [symmetric] Inr, of a' r] loop Cons True b c(2,4) Inr
          by (auto simp: record_event_def)
      qed
    next
      case False
      then show ?thesis using "1.IH"(2) [OF Cons False, of a' r] loop "1.prems"(2,3) Cons app_inv_pop by auto
    qed
  qed
qed

lemma launch_loop_inv:
  assumes "launch_loop body a = (a', r)" "app_inv a" "phase a = Starting \<or> phase a = ShuttingDown"
  shows "app_inv a' \<and> (phase a' = Starting \<or> phase a' = ShuttingDown) \<and> (r = Inr () \<longrightarrow> launch_q a' = [])"
  using assms
proof (induction body a arbitrary: a' r rule: launch_loop.induct)
  case (1 body a)
  note loop = "1.prems"(1) [unfolded launch_loop.simps [of body a]]
  show ?case
  proof (cases "launch_q a")
    case Nil
    then show ?thesis using loop "1.prems" by auto
  next
    case (Cons cb q)
    show ?thesis
    proof (cases "phase a = Starting")
      case True
      obtain b p where b: "run_callback body AtLaunch cb a = (b, p)" by force
      show ?thesis
      proof (cases p)
        case (Inl e)
        then show ?thesis using run_callback_failed [OF b [unfolded Inl] "1.prems"(2)] loop Cons True b by auto
      next
        case (Inr ok)
        obtain c where c: "app_inv c" "phase c = phase a" "stage_queue AtLaunch c = stage_queue AtLaunch a"
          "b = record_event (Ran AtLaunch cb ok) c"
          using run_callback_queue_head [OF b [unfolded Inr] "1.prems"(2)] True by (auto simp: phase_order)
        then have "app_inv (b\<lparr>phase := (if ok then phase b else ShuttingDown), launch_q := tl (launch_q b)\<rparr>)"
          using app_inv_ran_launch [of c cb q ok] True Cons by (cases ok) (auto simp: record_event_def)
        then show ?thesis using "1.IH"(1) [OF Cons True b [symmetric] Inr, of a' r] loop Cons True b c(2,4) Inr
          by (auto simp: record_event_def)
      qed
    next
      case False
      then show ?thesis using "1.IH"(2) [OF Cons False, of a' r] loop "1.prems"(2,3) Cons app_inv_pop by auto
    qed
  qed
qed

lemma run_callback_closed:
  assumes "run_callback body s cb a = (b, p)" "phase a = ShuttingDown"
  shows "added_in s' (history b) = added_in s' (history a)" and "stage_queue s' b = stage_queue s' a"
proof -
  have l: "phase a > stage_limit s'" using assms(2) by (cases s') (auto simp: phase_order)
  then show "stage_queue s' b = stage_queue s' a" using run_callback_queue [OF assms(1)] by blast
  have h: "added_in s' (history c) = added_in s' (history a)" if "only_adds a c" for c
    using that l by (auto simp: only_adds_def adds_def)
  show "added_in s' (history b) = added_in s' (history a)"
    by (rule run_callback_cases [OF assms(1)]) (simp_all add: record_event_def, (rule h, assumption)+)
qed

definition quiet :: "'c callbacks \<Rightarrow> bool" where
  "quiet body \<longleftrightarrow> (\<forall>cb. \<forall>c \<in> set (fst (body cb)). c = CallShutdown \<or> (\<exists>d. c = CallCaught d))"

lemma do_calls_quiet: "\<forall>c \<in> set cs. c = CallShutdown \<or> (\<exists>d. c = CallCaught d) \<Longrightarrow> snd (do_calls cs a) = Inr ()"
  by (induction cs arbitrary: a) auto

lemma run_callback_quiet: "quiet body \<Longrightarrow> snd (run_callback body s cb a) = Inr (snd (body cb))"
  using do_calls_quiet [of "fst (body cb)" a]
  by (auto simp: quiet_def run_callback_def split: prod.splits sum.splits)

lemma shutdown_loop_inv:
  assumes "app_inv a" "phase a = ShuttingDown"
  shows "\<exists>a' r. shutdown_loop body a = Some (a', r) \<and> app_inv a' \<and> phase a' = ShuttingDown \<and> (r = Inr () \<longrightarrow> shutdown_q a' = []) \<and>
    (quiet body \<longrightarrow> r = Inr ()) \<and> added_in AtShutdown (history a') = added_in AtShutdown (history a) \<and> prepare_q a' = prepare_q a \<and> launch_q a' = launch_q a"
  using assms
proof (induction "length (shutdown_q a)" arbitrary: a)
  case 0
  then show ?case by (auto simp: shutdown_loop.simps)
next
  case (Suc n)
  then obtain cb q where q: "shutdown_q a = cb # q" by (cases "shutdown_q a") auto
  obtain b p where b: "run_callback body AtShutdown cb a = (b, p)" by force
  note closed = run_callback_closed [OF b Suc.prems(2)]
  note same = closed(1) [of AtShutdown] closed(2) [of AtPrepare] closed(2) [of AtLaunch] closed(2) [of AtShutdown]
  show ?case
  proof (cases p)
    case (Inl e)
    then show ?thesis using run_callback_failed [OF b [unfolded Inl] Suc.prems(1)] b q Suc.prems same
        run_callback_quiet [of body AtShutdown cb a] by (auto simp: shutdown_loop.simps)
  next
    case (Inr ok)
    obtain c where c: "app_inv c" "phase c = phase a" "stage_queue AtShutdown c = stage_queue AtShutdown a"
      "b = record_event (Ran AtShutdown cb ok) c"
      using run_callback_queue_head [OF b [unfolded Inr] Suc.prems(1)] Suc.prems(2) by (auto simp: phase_order)
    then have n: "app_inv (b\<lparr>shutdown_q := tl (shutdown_q b)\<rparr>)" "phase b = ShuttingDown"
      using app_inv_ran_shutdown [of c cb q ok] Suc.prems(2) q by (auto simp: record_event_def)
    then have "shutdown_loop body a = shutdown_loop body (b\<lparr>shutdown_q := tl (shutdown_q b)\<rparr>)"
      using b q Inr by (subst shutdown_loop.simps) simp
    then show ?thesis using Suc.hyps(1) [of "b\<lparr>shutdown_q := tl (shutdown_q b)\<rparr>"] n same q Suc.hyps(2) by auto
  qed
qed

lemma order_kept [simp]:
  "in_order (a\<lparr>phase := p\<rparr>) = in_order a" "in_order (a\<lparr>shutdown_requested := r\<rparr>) = in_order a"
  "in_order (a\<lparr>prepare_q := q\<rparr>) = in_order a" "in_order (a\<lparr>launch_q := q\<rparr>) = in_order a"
  "stage_left (a\<lparr>phase := p\<rparr>) s = stage_left a s" "stage_left (a\<lparr>shutdown_requested := r\<rparr>) s = stage_left a s"
  by (simp_all add: in_order_def stage_left_def)

lemma app_inv_phase:
  "app_inv a \<Longrightarrow> phase a = Init \<Longrightarrow> app_inv (a\<lparr>phase := Prepare\<rparr>)"
  "app_inv a \<Longrightarrow> phase a = Prepare \<Longrightarrow> prepare_q a = [] \<Longrightarrow> app_inv (a\<lparr>phase := ReadyToStart\<rparr>)"
  "app_inv a \<Longrightarrow> phase a = ReadyToStart \<Longrightarrow> app_inv (a\<lparr>phase := Starting\<rparr>)"
  "app_inv a \<Longrightarrow> phase a = Starting \<Longrightarrow> launch_q a = [] \<Longrightarrow> app_inv (a\<lparr>phase := Works\<rparr>)"
  "app_inv a \<Longrightarrow> app_inv (shutdown a)"
  "app_inv a \<Longrightarrow> app_inv (a\<lparr>prepare_q := [], launch_q := [], phase := ShuttingDown\<rparr>)"
  "app_inv a \<Longrightarrow> prepare_q a = [] \<Longrightarrow> launch_q a = [] \<Longrightarrow> shutdown_q a = [] \<Longrightarrow> app_inv (a\<lparr>phase := ReadyToStop\<rparr>)"
  by (simp_all add: app_inv_def phase_order shutdown_def)

lemma doPrepare_inv:
  assumes "doPrepare body a = (a', r)" "app_inv a" "phase a = Init"
  shows "app_inv a' \<and> (r = Inr () \<longrightarrow> phase a' = ReadyToStart \<or> phase a' = ShuttingDown \<and> shutdown_requested a')"
proof -
  obtain b p where b: "prepare_loop body (a\<lparr>phase := Prepare\<rparr>) = (b, p)" by force
  have i: "app_inv b" "phase b = Prepare \<or> phase b = ShuttingDown" "p = Inr () \<longrightarrow> prepare_q b = []"
    using prepare_loop_inv [OF b app_inv_phase(1) [OF assms(2,3)]] by simp_all
  then show ?thesis using assms(1,3) b app_inv_phase(2,5) [of b]
    by (cases p) (auto simp: doPrepare_def shutdown_def)
qed

lemma doLaunch_inv:
  assumes "doLaunch body a = (a', r)" "app_inv a" "phase a = ReadyToStart"
  shows "app_inv a' \<and> (r = Inr () \<longrightarrow> phase a' = Works \<or> phase a' = ShuttingDown \<and> shutdown_requested a')"
proof -
  obtain b p where b: "launch_loop body (a\<lparr>phase := Starting\<rparr>) = (b, p)" by force
  have i: "app_inv b" "phase b = Starting \<or> phase b = ShuttingDown" "p = Inr () \<longrightarrow> launch_q b = []"
    using launch_loop_inv [OF b app_inv_phase(3) [OF assms(2,3)]] by simp_all
  then show ?thesis using assms(1,3) b app_inv_phase(4,5) [of b]
    by (cases p) (auto simp: doLaunch_def shutdown_def)
qed

lemma doShutdown_inv:
  assumes "app_inv a"
  shows "\<exists>a' r. doShutdown body a = Some (a', r) \<and> app_inv a' \<and> (r = Inr () \<longrightarrow> phase a' = ReadyToStop) \<and>
    (quiet body \<longrightarrow> r = Inr ())"
proof (cases "phase a = ReadyToStop")
  case True
  then show ?thesis using assms by (simp add: doShutdown_def)
next
  case False
  obtain b p where b: "shutdown_loop body (a\<lparr>prepare_q := [], launch_q := [], phase := ShuttingDown\<rparr>) = Some (b, p)"
    "app_inv b" "phase b = ShuttingDown" "p = Inr () \<longrightarrow> shutdown_q b = []" "quiet body \<longrightarrow> p = Inr ()" "prepare_q b = []" "launch_q b = []"
    using shutdown_loop_inv [OF app_inv_phase(6) [OF assms], of body] by auto
  then show ?thesis using app_inv_phase(7) [of b] False by (cases p) (auto simp: doShutdown_def)
qed

definition run_inv :: "'c app_state \<times> run_pc \<Rightarrow> bool" where
  "run_inv = (\<lambda>(a, pc). app_inv a \<and>
     (case pc of
        NotStarted \<Rightarrow> phase a = Init
      | Prepared \<Rightarrow> phase a = ReadyToStart \<or> phase a = ShuttingDown \<and> shutdown_requested a
      | Waiting \<Rightarrow> phase a = Works \<or> phase a = ShuttingDown \<and> shutdown_requested a
      | Finished \<Rightarrow> phase a = ReadyToStop
      | Failed e \<Rightarrow> True))"

lemma run_step_inv:
  assumes "run_inv (a, pc)" "run_step body (a, pc) = Some s"
  shows "run_inv s"
  using assms
proof (cases pc)
  case NotStarted
  obtain a' r where r: "doPrepare body a = (a', r)" by force
  then show ?thesis using assms NotStarted doPrepare_inv [OF r]
    by (cases r) (auto simp: run_inv_def after_section_def)
next
  case Prepared
  obtain a' r where r: "doLaunch body a = (a', r)" by force
  then show ?thesis using assms Prepared doLaunch_inv [OF r]
    by (cases r) (auto simp: run_inv_def after_section_def split: if_splits)
next
  case Waiting
  then obtain a' r where "doShutdown body a = Some (a', r)" "app_inv a'" "r = Inr () \<longrightarrow> phase a' = ReadyToStop"
    using assms(1) doShutdown_inv [of a body] by (auto simp: run_inv_def)
  then show ?thesis using assms(2) Waiting by (cases r) (auto simp: run_inv_def after_section_def split: if_splits)
qed auto

lemma app_reachable_inv: "app_reachable body s \<Longrightarrow> run_inv s"
proof (induction rule: app_reachable.induct)
  case (other a pc c)
  have o: "only_adds a (fst (do_call c a))" by (rule do_call_only_adds)
  show ?case using other.IH app_inv_only_adds [OF _ o] o
    by (auto simp: run_inv_def only_adds_def split: run_pc.splits)
next
  case (run a pc s)
  then show ?case using run_step_inv by blast
qed (simp add: run_inv_def AppStateManager_def [THEN arg_cong [of _ _ phase]])

section \<open>Order and end of the life cycle\<close>

text \<open>
  The life cycle keeps its order, whatever other threads call meanwhile and whatever the callbacks do with the manager. The
  callbacks of every stage run in the order of their registration and at most once; no launch callback runs unless every
  registered prepare callback ran and succeeded; the application works only after all of both succeeded and before any
  shutdown callback ran; when \<^verbatim>\<open>run\<close> returns, every registered shutdown callback has run and nothing is left in the queues.
\<close>
lemma lifecycle_in_order:
  assumes "app_reachable body (a, pc)"
  shows "(\<forall>s. prefix (map fst (ran_in s (history a))) (added_in s (history a))) \<and>
    (ran_in AtLaunch (history a) \<noteq> [] \<longrightarrow> ran_in AtPrepare (history a) = succeeded (added_in AtPrepare (history a))) \<and>
    (phase a = Works \<longrightarrow> ran_in AtPrepare (history a) = succeeded (added_in AtPrepare (history a)) \<and>
       ran_in AtLaunch (history a) = succeeded (added_in AtLaunch (history a)) \<and> ran_in AtShutdown (history a) = []) \<and>
    (pc = Finished \<longrightarrow> phase a = ReadyToStop \<and> prepare_q a = [] \<and> launch_q a = [] \<and> shutdown_q a = [] \<and>
       map fst (ran_in AtShutdown (history a)) = added_in AtShutdown (history a))"
proof -
  have i: "app_inv a" "pc = Finished \<longrightarrow> phase a = ReadyToStop"
    using app_reachable_inv [OF assms] by (auto simp: run_inv_def split: run_pc.splits)
  have o: "in_order a" using i(1) by (simp add: app_inv_def)
  have "stage_left a AtPrepare \<and> stage_left a AtLaunch \<and> ran_in AtShutdown (history a) = [] \<and> prepare_q a = [] \<and> launch_q a = []"
    if "phase a = Works" using i(1) that by (simp add: app_inv_def phase_order)
  moreover have "prepare_q a = [] \<and> launch_q a = [] \<and> shutdown_q a = []" if "phase a = ReadyToStop"
    using i(1) that by (simp add: app_inv_def)
  ultimately show ?thesis using i(2) o by (auto simp: in_order_def stage_left_def)
qed

text \<open>
  The application never hangs in its stages: the thread of \<^verbatim>\<open>run\<close> waits only when everything was started successfully and
  nobody asked to shut down, in particular never after a callback failed; once the request is there, the shutdown ends, and
  it ends with \<^verbatim>\<open>ReadyToStop\<close> and every shutdown callback run if no callback raises an exception.
\<close>
lemma shutdown_always_reached:
  assumes "app_reachable body (a, pc)"
  shows "(run_step body (a, pc) = None \<longleftrightarrow> pc = Waiting \<and> phase a = Works \<and> \<not> shutdown_requested a \<or> pc = Finished \<or> (\<exists>e. pc = Failed e)) \<and>
    (quiet body \<and> pc = Waiting \<and> shutdown_requested a \<longrightarrow>
       (\<exists>a'. run_step body (a, pc) = Some (a', Finished) \<and> phase a' = ReadyToStop \<and>
          map fst (ran_in AtShutdown (history a')) = added_in AtShutdown (history a')))"
proof -
  have i: "app_inv a" "pc = Waiting \<longrightarrow> phase a = Works \<or> phase a = ShuttingDown \<and> shutdown_requested a"
    using app_reachable_inv [OF assms] by (auto simp: run_inv_def split: run_pc.splits)
  obtain a' r where r: "doShutdown body a = Some (a', r)" "app_inv a'" "r = Inr () \<longrightarrow> phase a' = ReadyToStop"
    "quiet body \<longrightarrow> r = Inr ()" using doShutdown_inv [OF i(1), of body] by blast
  have "map fst (ran_in AtShutdown (history a')) = added_in AtShutdown (history a')" if "phase a' = ReadyToStop"
    using r(2) that by (simp add: app_inv_def in_order_def)
  then show ?thesis using i(2) r by (cases pc) (auto simp: after_section_def)
qed

end
