(* ===== verification/Spec2Isabelle.thy ===== *)
theory Spec2Isabelle
  imports Scale_Codec Scaled_Integer Trie_Batch Transaction_Manager Wasm_Memory Queue_Safety App_State
begin

text \<open>
  A verification development of SuperGenius, a blockchain node written in C++ under \<^verbatim>\<open>src/src\<close>.

  \<^bold>\<open>The program and the theories.\<close> The node keeps its state in a Merkle trie over a key-value store, encodes
  everything that is hashed or sent with the SCALE codec, and keeps an account of unspent outputs that
  transactions spend and create; transactions live in a replicated database.

  \<^item> \<^verbatim>\<open>Prelude\<close>: byte and word types, results as sums (\<open>Inl\<close> the error, \<open>Inr\<close> the value) with \<open>rbind\<close> and \<open>rmap\<close>,
    shared list lemmas. \<^verbatim>\<open>Std_Map\<close>: an ordered map as a sorted association list (\<^verbatim>\<open>std::map\<close>).
  \<^item> \<^verbatim>\<open>Scale_Codec\<close>: \<^verbatim>\<open>scale/\<close>, \<^verbatim>\<open>base/buffer.hpp\<close> and \<^verbatim>\<open>base/blob.hpp\<close>. An encoder stream is the list of bytes
    written so far, a decoder stream the span with the index of the next byte; templates take the codec of their
    element as an argument. The locale \<open>scale_codec\<close> states the round-trip law and is interpreted for compact
    integers, buffers and blobs.
  \<^item> \<^verbatim>\<open>Scaled_Integer\<close>: \<^verbatim>\<open>base/ScaledInteger.cpp\<close> and \<^verbatim>\<open>account/TokenAmount.cpp\<close>, amounts as 64-bit words with a
    decimal precision. 128-bit intermediates are naturals.
  \<^item> \<^verbatim>\<open>Trie_Node\<close>, \<^verbatim>\<open>Trie_Ops\<close>, \<^verbatim>\<open>Trie_Removal\<close>, \<^verbatim>\<open>Trie_Map\<close>: \<^verbatim>\<open>storage/trie/supergenius_trie\<close> and
    \<^verbatim>\<open>storage/trie/serialization/supergenius_codec.cpp\<close>. A node is a leaf, a branch with sixteen children, or a
    dummy that holds the storage key of a child not loaded yet; the retriever that loads it is an argument of the
    operations. \<open>lookup\<close> abstracts a node to a map from nibble strings to values, \<open>entries\<close> a trie to a map from keys
    to values, and \<open>trie_inv\<close> says that a trie is well formed and canonical.
  \<^item> \<^verbatim>\<open>Byte_Store\<close>: the in-memory storage and its batch; the locale \<open>byte_store\<close> is the contract of a store
    (what a lookup returns after a put or a removal), interpreted for the in-memory storage and for tries
    over keys of one length.
  \<^item> \<^verbatim>\<open>Trie_Storage\<close>, \<^verbatim>\<open>Trie_Commit\<close>: the serializer and the storage backend. The database is a map and the hash
    a function argument. \<open>loads\<close> relates a lazily loaded trie to the trie it stands for.
  \<^item> \<^verbatim>\<open>Trie_Batch\<close>: topper, persistent and ephemeral batches, the trie storage with its root hash, the changes
    tracker and the changes trie.
  \<^item> \<^verbatim>\<open>Utxo\<close>: token identifiers, unspent outputs and their selection, the account. \<^verbatim>\<open>Transactions\<close>: the five kinds
    of transactions, their messages, hash, signature and paths. \<^verbatim>\<open>Transaction_Manager\<close>: payments, mints and
    escrows, the queue, the parsers, the scans, the filters and the waiting loops of
    \<^verbatim>\<open>account/TransactionManager.cpp\<close>. The protobuf format, the hash and the signature scheme are the fields of
    the record \<open>libraries\<close>; the prover, the results of database queries and what publishing a delta does are
    arguments. \<open>publish_ok\<close> names what a successful publishing is relied on for.
  \<^item> \<^verbatim>\<open>Wasm_Memory\<close>: the allocator and the buffers of \<^verbatim>\<open>runtime/binaryen/wasm_memory_impl.cpp\<close>. The order in which an
    \<^verbatim>\<open>unordered_map\<close> is iterated is an argument.
  \<^item> \<^verbatim>\<open>Subtask_Queue\<close>, \<^verbatim>\<open>Queue_Manager\<close>, \<^verbatim>\<open>Queue_Safety\<close>: the queue of subtasks that nodes share while they process a task
    and the manager of it on one node, \<^verbatim>\<open>processing/processing_subtask_queue.cpp\<close> and
    \<^verbatim>\<open>processing/processing_subtask_queue_manager.cpp\<close>. \<open>node_run\<close> lets several nodes act in turn on one queue;
    \<open>manager_reachable\<close> are the states of one manager under any sequence of calls, messages and timers.
  \<^item> \<^verbatim>\<open>Crdt_Set\<close>, \<^verbatim>\<open>Crdt_Merge\<close>: the replicated set of \<^verbatim>\<open>crdt/impl/crdt_set.cpp\<close>, its hierarchical keys and the wrapper
    of RocksDB. RocksDB is the record \<open>rocks\<close>, status codes included, with the laws \<open>rocks_ok\<close>; \<open>set_contents\<close> abstracts a
    database to its elements, tombstones and current values. \<^verbatim>\<open>Atomic_Transaction\<close>: the transactions of
    \<^verbatim>\<open>crdt/impl/atomic_transaction.cpp\<close> and the publishing of their delta into the set by \<^verbatim>\<open>crdt/impl/crdt_datastore.cpp\<close>;
    heads, blocks and their exchange are the record \<open>dag_layer\<close>.
  \<^item> \<^verbatim>\<open>App_State\<close>: the life cycle of the application, \<^verbatim>\<open>application/impl/app_state_manager_impl.cpp\<close>, as a state machine
    between the critical sections of the thread that runs it; the callbacks are a parameter.

  \<^bold>\<open>What the theorems show.\<close> The codecs round-trip and fail exactly where they should; amounts print and parse
  back. On keys of one length the trie refines a finite map and its shape depends on the contents only; it survives
  storing and reopening, and a session on the storage reads what a map would. The changes tracker has every change
  of the puts and removals it could be told of, and none of a cleared prefix. Building a payment to one destination conserves value, queued
  payments never share an input, a transfer moves exactly its amount and is in the database when publishing succeeds,
  an escrow is paid out in full, the queue drains and the waiting loops end. Chunks of WebAssembly memory are disjoint,
  stored buffers are read back, and it is known exactly which allocations end. A locked subtask stays
  with its holder, at most one node takes over a lost queue, requests for the ownership are a queue, the queue manager
  never fails on well-formed messages and leaves no callback without an answer or a retry. Merging
  well-formed deltas into the replicated set implements an abstract set, replicas agree on elements and tombstones
  whatever the order, a removed key is gone, and a transaction takes effect as a whole or not at all. The stages of the
  application run in order and the shutdown is always reached. Some theorems state where the code goes wrong: array
  encodings that do not decode, amounts that wrap around, keys that shadow each other, cleared prefixes that hide everything,
  payments that create value, replicas that disagree after a removal, queries that list removed elements, transactions
  that put a key twice and cannot be committed, companion keys that never match, forged outputs that are credited and
  spent outputs that come back.

  \<^bold>\<open>Fuel and bounds.\<close> Recursion is structural or has a termination proof, with two exceptions. The three functions of the
  WebAssembly allocator call each other and run on fuel: \<open>grows_short\<close> says of a request whether they recurse for ever,
  which only requests of at least \<open>2 ^ 30\<close> bytes can do; if it does not hold, one unit of fuel is enough, and if it holds, no
  amount is. The loop over the shutdown callbacks of the application is a partial function, shown to end. Words keep
  their width; lengths are naturals, and statements bound them where the code stores them in 64 bits.

  \<^bold>\<open>Not modelled.\<close> Cryptographic primitives, the protobuf wire format, RocksDB and libp2p are third-party code
  and appear as parameters or not at all. Timers, threads, sockets, the command line, the zero-knowledge circuits
  (generated code) and logging are left out. The conversion of amounts from binary floating point is left out.
\<close>

end
